(* ===== verification/Obsto_Prelude.thy ===== *)
theory Obsto_Prelude
  imports Main "HOL-Library.Word" "HOL-Library.AList" "HOL-Library.Sublist"
begin

text \<open>
  What every component of the development shares: the names of the model's basic types, the
  outcome type of code that may throw, the pieces of the C++ standard library the sources use
  (\<open>std::string::find\<close>, \<open>std::stoi\<close>, \<open>std::stol\<close>, \<open>std::stoul\<close>, \<open>std::to_string\<close>, \<open>std::getline\<close>,
  \<open>operator>>\<close>, \<open>std::tolower\<close>, \<open>std::toupper\<close>) and the generic lemmas on strings, numerals and
  association lists the component proofs rest on.

  A byte string is a \<^typ>\<open>string\<close>: Isabelle characters are the 256 byte values. Positions inside a
  buffer that is in memory are natural numbers, which is exact because a C++ string is shorter
  than \<open>2 ^ 63\<close>. Sizes that come from a client or add up (\<open>size_t\<close> on an LP64 host, the
  platform of the Dockerfile) are 64-bit words, whose arithmetic wraps as the code's does.
\<close>

type_synonym bytes = string
type_synonym size_t = "64 word"

text \<open>
  \<open>obsto_defs\<close> collects the definitions a component proof unfolds routinely, \<open>obsto_vt\<close> the
  equations that read a method table.
\<close>

named_theorems obsto_defs "definitions unfolded by the component proofs"
named_theorems obsto_vt "equations of the method tables"

section \<open>Outcomes\<close>

text \<open>
  \<open>Throw\<close> is a C++ exception that leaves the function, \<open>Crash\<close> is undefined behaviour: the only
  source of it that the code has is a call through a null \<open>std::unique_ptr\<close>.
\<close>

datatype 'a outcome = Ret 'a | Throw | Crash

primrec is_ret :: "'a outcome \<Rightarrow> bool" where
  "is_ret (Ret x) \<longleftrightarrow> True"
| "is_ret Throw \<longleftrightarrow> False"
| "is_ret Crash \<longleftrightarrow> False"

section \<open>Characters\<close>

definition ch_code :: "char \<Rightarrow> nat" where
  "ch_code c = of_char c"

definition CR :: char where "CR = CHR 0x0D"
definition LF :: char where "LF = CHR 0x0A"

definition crlf :: string where "crlf = [CR, LF]"

text \<open>\<open>isspace\<close>, \<open>isdigit\<close>, \<open>tolower\<close> and \<open>toupper\<close> in the C locale.\<close>

definition is_space :: "char \<Rightarrow> bool" where
  "is_space c \<longleftrightarrow> ch_code c = 32 \<or> (9 \<le> ch_code c \<and> ch_code c \<le> 13)"

definition is_digit :: "char \<Rightarrow> bool" where
  "is_digit c \<longleftrightarrow> 48 \<le> ch_code c \<and> ch_code c \<le> 57"

definition lower_char :: "char \<Rightarrow> char" where
  "lower_char c = (if 65 \<le> ch_code c \<and> ch_code c \<le> 90 then char_of (ch_code c + 32) else c)"

definition upper_char :: "char \<Rightarrow> char" where
  "upper_char c = (if 97 \<le> ch_code c \<and> ch_code c \<le> 122 then char_of (ch_code c - 32) else c)"

lemma ch_code_less [simp]: "ch_code c < 256"
  by (simp add: ch_code_def)

lemma ch_code_char_of [simp]: "n < 256 \<Longrightarrow> ch_code (char_of n) = n"
  by (simp add: ch_code_def)

lemma ch_code_inj: "ch_code c = ch_code d \<Longrightarrow> c = d"
  by (simp add: ch_code_def)

lemma upper_char_idem [simp]: "upper_char (upper_char c) = upper_char c"
proof (cases "97 \<le> ch_code c \<and> ch_code c \<le> 122")
  case True
  moreover have "ch_code (char_of (ch_code c - 32)) = ch_code c - 32"
    by (rule ch_code_char_of) (simp add: less_imp_diff_less)
  ultimately have "ch_code (upper_char c) < 97" by (simp only: upper_char_def simp_thms if_True) linarith
  then show ?thesis by (simp add: upper_char_def [of "upper_char c"])
next
  case False
  then show ?thesis by (auto simp: upper_char_def)
qed

lemma lower_char_idem [simp]: "lower_char (lower_char c) = lower_char c"
proof (cases "65 \<le> ch_code c \<and> ch_code c \<le> 90")
  case True
  then have "90 < ch_code (lower_char c)" by (simp add: lower_char_def)
  then show ?thesis by (simp add: lower_char_def [of "lower_char c"])
next
  case False
  then show ?thesis by (auto simp: lower_char_def)
qed

section \<open>Searching\<close>

text \<open>\<open>find_sub pat s\<close> is the least index at which \<open>pat\<close> occurs in \<open>s\<close>.\<close>

fun find_sub :: "string \<Rightarrow> string \<Rightarrow> nat option" where
  "find_sub pat [] = (if pat = [] then Some 0 else None)"
| "find_sub pat (c # cs) =
     (if prefix pat (c # cs) then Some 0 else map_option Suc (find_sub pat cs))"

text \<open>\<open>s.find(pat, pos)\<close>, with \<open>None\<close> for \<open>npos\<close>.\<close>

definition str_find :: "string \<Rightarrow> string \<Rightarrow> nat \<Rightarrow> nat option" where
  "str_find s pat pos =
     (if length s < pos then None
      else map_option (\<lambda>i. pos + i) (find_sub pat (drop pos s)))"

text \<open>\<open>s.substr(pos, n)\<close> for \<open>pos \<le> s.size()\<close>, the only way the code calls it.\<close>

definition substr :: "string \<Rightarrow> nat \<Rightarrow> nat \<Rightarrow> string" where
  "substr s pos n = take n (drop pos s)"

lemma find_sub_Some:
  "find_sub pat s = Some i \<Longrightarrow> \<exists>pre post. s = pre @ pat @ post \<and> length pre = i"
proof (induction s arbitrary: i)
  case Nil
  then show ?case by (auto split: if_splits)
next
  case (Cons c cs)
  show ?case
  proof (cases "prefix pat (c # cs)")
    case True
    with Cons.prems show ?thesis by (auto simp: prefix_def)
  next
    case False
    with Cons.prems obtain j where j: "find_sub pat cs = Some j" "i = Suc j" by auto
    with Cons.IH obtain pre post where "cs = pre @ pat @ post" "length pre = j" by blast
    with j have "c # cs = (c # pre) @ pat @ post \<and> length (c # pre) = i" by simp
    then show ?thesis by blast
  qed
qed

lemma find_sub_bound: "find_sub pat s = Some i \<Longrightarrow> i + length pat \<le> length s"
  by (auto dest: find_sub_Some)

lemma find_sub_least: "find_sub pat s = Some i \<Longrightarrow> j < i \<Longrightarrow> \<not> prefix pat (drop j s)"
proof (induction s arbitrary: i j)
  case Nil
  then show ?case by (auto split: if_splits)
next
  case (Cons c cs)
  then show ?case by (cases j) (auto split: if_splits)
qed

lemma find_sub_append: "find_sub pat s = Some i \<Longrightarrow> find_sub pat (s @ t) = Some i"
proof (induction s arbitrary: i)
  case Nil
  then show ?case by (cases t) (auto split: if_splits)
next
  case (Cons c cs)
  show ?case
  proof (cases "prefix pat (c # cs)")
    case True
    then have "prefix pat (c # cs @ t)" by (metis append_Cons prefix_prefix)
    with True Cons.prems show ?thesis by simp
  next
    case False
    with Cons.prems obtain j where j: "find_sub pat cs = Some j" "i = Suc j" by auto
    have "length pat \<le> length (c # cs)" using find_sub_bound [OF j(1)] by simp
    with False have "\<not> prefix pat (c # cs @ t)"
      by (metis append_Cons prefix_length_prefix prefixI)
    with j Cons.IH show ?thesis by simp
  qed
qed

lemma find_sub_first:
  assumes "pat = p # ps" and "p \<notin> set pre"
  shows "find_sub pat (pre @ pat @ post) = Some (length pre)"
  using assms(2)
proof (induction pre)
  case Nil
  then show ?case by (simp add: assms(1))
next
  case (Cons x xs)
  then have "\<not> prefix pat (x # xs @ pat @ post)" using assms(1) by auto
  with Cons show ?case by simp
qed

lemma find_sub_None_set: "p \<notin> set s \<Longrightarrow> find_sub (p # ps) s = None"
  by (induction s) auto

lemma str_find_0 [simp]: "str_find s pat 0 = find_sub pat s"
  by (cases "find_sub pat s") (simp_all add: str_find_def)

lemma str_find_bound: "str_find s pat pos = Some e \<Longrightarrow> pos \<le> e \<and> e + length pat \<le> length s"
  by (auto simp: str_find_def split: if_splits dest!: find_sub_bound)

lemma str_find_append: "str_find s pat pos = Some e \<Longrightarrow> str_find (s @ t) pat pos = Some e"
  by (auto simp: str_find_def split: if_splits intro: find_sub_append)

lemma str_find_first:
  assumes "pat = p # ps" and "p \<notin> set mid" and "pos = length pre"
  shows "str_find (pre @ mid @ pat @ post) pat pos = Some (pos + length mid)"
  using find_sub_first [OF assms(1,2)] assms(3) by (simp add: str_find_def)

lemma crlf_cons: "crlf = CR # [LF]"
  by (simp add: crlf_def)

lemma length_crlf [simp]: "length crlf = 2"
  by (simp add: crlf_def)

lemma crlf_not_Nil [simp]: "crlf \<noteq> []"
  by (simp add: crlf_def)

lemmas str_find_crlf = str_find_first [OF crlf_cons]
lemmas find_sub_crlf = find_sub_first [OF crlf_cons]

lemma str_find_crlf_bound: "str_find s crlf pos = Some e \<Longrightarrow> pos \<le> e \<and> e + 2 \<le> length s"
  using str_find_bound by fastforce

lemma append_longer:
  assumes "a @ b = c @ d" "length a \<le> length c"
  obtains e where "c = a @ e" "b = e @ d"
  using assms that by (auto simp: append_eq_append_conv2)

lemma substr_append: "pos + n \<le> length s \<Longrightarrow> substr (s @ t) pos n = substr s pos n"
  by (simp add: substr_def)

lemma length_substr: "pos + n \<le> length s \<Longrightarrow> length (substr s pos n) = n"
  by (simp add: substr_def)

lemma substr_mid: "pos = length pre \<Longrightarrow> n = length mid \<Longrightarrow> substr (pre @ mid @ post) pos n = mid"
  by (simp add: substr_def)

section \<open>Decimal numerals\<close>

definition digit_val :: "char \<Rightarrow> nat" where
  "digit_val c = ch_code c - 48"

definition digit_char :: "nat \<Rightarrow> char" where
  "digit_char d = char_of (48 + d)"

fun dec_val :: "nat \<Rightarrow> string \<Rightarrow> nat" where
  "dec_val acc [] = acc"
| "dec_val acc (c # cs) = dec_val (10 * acc + digit_val c) cs"

text \<open>\<open>std::to_string\<close> of an unsigned and of a signed value.\<close>

fun to_string :: "nat \<Rightarrow> string" where
  "to_string n =
     (if n < 10 then [digit_char n] else to_string (n div 10) @ [digit_char (n mod 10)])"

declare to_string.simps [simp del]

definition to_string_int :: "int \<Rightarrow> string" where
  "to_string_int i = (if i < 0 then CHR ''-'' # to_string (nat (- i)) else to_string (nat i))"

text \<open>
  The scan that \<open>strtol\<close> and \<open>strtoul\<close> share: white space is skipped, a sign is read, then the
  longest run of digits; what follows it is ignored. \<open>None\<close> is \<open>std::invalid_argument\<close>.
\<close>

definition scan_sign :: "string \<Rightarrow> bool \<times> string" where
  "scan_sign s =
     (case s of
        [] \<Rightarrow> (False, [])
      | c # cs \<Rightarrow>
          if c = CHR ''-'' then (True, cs) else if c = CHR ''+'' then (False, cs) else (False, s))"

definition scan_int :: "string \<Rightarrow> (bool \<times> nat) option" where
  "scan_int s =
     (let (neg, rest) = scan_sign (dropWhile is_space s); ds = takeWhile is_digit rest
      in if ds = [] then None else Some (neg, dec_val 0 ds))"

definition signed_in :: "nat \<Rightarrow> string \<Rightarrow> int option" where
  "signed_in w s =
     (case scan_int s of
        None \<Rightarrow> None
      | Some (neg, v) \<Rightarrow>
          let i = (if neg then - int v else int v)
          in if - (2 ^ (w - 1)) \<le> i \<and> i < 2 ^ (w - 1) then Some i else None)"

text \<open>
  \<open>std::stoi\<close> (32 bits), \<open>std::stol\<close> (64 bits) and \<open>std::stoul\<close>; \<open>None\<close> is either exception. A
  minus sign does not make \<open>stoul\<close> fail: it negates the value modulo \<open>2 ^ 64\<close>.
\<close>

definition stoi :: "string \<Rightarrow> int option" where
  "stoi s = signed_in 32 s"

definition stol :: "string \<Rightarrow> int option" where
  "stol s = signed_in 64 s"

definition stoul :: "string \<Rightarrow> size_t option" where
  "stoul s =
     (case scan_int s of
        None \<Rightarrow> None
      | Some (neg, v) \<Rightarrow>
          if v < 2 ^ 64 then Some (if neg then - of_nat v else of_nat v) else None)"

text \<open>What evaluates a conversion of a literal.\<close>

lemmas scan_eval =
  stoi_def stol_def stoul_def signed_in_def scan_int_def scan_sign_def is_space_def is_digit_def
  digit_val_def ch_code_def

lemma digit_char_code [simp]: "d < 10 \<Longrightarrow> ch_code (digit_char d) = 48 + d"
  by (simp add: digit_char_def)

lemma digit_val_digit_char [simp]: "d < 10 \<Longrightarrow> digit_val (digit_char d) = d"
  by (simp add: digit_val_def)

lemma is_digit_digit_char [simp]: "d < 10 \<Longrightarrow> is_digit (digit_char d)"
  by (simp add: is_digit_def)

lemma dec_val_append: "dec_val acc (xs @ ys) = dec_val (dec_val acc xs) ys"
  by (induction xs arbitrary: acc) auto

lemma to_string_not_Nil [simp]: "to_string n \<noteq> []"
  by (subst to_string.simps) simp

lemma to_string_digits: "c \<in> set (to_string n) \<Longrightarrow> is_digit c"
proof (induction n rule: to_string.induct)
  case (1 n)
  then show ?case by (subst (asm) to_string.simps) (auto split: if_splits)
qed

lemma dec_val_to_string: "dec_val 0 (to_string n) = n"
proof (induction n rule: to_string.induct)
  case (1 n)
  then show ?case by (subst to_string.simps) (auto simp: dec_val_append)
qed

lemma digit_not_special:
  assumes "is_digit c"
  shows "\<not> is_space c" "c \<noteq> CHR ''-''" "c \<noteq> CHR ''+''" "c \<noteq> CR" "c \<noteq> LF"
  using assms by (auto simp: is_digit_def is_space_def ch_code_def CR_def LF_def)

lemma CR_notin_to_string [simp]: "CR \<notin> set (to_string n)"
  using to_string_digits digit_not_special by blast

lemma scan_int_to_string: "scan_int (to_string n) = Some (False, n)"
proof -
  obtain c cs where s: "to_string n = c # cs" by (cases "to_string n") auto
  then have c: "is_digit c" using to_string_digits [of c n] by simp
  have sign: "scan_sign (dropWhile is_space (to_string n)) = (False, to_string n)"
    using s c by (simp add: scan_sign_def digit_not_special)
  have digits: "takeWhile is_digit (to_string n) = to_string n"
    using takeWhile_eq_all_conv to_string_digits by blast
  show ?thesis by (simp add: scan_int_def sign digits dec_val_to_string Let_def)
qed

lemma stoi_to_string: "n < 2 ^ 31 \<Longrightarrow> stoi (to_string n) = Some (int n)"
  by (simp add: stoi_def signed_in_def scan_int_to_string)

lemma stol_to_string: "n < 2 ^ 63 \<Longrightarrow> stol (to_string n) = Some (int n)"
  by (simp add: stol_def signed_in_def scan_int_to_string)

lemma stoul_to_string: "n < 2 ^ 64 \<Longrightarrow> stoul (to_string n) = Some (of_nat n)"
  by (simp add: stoul_def scan_int_to_string)

lemma stoi_bounds: "stoi s = Some i \<Longrightarrow> - (2 ^ 31) \<le> i \<and> i < 2 ^ 31"
  by (auto simp: stoi_def signed_in_def Let_def split: option.splits prod.splits if_splits)

lemma stol_bounds: "stol s = Some i \<Longrightarrow> - (2 ^ 63) \<le> i \<and> i < 2 ^ 63"
  by (auto simp: stol_def signed_in_def Let_def split: option.splits prod.splits if_splits)

section \<open>Streams over a string\<close>

text \<open>
  The lines that repeated \<open>std::getline\<close> calls return: split at line feeds; nothing follows a
  final line feed, and an empty stream has no line at all.
\<close>

function getlines :: "string \<Rightarrow> string list" where
  "getlines s =
     (if s = [] then []
      else takeWhile (\<lambda>c. c \<noteq> LF) s # getlines (drop (Suc (length (takeWhile (\<lambda>c. c \<noteq> LF) s))) s))"
  by pat_completeness auto
termination
  by (relation "measure length") auto

declare getlines.simps [simp del]

lemma getlines_Nil [simp]: "getlines [] = []"
  by (simp add: getlines.simps)

lemma getlines_line: "LF \<notin> set l \<Longrightarrow> l \<noteq> [] \<Longrightarrow> getlines l = [l]"
proof -
  assume "LF \<notin> set l" and ne: "l \<noteq> []"
  then have l: "takeWhile (\<lambda>c. c \<noteq> LF) l = l" by (auto simp: takeWhile_eq_all_conv)
  show ?thesis unfolding getlines.simps [of l] l using ne by simp
qed

lemma getlines_cons:
  assumes "LF \<notin> set l"
  shows "getlines (l @ LF # rest) = l # getlines rest"
proof -
  have "takeWhile (\<lambda>c. c \<noteq> LF) (l @ LF # rest) = l"
    using assms by (metis (mono_tags, lifting) append_Nil2 takeWhile.simps(2) takeWhile_append2)
  then show ?thesis by (subst getlines.simps) simp
qed

text \<open>\<open>stream >> word\<close>: the word and what is left, \<open>None\<close> when the stream fails.\<close>

definition read_token :: "string \<Rightarrow> (string \<times> string) option" where
  "read_token s =
     (let s' = dropWhile is_space s
      in if s' = [] then None
         else Some (takeWhile (\<lambda>c. \<not> is_space c) s', dropWhile (\<lambda>c. \<not> is_space c) s'))"

lemma read_token_word:
  assumes "w \<noteq> []" and "\<forall>c \<in> set w. \<not> is_space c" and "rest = [] \<or> is_space (hd rest)"
  shows "read_token (w @ rest) = Some (w, rest)"
proof -
  have d: "dropWhile is_space (w @ rest) = w @ rest"
    using assms(1,2) by (cases w) auto
  have t: "takeWhile (\<lambda>c. \<not> is_space c) (w @ rest) = w"
    using assms(2,3) by (cases rest) (auto simp: takeWhile_append2 takeWhile_eq_all_conv)
  have r: "dropWhile (\<lambda>c. \<not> is_space c) (w @ rest) = rest"
    using assms(2,3) by (cases rest) (auto simp: dropWhile_append2 dropWhile_eq_Nil_conv)
  show ?thesis using assms(1) by (simp add: read_token_def Let_def d t r)
qed

lemma read_token_space: "is_space c \<Longrightarrow> read_token (c # s) = read_token s"
  by (simp add: read_token_def)

section \<open>Association lists\<close>

text \<open>
  A \<open>std::unordered_map\<close> whose entries the code also enumerates is an association list with
  distinct keys; the order of the list stands for the (unspecified) order of the enumeration, and
  no theorem depends on it.
\<close>

definition alist_ok :: "('k \<times> 'v) list \<Rightarrow> bool" where
  "alist_ok al \<longleftrightarrow> distinct (map fst al)"

definition total_of :: "('k \<times> 'v::comm_monoid_add) list \<Rightarrow> 'v" where
  "total_of al = sum_list (map snd al)"

lemma alist_ok_Nil [simp]: "alist_ok []"
  by (simp add: alist_ok_def)

lemma alist_ok_update [simp, intro]: "alist_ok al \<Longrightarrow> alist_ok (AList.update k v al)"
  by (simp add: alist_ok_def AList.distinct_update)

lemma alist_ok_delete [simp, intro]: "alist_ok al \<Longrightarrow> alist_ok (AList.delete k al)"
  by (simp add: alist_ok_def AList.distinct_delete)

lemma map_of_update [simp]: "map_of (AList.update k v al) = (map_of al)(k \<mapsto> v)"
  by (rule AList.update_conv')

lemma map_of_alist_delete [simp]: "map_of (AList.delete k al) = (map_of al)(k := None)"
  by (rule AList.delete_conv')

lemma total_of_Nil [simp]: "total_of [] = 0"
  by (simp add: total_of_def)

lemma total_of_Cons [simp]: "total_of (p # al) = snd p + total_of al"
  by (simp add: total_of_def)

lemma total_of_update:
  fixes al :: "('k \<times> 'v::ab_group_add) list"
  shows "total_of (AList.update k v al) =
    total_of al - (case map_of al k of None \<Rightarrow> 0 | Some w \<Rightarrow> w) + v"
  by (induction al) (auto simp: algebra_simps)

lemma total_of_delete:
  fixes al :: "('k \<times> 'v::ab_group_add) list"
  shows "alist_ok al \<Longrightarrow>
    total_of (AList.delete k al) = total_of al - (case map_of al k of None \<Rightarrow> 0 | Some w \<Rightarrow> w)"
proof (induction al)
  case Nil
  then show ?case by simp
next
  case (Cons p al)
  then have ok: "alist_ok al" and new: "fst p \<notin> fst ` set al" by (auto simp: alist_ok_def)
  show ?case
  proof (cases "fst p = k")
    case True
    with new have "AList.delete k al = al" by simp
    with True show ?thesis by (cases p) simp
  next
    case False
    with Cons.IH [OF ok] show ?thesis by (cases p) (simp add: algebra_simps)
  qed
qed

lemma length_delete_less: "k \<in> fst ` set al \<Longrightarrow> length (AList.delete k al) < length al"
proof (induction al)
  case Nil
  then show ?case by simp
next
  case (Cons p al)
  show ?case
  proof (cases "fst p = k")
    case True
    then show ?thesis using AList.length_delete_le [of k al] by (cases p) simp
  next
    case False
    with Cons show ?thesis by (cases p) simp
  qed
qed

text \<open>A sum over the entries of a finite map, with one entry taken out.\<close>

lemma sum_dom_split:
  fixes f :: "'v \<Rightarrow> 'n::comm_monoid_add"
  assumes "finite (dom m)"
  shows "(\<Sum>q \<in> dom m. f (the (m q))) =
    (case m p of None \<Rightarrow> 0 | Some v \<Rightarrow> f v) + (\<Sum>q \<in> dom m - {p}. f (the (m q)))"
proof (cases "m p")
  case None
  then have "dom m - {p} = dom m" by auto
  with None show ?thesis by simp
next
  case (Some v)
  then show ?thesis using sum.remove [OF assms, of p "\<lambda>q. f (the (m q))"] by auto
qed

lemma sum_dom_update:
  fixes f :: "'v \<Rightarrow> 'n::comm_monoid_add"
  assumes "finite (dom m)"
  shows "(\<Sum>q \<in> dom (m(p \<mapsto> v)). f (the ((m(p \<mapsto> v)) q))) =
    f v + (\<Sum>q \<in> dom m - {p}. f (the (m q)))"
proof -
  have "(\<Sum>q \<in> dom (m(p \<mapsto> v)) - {p}. f (the ((m(p \<mapsto> v)) q))) =
      (\<Sum>q \<in> dom m - {p}. f (the (m q)))"
    by (rule sum.cong) auto
  with sum_dom_split [of "m(p \<mapsto> v)" f p] assms show ?thesis by simp
qed

lemma sum_dom_delete:
  fixes f :: "'v \<Rightarrow> 'n::comm_monoid_add"
  shows "(\<Sum>q \<in> dom (m(p := None)). f (the ((m(p := None)) q))) =
    (\<Sum>q \<in> dom m - {p}. f (the (m q)))"
  by (rule sum.cong) auto

lemma dom_map_of_alist: "dom (map_of al) = set (map fst al)"
  by (simp add: dom_map_of_conv_image_fst)

end
