(* ===== verification/Storage_Interface.thy ===== *)
theory Storage_Interface
  imports Obsto_Prelude
begin

text \<open>
  The interfaces of \<open>Core/Storage\<close>: the result enums of \<open>IObjectStorage.h\<close>, the abstract classes
  \<open>IObjectStorage\<close>, \<open>IStreamingObjectStorage\<close>, \<open>IWriteSession\<close> and \<open>IReadSession\<close> as tables of
  methods over a storage state, and the constants of \<open>StreamingConfig.h\<close>. The locales state what a
  storage promises its clients; the clients' lemmas are proved inside them once, and every storage
  class of the development interprets them.
\<close>

section \<open>Results and method tables\<close>

datatype put_result = PutOk | PutCapacityExceeded | PutInvalidPath | PutFailedToWrite

datatype setnx_result = NxInserted | NxAlreadyExists | NxCapacityExceeded | NxInvalidPath

definition kStreamingThreshold :: nat where
  "kStreamingThreshold = 1024 * 1024"

definition kReadChunkSize :: nat where
  "kReadChunkSize = 64 * 1024"

text \<open>
  A virtual call is a field of a method table applied to the state of the storage behind the
  reference. \<open>keys\<close>, \<open>exists\<close> and \<open>setnx\<close> return an outcome because an implementation may throw
  there; the other methods report failure in their result.
\<close>

record 's object_vt =
  vt_put :: "string \<Rightarrow> bytes \<Rightarrow> 's \<Rightarrow> put_result \<times> 's"
  vt_get :: "string \<Rightarrow> 's \<Rightarrow> bytes option"
  vt_del :: "string \<Rightarrow> 's \<Rightarrow> bool \<times> 's"
  vt_keys :: "'s \<Rightarrow> string list outcome"
  vt_exists :: "string \<Rightarrow> 's \<Rightarrow> bool outcome"
  vt_setnx :: "string \<Rightarrow> bytes \<Rightarrow> 's \<Rightarrow> setnx_result outcome \<times> 's"

text \<open>
  \<open>BeginPutResult\<close> and \<open>BeginGetResult\<close>; the session is a null pointer (\<open>None\<close>) on failure. A
  write or read session is an object of type \<open>'w\<close> or \<open>'r\<close> whose methods also act on the storage.
\<close>

record 'w begin_put =
  bp_status :: put_result
  bp_session :: "'w option"

record 'r begin_get =
  bg_found :: bool
  bg_size :: size_t
  bg_session :: "'r option"

record ('s, 'w, 'r) streaming_vt =
  vt_beginPut :: "string \<Rightarrow> size_t \<Rightarrow> 's \<Rightarrow> 'w begin_put \<times> 's"
  vt_beginGet :: "string \<Rightarrow> 's \<Rightarrow> 'r begin_get"
  vt_writeChunk :: "'w \<Rightarrow> bytes \<Rightarrow> 's \<Rightarrow> bool \<times> 'w \<times> 's"
  vt_finish :: "'w \<Rightarrow> 's \<Rightarrow> put_result \<times> 'w \<times> 's"
  vt_abort :: "'w \<Rightarrow> 's \<Rightarrow> 'w \<times> 's"
  vt_readChunk :: "'r \<Rightarrow> nat \<Rightarrow> 's \<Rightarrow> bytes option \<times> 'r"

section \<open>The contract of an object storage\<close>

text \<open>
  \<open>view\<close> is the map a storage state stands for, \<open>good\<close> the keys for which the contract is promised
  (an implementation may give two spellings of one object, and the contract is then only about the
  canonical ones) and \<open>inv\<close> the invariant the implementation keeps. The values are those a
  \<open>std::string\<close> can hold (\<open>str_ok\<close>).
\<close>

definition str_ok :: "bytes \<Rightarrow> bool" where
  "str_ok b \<longleftrightarrow> length b < 2 ^ 63"

locale object_store =
  fixes vt :: "'s object_vt"
    and inv :: "'s \<Rightarrow> bool"
    and view :: "'s \<Rightarrow> string \<Rightarrow> bytes option"
    and good :: "string \<Rightarrow> bool"
  assumes view_good: "inv s \<Longrightarrow> view s p \<noteq> None \<Longrightarrow> good p"
    and put_inv: "inv s \<Longrightarrow> good p \<Longrightarrow> str_ok b \<Longrightarrow> vt_put vt p b s = (r, s') \<Longrightarrow> inv s'"
    and put_view: "inv s \<Longrightarrow> good p \<Longrightarrow> str_ok b \<Longrightarrow> vt_put vt p b s = (r, s') \<Longrightarrow>
      view s' = (if r = PutOk then (view s)(p \<mapsto> b) else view s)"
    and get_stored: "inv s \<Longrightarrow> good p \<Longrightarrow> view s p = Some b \<Longrightarrow> vt_get vt p s = Some b"
    and del_inv: "inv s \<Longrightarrow> good p \<Longrightarrow> vt_del vt p s = (d, s') \<Longrightarrow> inv s'"
    and del_view: "inv s \<Longrightarrow> good p \<Longrightarrow> vt_del vt p s = (d, s') \<Longrightarrow>
      view s' = (if d then (view s)(p := None) else view s)"
    and keys_view: "inv s \<Longrightarrow> vt_keys vt s = Ret ks \<Longrightarrow> distinct ks \<and> set ks = dom (view s)"
    and exists_view: "inv s \<Longrightarrow> good p \<Longrightarrow> vt_exists vt p s = Ret e \<Longrightarrow> e \<longleftrightarrow> view s p \<noteq> None"
    and setnx_inv: "inv s \<Longrightarrow> good p \<Longrightarrow> str_ok b \<Longrightarrow> vt_setnx vt p b s = (n, s') \<Longrightarrow> inv s'"
    and setnx_view: "inv s \<Longrightarrow> good p \<Longrightarrow> str_ok b \<Longrightarrow> vt_setnx vt p b s = (n, s') \<Longrightarrow>
      view s' = (if n = Ret NxInserted then (view s)(p \<mapsto> b) else view s) \<and>
      (n = Ret NxInserted \<longrightarrow> view s p = None)"
    and del_present: "inv s \<Longrightarrow> good p \<Longrightarrow> view s p \<noteq> None \<Longrightarrow> fst (vt_del vt p s)"
begin

lemma put_then_get:
  assumes "inv s" "good p" "str_ok b" "vt_put vt p b s = (PutOk, s')"
  shows "vt_get vt p s' = Some b"
  using assms put_view [of s p b PutOk s'] put_inv [of s p b PutOk s'] get_stored by simp

lemma put_frame:
  assumes "inv s" "good p" "str_ok b" "view s q = Some c" "q \<noteq> p" "vt_put vt p b s = (r, s')"
  shows "vt_get vt q s' = Some c"
proof -
  have "view s' q = Some c" using assms put_view [of s p b r s'] by simp
  moreover have "good q" "inv s'" using assms view_good [of s q] put_inv by auto
  ultimately show ?thesis using get_stored by simp
qed

lemma setnx_keeps:
  assumes "inv s" "good p" "str_ok b" "view s p = Some old" "vt_setnx vt p b s = (n, s')"
  shows "view s' = view s"
  using assms setnx_view [of s p b n s'] by auto

end

text \<open>
  A storage that never throws and whose answers are exact also for what is not stored, as the
  in-memory one. (A disk storage is not: a directory is no object, but \<open>get\<close> and \<open>del\<close> may succeed on
  it and \<open>setnx\<close> finds it in the way.)
\<close>

locale reliable_store = object_store +
  assumes keys_ret: "inv s \<Longrightarrow> \<exists>ks. vt_keys vt s = Ret ks"
    and exists_ret: "inv s \<Longrightarrow> \<exists>e. vt_exists vt p s = Ret e"
    and setnx_ret: "inv s \<Longrightarrow> \<exists>r. fst (vt_setnx vt p b s) = Ret r"
    and get_absent: "inv s \<Longrightarrow> view s p = None \<Longrightarrow> vt_get vt p s = None"
    and setnx_exact: "inv s \<Longrightarrow> fst (vt_setnx vt p b s) = Ret NxAlreadyExists \<Longrightarrow> view s p \<noteq> None"
    and del_exact: "inv s \<Longrightarrow> good p \<Longrightarrow> fst (vt_del vt p s) \<longleftrightarrow> view s p \<noteq> None"
begin

lemma exists_exact:
  assumes "inv s" "good p"
  shows "vt_exists vt p s = Ret (view s p \<noteq> None)"
  using exists_ret [OF assms(1), of p] exists_view [OF assms] by fastforce

lemma get_exact:
  assumes "inv s"
  shows "vt_get vt p s = view s p"
  using get_stored [OF assms view_good [OF assms]] get_absent [OF assms] by (cases "view s p") auto

lemma keys_exact:
  assumes "inv s"
  obtains ks where "vt_keys vt s = Ret ks" "distinct ks" "set ks = dom (view s)"
  using keys_ret [OF assms] keys_view [OF assms] by blast

end

section \<open>The contract of a streaming storage\<close>

text \<open>A client that writes the chunks of an object until one is refused.\<close>

fun vt_write_all :: "('s, 'w, 'r) streaming_vt \<Rightarrow> 'w \<Rightarrow> bytes list \<Rightarrow> 's \<Rightarrow> bool \<times> 'w \<times> 's" where
  "vt_write_all t w [] s = (True, w, s)"
| "vt_write_all t w (c # cs) s =
     (case vt_writeChunk t w c s of
        (True, w', s') \<Rightarrow> vt_write_all t w' cs s'
      | (False, w', s') \<Rightarrow> (False, w', s'))"

text \<open>Reading a session to its end in chunks of \<open>n\<close> bytes, at most \<open>fuel\<close> times.\<close>

fun vt_read_all :: "('s, 'w, 'r) streaming_vt \<Rightarrow> nat \<Rightarrow> nat \<Rightarrow> 'r \<Rightarrow> 's \<Rightarrow> bytes list option" where
  "vt_read_all t n 0 r s = None"
| "vt_read_all t n (Suc fuel) r s =
     (case vt_readChunk t r n s of
        (None, _) \<Rightarrow> Some []
      | (Some c, r') \<Rightarrow> map_option (Cons c) (vt_read_all t n fuel r' s))"

text \<open>A download gives the bytes it still has to give, chunk by chunk, and then ends.\<close>

locale download_store =
  fixes svt :: "('s, 'w, 'r) streaming_vt" and downloads :: "'r \<Rightarrow> bytes \<Rightarrow> 's \<Rightarrow> bool"
  assumes readChunk_end: "downloads r [] s \<Longrightarrow> 0 < n \<Longrightarrow> fst (vt_readChunk svt r n s) = None"
    and readChunk: "downloads r b s \<Longrightarrow> b \<noteq> [] \<Longrightarrow> 0 < n \<Longrightarrow>
      \<exists>r'. vt_readChunk svt r n s = (Some (take n b), r') \<and> downloads r' (drop n b) s"
begin

lemma read_all:
  assumes n: "0 < n"
  shows "downloads r b s \<Longrightarrow> length b < fuel \<Longrightarrow>
    \<exists>cs. vt_read_all svt n fuel r s = Some cs \<and> concat cs = b \<and>
      (\<forall>c\<in>set cs. 0 < length c \<and> length c \<le> n)"
proof (induction fuel arbitrary: r b)
  case (Suc fuel)
  show ?case
  proof (cases "b = []")
    case True
    then have "fst (vt_readChunk svt r n s) = None" using readChunk_end Suc.prems(1) n by blast
    then obtain r' where "vt_readChunk svt r n s = (None, r')" by (metis prod.collapse)
    with True show ?thesis by simp
  next
    case False
    obtain r' where r': "vt_readChunk svt r n s = (Some (take n b), r')" "downloads r' (drop n b) s"
      using readChunk [OF Suc.prems(1) False n] by blast
    have "length (drop n b) < fuel" using Suc.prems(2) False n by (cases b) auto
    from Suc.IH [OF r'(2) this] obtain cs where
      "vt_read_all svt n fuel r' s = Some cs" "concat cs = drop n b"
      "\<forall>c\<in>set cs. 0 < length c \<and> length c \<le> n" by blast
    with r'(1) False n show ?thesis by (intro exI [of _ "take n b # cs"]) simp
  qed
qed simp

end

text \<open>
  \<open>uploads w p b s\<close>: in state \<open>s\<close> the write session \<open>w\<close> is for the object \<open>p\<close> and has taken the
  bytes \<open>b\<close>, unless it has failed. Nothing a session does before \<open>finish\<close> shows in the view.
  \<open>downloads r b s\<close>: the read session \<open>r\<close> has still the bytes \<open>b\<close> to give.
\<close>

locale streaming_store = object_store vt inv view good + download_store svt downloads
  for vt :: "'s object_vt" and inv view good
    and svt :: "('s, 'w, 'r) streaming_vt"
    and uploads :: "'w \<Rightarrow> string \<Rightarrow> bytes \<Rightarrow> 's \<Rightarrow> bool"
    and downloads :: "'r \<Rightarrow> bytes \<Rightarrow> 's \<Rightarrow> bool" +
  assumes beginPut: "inv s \<Longrightarrow> good p \<Longrightarrow> vt_beginPut svt p m s = (res, s') \<Longrightarrow>
      inv s' \<and> view s' = view s \<and>
      (bp_status res = PutOk \<longrightarrow> (\<exists>w. bp_session res = Some w \<and> uploads w p [] s'))"
    and writeChunk: "inv s \<Longrightarrow> uploads w p b s \<Longrightarrow> str_ok c \<Longrightarrow> vt_writeChunk svt w c s = (ok, w', s') \<Longrightarrow>
      inv s' \<and> view s' = view s \<and> uploads w' p (b @ c) s'"
    and finish: "inv s \<Longrightarrow> uploads w p b s \<Longrightarrow> vt_finish svt w s = (q, w', s') \<Longrightarrow>
      inv s' \<and> view s' = (if q = PutOk then (view s)(p \<mapsto> b) else view s)"
    and abort: "inv s \<Longrightarrow> uploads w p b s \<Longrightarrow> vt_abort svt w s = (w', s') \<Longrightarrow>
      inv s' \<and> view s' = view s"
    and beginGet_absent: "inv s \<Longrightarrow> good p \<Longrightarrow> view s p = None \<Longrightarrow> \<not> bg_found (vt_beginGet svt p s)"
    and beginGet_stored: "inv s \<Longrightarrow> good p \<Longrightarrow> view s p = Some b \<Longrightarrow>
      \<exists>r. vt_beginGet svt p s = \<lparr>bg_found = True, bg_size = of_nat (length b), bg_session = Some r\<rparr> \<and>
        downloads r b s"
begin

lemma write_all:
  assumes "list_all str_ok cs"
  shows "inv s \<Longrightarrow> uploads w p b s \<Longrightarrow> vt_write_all svt w cs s = (ok, w', s') \<Longrightarrow>
    inv s' \<and> view s' = view s \<and> (\<exists>b'. uploads w' p b' s' \<and> (ok \<longrightarrow> b' = b @ concat cs))"
  using assms
proof (induction cs arbitrary: w b s)
  case (Cons c cs)
  obtain ok1 w1 s1 where w1: "vt_writeChunk svt w c s = (ok1, w1, s1)" by (rule prod_cases3)
  have c: "str_ok c" "list_all str_ok cs" using Cons.prems(4) by simp_all
  note step = writeChunk [OF Cons.prems(1,2) c(1) w1]
  show ?case
  proof (cases ok1)
    case True
    with Cons.prems(3) w1 have "vt_write_all svt w1 cs s1 = (ok, w', s')" by simp
    from Cons.IH [OF _ _ this c(2), of "b @ c"] step show ?thesis by simp
  next
    case False
    with Cons.prems(3) w1 step show ?thesis by auto
  qed
qed auto

end

text \<open>
  A storage of which a part is looked at: fewer keys, and an assumption about the environment.
\<close>

context streaming_store
begin

lemma restricted:
  assumes "\<And>s p. P \<Longrightarrow> inv s \<Longrightarrow> view s p \<noteq> None \<Longrightarrow> good' p" "\<And>p. good' p \<Longrightarrow> good p"
  shows "streaming_store vt (\<lambda>s. P \<and> inv s) view good' svt uploads downloads"
  using assms(2)
  by unfold_locales
    (use assms(1) in blast, blast dest: put_inv, blast dest: put_view, blast intro: get_stored, blast dest: del_inv,
      blast dest: del_view, blast dest: keys_view, blast dest: exists_view, blast dest: setnx_inv, blast dest: setnx_view,
      blast intro: del_present, blast dest: readChunk_end, blast dest: readChunk, blast dest: beginPut,
      blast dest: writeChunk, blast dest: finish, blast dest: abort, blast dest: beginGet_absent,
      blast dest: beginGet_stored)

end

text \<open>A streaming storage whose operations return for every key the contract is about.\<close>

locale total_store = streaming_store vt inv view good svt uploads downloads
  for vt :: "'s object_vt" and inv view good and svt :: "('s, 'w, 'r) streaming_vt" and uploads downloads +
  assumes keys_total: "inv s \<Longrightarrow> \<exists>ks. vt_keys vt s = Ret ks"
    and exists_total: "inv s \<Longrightarrow> good p \<Longrightarrow> \<exists>e. vt_exists vt p s = Ret e"
    and setnx_total: "inv s \<Longrightarrow> good p \<Longrightarrow> \<exists>r. fst (vt_setnx vt p b s) = Ret r"
begin

lemma keys_listed:
  assumes "inv s"
  obtains ks where "vt_keys vt s = Ret ks" "distinct ks" "set ks = dom (view s)"
  using keys_total [OF assms] keys_view [OF assms] by blast

lemma exists_known: "inv s \<Longrightarrow> good p \<Longrightarrow> vt_exists vt p s = Ret (view s p \<noteq> None)"
  using exists_total [of s p] exists_view [of s p] by fastforce

end

text \<open>
  What the callers rely on when they use a session or a result without looking: sessions are there
  when they are announced, for any key and in any state.
\<close>

locale null_safe =
  fixes vt :: "'s object_vt" and svt :: "('s, 'w, 'r) streaming_vt"
  assumes keys_defined: "vt_keys vt s \<noteq> Crash"
    and exists_defined: "vt_exists vt p s \<noteq> Crash"
    and setnx_defined: "fst (vt_setnx vt p b s) \<noteq> Crash"
    and beginPut_session: "bp_status (fst (vt_beginPut svt p n s)) = PutOk \<Longrightarrow>
      bp_session (fst (vt_beginPut svt p n s)) \<noteq> None"
    and beginGet_session: "bg_found (vt_beginGet svt p s) \<Longrightarrow> bg_session (vt_beginGet svt p s) \<noteq> None"

end
