(* ===== verification/Resp_Reply.thy ===== *)
theory Resp_Reply
  imports Storage_Interface
begin

text \<open>
  \<open>Core/Protocol/Resp/RespReply.h\<close>: the replies of the RESP protocol as byte strings.
\<close>

definition respreply_ok :: bytes where
  "respreply_ok = ''+OK'' @ crlf"

definition respreply_pong :: bytes where
  "respreply_pong = ''+PONG'' @ crlf"

definition respreply_simpleString :: "bytes \<Rightarrow> bytes" where
  "respreply_simpleString value = ''+'' @ value @ crlf"

definition respreply_error :: "bytes \<Rightarrow> bytes" where
  "respreply_error message = ''-ERR '' @ message @ crlf"

definition respreply_integer :: "int \<Rightarrow> bytes" where
  "respreply_integer value = '':'' @ to_string_int value @ crlf"

definition respreply_bulkString :: "bytes \<Rightarrow> bytes" where
  "respreply_bulkString value = ''$'' @ to_string (length value) @ crlf @ value @ crlf"

definition respreply_nil :: bytes where
  "respreply_nil = ''$-1'' @ crlf"

definition respreply_arrayHeader :: "nat \<Rightarrow> bytes" where
  "respreply_arrayHeader count = ''*'' @ to_string count @ crlf"

text \<open>The \<open>switch\<close> has no case for \<open>FailedToWrite\<close>, which falls through to the last return.\<close>

fun respreply_putResultToReply :: "put_result \<Rightarrow> bytes" where
  "respreply_putResultToReply PutOk = respreply_ok"
| "respreply_putResultToReply PutCapacityExceeded = respreply_error ''capacity exceeded''"
| "respreply_putResultToReply PutInvalidPath = respreply_error ''invalid path''"
| "respreply_putResultToReply PutFailedToWrite = respreply_error ''unknown error''"

fun respreply_setNxResultToReply :: "setnx_result \<Rightarrow> bytes" where
  "respreply_setNxResultToReply NxInserted = respreply_integer 1"
| "respreply_setNxResultToReply NxAlreadyExists = respreply_integer 0"
| "respreply_setNxResultToReply NxCapacityExceeded = respreply_error ''capacity exceeded''"
| "respreply_setNxResultToReply NxInvalidPath = respreply_error ''invalid path''"

lemmas respreply_defs [obsto_defs] =
  respreply_ok_def respreply_pong_def respreply_simpleString_def respreply_error_def
  respreply_integer_def respreply_bulkString_def respreply_nil_def respreply_arrayHeader_def

lemma respreply_not_Nil [simp]:
  "respreply_ok \<noteq> []" "respreply_pong \<noteq> []" "respreply_simpleString v \<noteq> []"
  "respreply_error v \<noteq> []" "respreply_integer i \<noteq> []" "respreply_bulkString v \<noteq> []"
  "respreply_nil \<noteq> []" "respreply_arrayHeader n \<noteq> []"
  by (simp_all add: respreply_defs)

lemma respreply_result_not_Nil [simp]:
  "respreply_putResultToReply r \<noteq> []" "respreply_setNxResultToReply n \<noteq> []"
  by (cases r; simp) (cases n; simp)

text \<open>
  A client's command: the array of bulk strings that RESP clients send, written with the functions
  above.
\<close>

definition resp_command :: "bytes list \<Rightarrow> bytes" where
  "resp_command args = respreply_arrayHeader (length args) @ concat (map respreply_bulkString args)"

end
