(* ===== verification/Resp_Parser.thy ===== *)
theory Resp_Parser
  imports Resp_Reply
begin

text \<open>
  \<open>Core/Protocol/Resp/RespParser.cpp\<close>: the incremental parser of the RESP protocol. The position
  \<open>pos\<close>, which the code passes by reference, is an argument and part of the result. A failed
  \<open>std::stoi\<close> is caught inside the parser, so no function here throws.
\<close>

datatype resp_result = RespComplete | RespIncomplete | RespError

record bulk_string =
  bs_length :: int
  bs_data :: bytes

record simple_string =
  ss_data :: bytes

record resp_error =
  er_message :: bytes

record resp_integer =
  in_value :: int

record resp_array =
  ar_count :: int
  ar_elements :: "bytes list"

definition kMaxArrayElements :: int where
  "kMaxArrayElements = 100000"

definition parseBulkString :: "bytes \<Rightarrow> nat \<Rightarrow> bulk_string option \<times> nat" where
  "parseBulkString buffer pos =
     (if length buffer \<le> pos \<or> buffer ! pos \<noteq> CHR ''$'' then (None, pos)
      else
        (case str_find buffer crlf pos of
           None \<Rightarrow> (None, pos)
         | Some e \<Rightarrow>
             (case stoi (substr buffer (pos + 1) (e - pos - 1)) of
                None \<Rightarrow> (None, pos)
              | Some len \<Rightarrow>
                  if len = -1 then (Some \<lparr>bs_length = -1, bs_data = []\<rparr>, e + 2)
                  else if len < -1 then (None, pos)
                  else
                    let dataStart = e + 2; dataLength = nat len
                    in if length buffer < dataStart + dataLength + 2 then (None, pos)
                       else (Some \<lparr>bs_length = len, bs_data = substr buffer dataStart dataLength\<rparr>,
                             dataStart + dataLength + 2))))"

definition parseSimpleString :: "bytes \<Rightarrow> nat \<Rightarrow> simple_string option \<times> nat" where
  "parseSimpleString buffer pos =
     (if length buffer \<le> pos \<or> buffer ! pos \<noteq> CHR ''+'' then (None, pos)
      else
        (case str_find buffer crlf pos of
           None \<Rightarrow> (None, pos)
         | Some e \<Rightarrow> (Some \<lparr>ss_data = substr buffer (pos + 1) (e - pos - 1)\<rparr>, e + 2)))"

definition parseError :: "bytes \<Rightarrow> nat \<Rightarrow> resp_error option \<times> nat" where
  "parseError buffer pos =
     (if length buffer \<le> pos \<or> buffer ! pos \<noteq> CHR ''-'' then (None, pos)
      else
        (case str_find buffer crlf pos of
           None \<Rightarrow> (None, pos)
         | Some e \<Rightarrow> (Some \<lparr>er_message = substr buffer (pos + 1) (e - pos - 1)\<rparr>, e + 2)))"

text \<open>The position moves before the number is read, also when reading it fails.\<close>

definition parseInt :: "bytes \<Rightarrow> nat \<Rightarrow> resp_integer option \<times> nat" where
  "parseInt buffer pos =
     (if length buffer \<le> pos \<or> buffer ! pos \<noteq> CHR '':'' then (None, pos)
      else
        (case str_find buffer crlf pos of
           None \<Rightarrow> (None, pos)
         | Some e \<Rightarrow>
             (case stoi (substr buffer (pos + 1) (e - pos - 1)) of
                None \<Rightarrow> (None, e + 2)
              | Some v \<Rightarrow> (Some \<lparr>in_value = v\<rparr>, e + 2))))"

text \<open>The loop over the elements of an array, \<open>count\<close> of which are still to be read.\<close>

fun parseElements :: "nat \<Rightarrow> bytes \<Rightarrow> nat \<Rightarrow> bytes list \<Rightarrow> resp_result \<times> nat \<times> bytes list" where
  "parseElements 0 buffer pos elements = (RespComplete, pos, elements)"
| "parseElements (Suc count) buffer pos elements =
     (if length buffer \<le> pos then (RespIncomplete, pos, elements)
      else if buffer ! pos = CHR ''$'' then
        (case parseBulkString buffer pos of
           (None, pos') \<Rightarrow> (RespIncomplete, pos', elements)
         | (Some bulk, pos') \<Rightarrow> parseElements count buffer pos' (elements @ [bs_data bulk]))
      else if buffer ! pos = CHR ''+'' then
        (case parseSimpleString buffer pos of
           (None, pos') \<Rightarrow> (RespIncomplete, pos', elements)
         | (Some simple, pos') \<Rightarrow> parseElements count buffer pos' (elements @ [ss_data simple]))
      else if buffer ! pos = CHR '':'' then
        (case parseInt buffer pos of
           (None, pos') \<Rightarrow> (RespIncomplete, pos', elements)
         | (Some i, pos') \<Rightarrow>
             parseElements count buffer pos' (elements @ [to_string_int (in_value i)]))
      else (RespError, pos, elements))"

text \<open>\<open>parseArray\<close>: on any result but \<open>Complete\<close> the position is the one it was called with.\<close>

definition parseArray :: "bytes \<Rightarrow> nat \<Rightarrow> resp_result \<times> nat \<times> resp_array option" where
  "parseArray buffer pos =
     (if length buffer \<le> pos \<or> buffer ! pos \<noteq> CHR ''*'' then (RespError, pos, None)
      else
        (case str_find buffer crlf pos of
           None \<Rightarrow> (RespIncomplete, pos, None)
         | Some e \<Rightarrow>
             (case stoi (substr buffer (pos + 1) (e - pos - 1)) of
                None \<Rightarrow> (RespError, pos, None)
              | Some count \<Rightarrow>
                  if count < 0 \<or> kMaxArrayElements < count then (RespError, pos, None)
                  else
                    (case parseElements (nat count) buffer (e + 2) [] of
                       (RespComplete, pos', elements) \<Rightarrow>
                         (RespComplete, pos', Some \<lparr>ar_count = count, ar_elements = elements\<rparr>)
                     | (r, pos', elements) \<Rightarrow> (r, pos, None)))))"

text \<open>
  \<open>parse\<close>: the result, the strings it appends to \<open>commands\<close> and the bytes consumed (0 unless the
  result is \<open>Complete\<close>).
\<close>

definition RespParser_parse :: "bytes \<Rightarrow> resp_result \<times> bytes list \<times> nat" where
  "RespParser_parse buffer =
     (if buffer = [] then (RespIncomplete, [], 0)
      else
        let type = buffer ! 0
        in if type = CHR ''*'' then
            (case parseArray buffer 0 of
               (RespComplete, pos, Some array) \<Rightarrow> (RespComplete, ar_elements array, pos)
             | (r, pos, _) \<Rightarrow> (r, [], 0))
          else if type = CHR ''$'' then
            (case parseBulkString buffer 0 of
               (None, _) \<Rightarrow> (RespIncomplete, [], 0)
             | (Some bulk, pos) \<Rightarrow> (RespComplete, [bs_data bulk], pos))
          else if type = CHR ''+'' then
            (case parseSimpleString buffer 0 of
               (None, _) \<Rightarrow> (RespIncomplete, [], 0)
             | (Some simple, pos) \<Rightarrow> (RespComplete, [ss_data simple], pos))
          else if type = CHR ''-'' then
            (case parseError buffer 0 of
               (None, _) \<Rightarrow> (RespIncomplete, [], 0)
             | (Some error, pos) \<Rightarrow> (RespComplete, [''ERROR:'' @ er_message error], pos))
          else if type = CHR '':'' then
            (case parseInt buffer 0 of
               (None, _) \<Rightarrow> (RespIncomplete, [], 0)
             | (Some i, pos) \<Rightarrow> (RespComplete, [''INT:'' @ to_string_int (in_value i)], pos))
          else
            (case str_find buffer crlf 0 of
               None \<Rightarrow> (RespIncomplete, [], 0)
             | Some e \<Rightarrow> (RespComplete, [substr buffer 0 e], e + 2)))"

section \<open>Progress and bounds\<close>

lemma str_find_pos:
  assumes "str_find buffer crlf pos = Some e" "pos < length buffer" "buffer ! pos \<noteq> CR"
  shows "pos < e"
proof (rule ccontr)
  assume "\<not> pos < e"
  with str_find_bound [OF assms(1)] have "e = pos" by simp
  with assms(1) obtain pre post where "drop pos buffer = pre @ crlf @ post" "length pre = 0"
    by (auto simp: str_find_def split: if_splits dest!: find_sub_Some)
  then have "hd (drop pos buffer) = CR" by (simp add: crlf_def)
  with assms(2,3) show False by (simp add: hd_drop_conv_nth)
qed

lemma parseBulkString_bounds:
  "parseBulkString buffer pos = (Some b, pos') \<Longrightarrow> pos < pos' \<and> pos' \<le> length buffer"
  using str_find_crlf_bound [of buffer pos]
  by (fastforce simp: parseBulkString_def Let_def split: if_splits option.splits)

lemma parseSimpleString_bounds:
  "parseSimpleString buffer pos = (Some b, pos') \<Longrightarrow> pos < pos' \<and> pos' \<le> length buffer"
  using str_find_crlf_bound [of buffer pos]
  by (fastforce simp: parseSimpleString_def split: if_splits option.splits)

lemma parseError_bounds:
  "parseError buffer pos = (Some b, pos') \<Longrightarrow> pos < pos' \<and> pos' \<le> length buffer"
  using str_find_crlf_bound [of buffer pos]
  by (fastforce simp: parseError_def split: if_splits option.splits)

lemma parseInt_bounds:
  "parseInt buffer pos = (Some b, pos') \<Longrightarrow> pos < pos' \<and> pos' \<le> length buffer"
  using str_find_crlf_bound [of buffer pos]
  by (fastforce simp: parseInt_def split: if_splits option.splits)

lemmas parse_item_bounds =
  parseBulkString_bounds parseSimpleString_bounds parseError_bounds parseInt_bounds

lemma parseElements_bounds:
  "parseElements count buffer pos es = (RespComplete, pos', es') \<Longrightarrow> pos \<le> length buffer \<Longrightarrow>
    pos \<le> pos' \<and> pos' \<le> length buffer \<and> length es' = length es + count"
proof (induction count buffer pos es rule: parseElements.induct)
  case (1 buffer pos es)
  then show ?case by simp
next
  case (2 count buffer pos es)
  then show ?case
    by (fastforce split: if_splits prod.splits option.splits dest: parse_item_bounds)
qed

lemma parseArray_some: "parseArray buffer pos \<noteq> (RespComplete, pos', None)"
  by (auto simp: parseArray_def split: option.splits prod.splits resp_result.splits)

lemma parseArray_bounds:
  "parseArray buffer pos = (RespComplete, pos', Some a) \<Longrightarrow>
    pos < pos' \<and> pos' \<le> length buffer \<and> int (length (ar_elements a)) = ar_count a"
  using str_find_crlf_bound [of buffer pos]
  by (fastforce simp: parseArray_def split: if_splits option.splits prod.splits resp_result.splits
      dest: parseElements_bounds)

text \<open>
  What parses in a buffer parses the same way when more bytes have arrived behind it. The first
  lemma is the common step of the item parsers: the line that starts at \<open>pos\<close>.
\<close>

lemma line_append:
  assumes "str_find buffer crlf pos = Some e" "pos < length buffer"
  shows "str_find (buffer @ ext) crlf pos = Some e \<and>
    substr (buffer @ ext) (pos + 1) (e - pos - 1) = substr buffer (pos + 1) (e - pos - 1) \<and>
    (buffer @ ext) ! pos = buffer ! pos"
proof -
  have "pos \<le> e \<and> e + 2 \<le> length buffer" by (rule str_find_crlf_bound [OF assms(1)])
  with assms show ?thesis
    by (auto simp: nth_append intro!: str_find_append substr_append)
qed

lemma parseBulkString_append:
  "parseBulkString buffer pos = (Some b, pos') \<Longrightarrow>
    parseBulkString (buffer @ ext) pos = (Some b, pos')"
  using line_append [of buffer pos _ ext]
  by (fastforce simp: parseBulkString_def Let_def substr_append split: if_splits option.splits)

lemma parseSimpleString_append:
  "parseSimpleString buffer pos = (Some b, pos') \<Longrightarrow>
    parseSimpleString (buffer @ ext) pos = (Some b, pos')"
  using line_append [of buffer pos _ ext]
  by (fastforce simp: parseSimpleString_def split: if_splits option.splits)

lemma parseError_append:
  "parseError buffer pos = (Some b, pos') \<Longrightarrow> parseError (buffer @ ext) pos = (Some b, pos')"
  using line_append [of buffer pos _ ext]
  by (fastforce simp: parseError_def split: if_splits option.splits)

lemma parseInt_append:
  "parseInt buffer pos = (Some b, pos') \<Longrightarrow> parseInt (buffer @ ext) pos = (Some b, pos')"
  using line_append [of buffer pos _ ext]
  by (fastforce simp: parseInt_def split: if_splits option.splits)

lemmas parse_item_append =
  parseBulkString_append parseSimpleString_append parseError_append parseInt_append

lemma parseElements_append:
  "parseElements count buffer pos es = (r, pos', es') \<Longrightarrow> r \<noteq> RespIncomplete \<Longrightarrow>
    parseElements count (buffer @ ext) pos es = (r, pos', es')"
proof (induction count buffer pos es rule: parseElements.induct)
  case (1 buffer pos es)
  then show ?case by simp
next
  case (2 count buffer pos es)
  then have pos: "pos < length buffer" by (auto split: if_splits)
  then have nth: "(buffer @ ext) ! pos = buffer ! pos" by (simp add: nth_append)
  from pos nth 2 show ?case
    by (auto simp: parse_item_append split: if_splits prod.splits option.splits)
qed

lemma parseArray_append:
  "parseArray buffer pos = (r, pos', a) \<Longrightarrow> r \<noteq> RespIncomplete \<Longrightarrow> pos < length buffer \<Longrightarrow>
    parseArray (buffer @ ext) pos = (r, pos', a)"
  using line_append [of buffer pos _ ext]
  by (fastforce simp: parseArray_def nth_append parseElements_append
      split: if_splits option.splits prod.splits resp_result.splits)

lemma RespParser_parse_append:
  assumes "RespParser_parse buffer = (r, cmds, n)" "r \<noteq> RespIncomplete"
  shows "RespParser_parse (buffer @ ext) = (r, cmds, n)"
proof -
  have ne: "buffer \<noteq> []" using assms by (auto simp: RespParser_parse_def)
  then have nth: "(buffer @ ext) ! 0 = buffer ! 0" and pos: "0 < length buffer"
    by (simp_all add: nth_append)
  show ?thesis
    using assms ne pos str_find_append [of buffer crlf 0 _ ext] str_find_crlf_bound [of buffer 0]
    unfolding RespParser_parse_def nth Let_def
    by (auto simp: parse_item_append parseArray_append substr_append simp del: str_find_0
        split: if_splits option.splits prod.splits resp_result.splits)
qed

section \<open>Reading back what was written\<close>

text \<open>An item at the position where it was written, in front of anything.\<close>

lemma line_at:
  assumes "CR \<notin> set mid" "buffer = pre @ t # mid @ crlf @ post" "pos = length pre" "t \<noteq> CR"
  shows "pos < length buffer \<and> buffer ! pos = t \<and>
    str_find buffer crlf pos = Some (pos + 1 + length mid) \<and>
    substr buffer (pos + 1) (pos + 1 + length mid - pos - 1) = mid"
proof -
  have "str_find (pre @ (t # mid) @ crlf @ post) crlf pos = Some (pos + length (t # mid))"
    by (rule str_find_crlf) (use assms in auto)
  moreover have "substr ((pre @ [t]) @ mid @ (crlf @ post)) (pos + 1) (length mid) = mid"
    by (rule substr_mid) (simp_all add: assms(3))
  ultimately show ?thesis by (simp add: assms(2,3))
qed

lemma parseBulkString_written:
  assumes "length v < 2 ^ 31" "buffer = pre @ respreply_bulkString v @ post" "pos = length pre"
  shows "parseBulkString buffer pos =
    (Some \<lparr>bs_length = int (length v), bs_data = v\<rparr>, pos + length (respreply_bulkString v))"
proof -
  let ?n = "to_string (length v)"
  have b: "buffer = pre @ CHR ''$'' # ?n @ crlf @ (v @ crlf @ post)"
    using assms(2) by (simp add: respreply_bulkString_def)
  have line: "pos < length buffer \<and> buffer ! pos = CHR ''$'' \<and>
      str_find buffer crlf pos = Some (pos + 1 + length ?n) \<and>
      substr buffer (pos + 1) (pos + 1 + length ?n - pos - 1) = ?n"
    by (rule line_at [OF CR_notin_to_string b assms(3)]) (simp add: CR_def)
  have "substr ((pre @ CHR ''$'' # ?n @ crlf) @ v @ (crlf @ post)) (pos + 1 + length ?n + 2) (length v) = v"
    by (rule substr_mid) (simp_all add: assms(3))
  then have data: "substr buffer (pos + 1 + length ?n + 2) (length v) = v" by (simp add: b)
  have "length buffer = pos + 1 + length ?n + 2 + length v + 2 + length post"
    by (simp add: b assms(3))
  with line data show ?thesis
    using stoi_to_string [OF assms(1)]
    by (simp add: parseBulkString_def Let_def respreply_bulkString_def add.assoc)
qed

lemma parseElements_written:
  assumes "\<forall>v \<in> set vs. length v < 2 ^ 31"
    and "buffer = pre @ concat (map respreply_bulkString vs) @ post" "pos = length pre"
  shows "parseElements (length vs) buffer pos es =
    (RespComplete, pos + length (concat (map respreply_bulkString vs)), es @ vs)"
  using assms
proof (induction vs arbitrary: pre pos es)
  case Nil
  then show ?case by simp
next
  case (Cons v vs)
  let ?rest = "concat (map respreply_bulkString vs)"
  have b: "buffer = pre @ respreply_bulkString v @ (?rest @ post)"
    using Cons.prems(2) by simp
  then have dollar: "pos < length buffer \<and> buffer ! pos = CHR ''$''"
    using Cons.prems(3) by (simp add: respreply_bulkString_def nth_append)
  have item: "parseBulkString buffer pos =
      (Some \<lparr>bs_length = int (length v), bs_data = v\<rparr>, pos + length (respreply_bulkString v))"
    using parseBulkString_written [OF _ b Cons.prems(3)] Cons.prems(1) by simp
  have "parseElements (length vs) buffer (pos + length (respreply_bulkString v)) (es @ [v]) =
      (RespComplete, pos + length (respreply_bulkString v) + length ?rest, (es @ [v]) @ vs)"
    by (rule Cons.IH [of "pre @ respreply_bulkString v"]) (use Cons.prems b in auto)
  with dollar item show ?case by (simp add: add.assoc)
qed

lemma RespParser_parse_written:
  assumes "length args \<le> 100000" "\<forall>v \<in> set args. length v < 2 ^ 31"
    and b: "buffer = resp_command args @ post"
  shows "RespParser_parse buffer = (RespComplete, args, length (resp_command args))"
proof -
  let ?n = "to_string (length args)" and ?items = "concat (map respreply_bulkString args)"
  have b': "buffer = [] @ CHR ''*'' # ?n @ crlf @ (?items @ post)"
    by (simp add: b resp_command_def respreply_arrayHeader_def)
  have line: "0 < length buffer \<and> buffer ! 0 = CHR ''*'' \<and>
      str_find buffer crlf 0 = Some (0 + 1 + length ?n) \<and>
      substr buffer (0 + 1) (0 + 1 + length ?n - 0 - 1) = ?n"
    by (rule line_at [OF CR_notin_to_string b']) (simp_all add: CR_def)
  have items: "parseElements (length args) buffer (1 + length ?n + 2) [] =
      (RespComplete, 1 + length ?n + 2 + length ?items, [] @ args)"
    by (rule parseElements_written [where pre = "CHR ''*'' # ?n @ crlf"])
      (use assms(2) b' in simp_all)
  have "parseArray buffer 0 = (RespComplete, 1 + length ?n + 2 + length ?items,
      Some \<lparr>ar_count = int (length args), ar_elements = args\<rparr>)"
    using line items stoi_to_string [of "length args"] assms(1)
    by (auto simp: parseArray_def kMaxArrayElements_def simp del: str_find_0)
  moreover have "length (resp_command args) = 1 + length ?n + 2 + length ?items"
    by (simp add: resp_command_def respreply_arrayHeader_def)
  ultimately show ?thesis using line by (auto simp: RespParser_parse_def Let_def)
qed

lemma RespParser_parse_bounds:
  "RespParser_parse buffer = (RespComplete, cmds, n) \<Longrightarrow> 0 < n \<and> n \<le> length buffer"
  using str_find_crlf_bound [of buffer 0]
  by (auto simp: RespParser_parse_def Let_def parseArray_some simp del: str_find_0
      split: if_splits option.splits prod.splits resp_result.splits
      dest: parse_item_bounds parseArray_bounds)

lemma RespParser_parse_prefix:
  assumes "length args \<le> 100000" "\<forall>v \<in> set args. length v < 2 ^ 31"
    and "resp_command args = buffer @ ext" "ext \<noteq> []"
  shows "fst (RespParser_parse buffer) = RespIncomplete"
proof (rule ccontr)
  assume no: "fst (RespParser_parse buffer) \<noteq> RespIncomplete"
  obtain r cmds n where p: "RespParser_parse buffer = (r, cmds, n)" by (rule prod_cases3)
  with no have "RespParser_parse (buffer @ ext) = (r, cmds, n)"
    by (intro RespParser_parse_append) simp_all
  moreover have "RespParser_parse (buffer @ ext) = (RespComplete, args, length (buffer @ ext))"
    using RespParser_parse_written [OF assms(1,2), of "buffer @ ext" "[]"] assms(3) by simp
  ultimately have "RespParser_parse buffer = (RespComplete, args, length (buffer @ ext))"
    using p by simp
  from RespParser_parse_bounds [OF this] assms(4) show False by simp
qed

section \<open>Properties\<close>

text \<open>C23.
  Round trip: a command encoded as a RESP array of bulk strings (at most 100000 of them, each
  shorter than \<open>2 ^ 31\<close>) is parsed to exactly its arguments, byte for byte and whatever bytes they
  hold, and exactly its encoding is consumed, also when other bytes follow it.\<close>

theorem RespParser_roundtrip:
  assumes "length args \<le> 100000" "\<forall>v \<in> set args. length v < 2 ^ 31"
  shows "RespParser_parse (resp_command args @ post) =
    (RespComplete, args, length (resp_command args))"
  by (rule RespParser_parse_written [OF assms refl])

theorem RespParser_roundtrip_witness:
  "RespParser_parse (resp_command [''SET'', ''k'', [CR, LF]] @ ''*1'') =
   (RespComplete, [''SET'', ''k'', [CR, LF]], length (resp_command [''SET'', ''k'', [CR, LF]]))"
  using RespParser_roundtrip [of "[''SET'', ''k'', [CR, LF]]" "''*1''"] by simp

text \<open>C25.
  The parser is incremental: a buffer that parses to a command, or is rejected, does so in the same
  way with any bytes behind it, and a command consumes at least one byte and at most the buffer.\<close>

theorem RespParser_incremental:
  assumes "RespParser_parse buffer = (r, cmds, n)" "r \<noteq> RespIncomplete"
  shows "RespParser_parse (buffer @ ext) = (r, cmds, n) \<and>
    (r = RespComplete \<longrightarrow> 0 < n \<and> n \<le> length buffer)"
  using RespParser_parse_append [OF assms] RespParser_parse_bounds assms(1) by blast

theorem RespParser_incremental_witness:
  "RespParser_parse (''+OK'' @ crlf @ ''x'') = (RespComplete, [''OK''], 5)"
proof -
  have "RespParser_parse (''+OK'' @ crlf) = (RespComplete, [''OK''], 5)"
    by (simp add: RespParser_parse_def parseSimpleString_def str_find_def substr_def crlf_def
        CR_def LF_def)
  from RespParser_incremental [OF this, of "''x''"] show ?thesis by simp
qed

text \<open>C29.
  A command whose bytes have not all arrived is never misread: every proper prefix of the encoding
  of a command is reported incomplete.\<close>

theorem RespParser_prefix_incomplete:
  assumes "length args \<le> 100000" "\<forall>v \<in> set args. length v < 2 ^ 31"
    and "resp_command args = buffer @ ext" "ext \<noteq> []"
  shows "fst (RespParser_parse buffer) = RespIncomplete"
  by (rule RespParser_parse_prefix [OF assms])

theorem RespParser_prefix_incomplete_witness:
  "fst (RespParser_parse (butlast (resp_command [''GET'', ''key'']))) = RespIncomplete"
proof -
  let ?c = "resp_command [''GET'', ''key'']"
  have "?c \<noteq> []" by (simp add: resp_command_def)
  then have "?c = butlast ?c @ [last ?c]" by simp
  from RespParser_prefix_incomplete [OF _ _ this] show ?thesis by simp
qed

text \<open>
  A malformed length is never rejected: an array whose first bulk string announces a length that is
  no number, or one below -1, is reported incomplete, whatever bytes follow, so that the connection
  waits for more input.\<close>

theorem RespParser_bad_length_waits:
  assumes "CR \<notin> set len" "case stoi len of None \<Rightarrow> True | Some i \<Rightarrow> i < - 1"
  shows "fst (RespParser_parse (''*1'' @ crlf @ ''$'' @ len @ crlf @ ext)) = RespIncomplete"
proof -
  let ?b = "''*1'' @ crlf @ ''$'' @ len @ crlf @ ext"
  have "?b = [] @ CHR ''*'' # ''1'' @ crlf @ (''$'' @ len @ crlf @ ext)" by simp
  from line_at [OF _ this, of 0] have line: "?b \<noteq> []" "?b ! 0 = CHR ''*''"
    "str_find ?b crlf 0 = Some 2" "substr ?b 1 1 = ''1''" by (simp_all add: CR_def)
  have "?b = (''*1'' @ crlf) @ CHR ''$'' # len @ crlf @ ext" by simp
  from line_at [OF assms(1) this, of 4]
  have item: "4 < length ?b" "?b ! 4 = CHR ''$''" "str_find ?b crlf 4 = Some (5 + length len)"
    "substr ?b 5 (length len) = len" by (simp_all add: CR_def)
  have "stoi ''1'' = Some 1"
    by (simp add: scan_eval)
  moreover have "parseBulkString ?b 4 = (None, 4)"
    using item assms(2) by (auto simp: parseBulkString_def split: option.split)
  ultimately have "parseArray ?b 0 = (RespIncomplete, 0, None)"
    using line item
    by (auto simp: parseArray_def kMaxArrayElements_def numeral_2_eq_2 eval_nat_numeral
        simp del: str_find_0)
  with line show ?thesis by (simp add: RespParser_parse_def)
qed

theorem RespParser_bad_length_waits_witness:
  "fst (RespParser_parse (''*1'' @ crlf @ ''$'' @ ''abc'' @ crlf @ ''PING'' @ crlf)) = RespIncomplete"
  by (rule RespParser_bad_length_waits)
    (simp_all add: CR_def scan_eval)

end
