(* ===== verification/Resp_Handler.thy ===== *)
theory Resp_Handler
  imports Resp_Parser
begin

text \<open>
  \<open>Core/Protocol/Resp/RespProtocolHandler.cpp\<close> and \<open>Core/Utils/Utils.h\<close>: the RESP side of a
  connection. The handler buffers what arrives, runs one command per call, and streams large values
  of \<open>SET\<close> and \<open>SETNX\<close> into a write session and values of \<open>GET\<close> out of a read session. The storage
  is a method table \<open>ovt\<close> with an optional streaming table (the result of the \<open>dynamic_cast\<close> in the
  constructor) and a state \<open>s\<close> that every call passes on.

  The byte counters of the handler are natural numbers: each is decreased by at most its value, and
  the largest, \<open>expectedSize + 2\<close> with a positive \<open>long\<close>, is below \<open>2 ^ 64\<close>.
\<close>

definition utils_toUpper :: "string \<Rightarrow> string" where
  "utils_toUpper value = map upper_char value"

datatype resp_state = ParsingCommands | StreamingValue | DiscardingRejectedValue

record ('w, 'r) resp_handler =
  rh_incomingBuffer :: bytes
  rh_outgoingBuffer :: bytes
  rh_streamingRead :: bool
  rh_activeReadSession :: "'r option"
  rh_state :: resp_state
  rh_activeSession :: "'w option"
  rh_valueBytesRemaining :: nat
  rh_trailingCrlfRemaining :: nat
  rh_discardBytesRemaining :: nat
  rh_isSetNx :: bool
  rh_pendingKey :: string

definition RespProtocolHandler_new :: "('w, 'r) resp_handler" where
  "RespProtocolHandler_new =
     \<lparr>rh_incomingBuffer = [], rh_outgoingBuffer = [], rh_streamingRead = False,
      rh_activeReadSession = None, rh_state = ParsingCommands, rh_activeSession = None,
      rh_valueBytesRemaining = 0, rh_trailingCrlfRemaining = 0, rh_discardBytesRemaining = 0,
      rh_isSetNx = False, rh_pendingKey = []\<rparr>"

text \<open>\<open>registerCommands\<close>: the map from command names to member functions.\<close>

datatype resp_fn = FnPing | FnGet | FnSet | FnDel | FnKeys | FnSetNx

definition resp_commands :: "string \<Rightarrow> resp_fn option" where
  "resp_commands = map_of
     [(''PING'', FnPing), (''GET'', FnGet), (''SET'', FnSet), (''DEL'', FnDel), (''KEYS'', FnKeys),
      (''SETNX'', FnSetNx)]"

definition resp_hasMoreToSend :: "('w, 'r) resp_handler \<Rightarrow> bool" where
  "resp_hasMoreToSend h = rh_streamingRead h"

definition resp_queueResponse :: "bytes \<Rightarrow> ('w, 'r) resp_handler \<Rightarrow> ('w, 'r) resp_handler" where
  "resp_queueResponse response h = h\<lparr>rh_outgoingBuffer := rh_outgoingBuffer h @ response\<rparr>"

section \<open>Commands\<close>

definition resp_handlePing :: "bytes list \<Rightarrow> bytes" where
  "resp_handlePing args =
     (case args of [] \<Rightarrow> respreply_pong | a # _ \<Rightarrow> respreply_simpleString a)"

definition resp_handleGet ::
    "'s object_vt \<Rightarrow> ('s, 'w, 'r) streaming_vt option \<Rightarrow> bytes list \<Rightarrow> ('w, 'r) resp_handler \<Rightarrow> 's
      \<Rightarrow> bytes \<times> ('w, 'r) resp_handler" where
  "resp_handleGet ovt svt args h s =
     (if length args \<noteq> 1
      then (respreply_error ''wrong number of arguments for 'get' command'', h)
      else
        (case svt of
           Some t \<Rightarrow>
             let result = vt_beginGet t (args ! 0) s
             in if bg_found result
                then ([], (resp_queueResponse (''$'' @ to_string (unat (bg_size result)) @ crlf) h)
                            \<lparr>rh_activeReadSession := bg_session result, rh_streamingRead := True\<rparr>)
                else (respreply_nil, h)
         | None \<Rightarrow>
             (case vt_get ovt (args ! 0) s of
                None \<Rightarrow> (respreply_nil, h)
              | Some value \<Rightarrow> (respreply_bulkString value, h))))"

definition resp_handleSet :: "'s object_vt \<Rightarrow> bytes list \<Rightarrow> 's \<Rightarrow> bytes \<times> 's" where
  "resp_handleSet ovt args s =
     (if length args \<noteq> 2
      then (respreply_error ''wrong number of arguments for 'set' command'', s)
      else let (r, s') = vt_put ovt (args ! 0) (args ! 1) s
           in (respreply_putResultToReply r, s'))"

definition resp_handleDel :: "'s object_vt \<Rightarrow> bytes list \<Rightarrow> 's \<Rightarrow> bytes \<times> 's" where
  "resp_handleDel ovt args s =
     (if length args \<noteq> 1
      then (respreply_error ''wrong number of arguments for 'del' command'', s)
      else let (deleted, s') = vt_del ovt (args ! 0) s
           in (respreply_integer (if deleted then 1 else 0), s'))"

text \<open>The arguments of \<open>KEYS\<close>, a pattern among them, are ignored.\<close>

definition resp_handleKeys :: "'s object_vt \<Rightarrow> 's \<Rightarrow> bytes outcome" where
  "resp_handleKeys ovt s =
     (case vt_keys ovt s of
        Ret keys \<Rightarrow>
          Ret (respreply_arrayHeader (length keys) @ concat (map respreply_bulkString keys))
      | Throw \<Rightarrow> Throw
      | Crash \<Rightarrow> Crash)"

definition resp_handleSetNx :: "'s object_vt \<Rightarrow> bytes list \<Rightarrow> 's \<Rightarrow> bytes outcome \<times> 's" where
  "resp_handleSetNx ovt args s =
     (if length args \<noteq> 2
      then (Ret (respreply_error ''wrong number of arguments for 'setnx' command''), s)
      else (case vt_setnx ovt (args ! 0) (args ! 1) s of
              (Ret r, s') \<Rightarrow> (Ret (respreply_setNxResultToReply r), s')
            | (Throw, s') \<Rightarrow> (Throw, s')
            | (Crash, s') \<Rightarrow> (Crash, s')))"

definition resp_handleCommand ::
    "'s object_vt \<Rightarrow> ('s, 'w, 'r) streaming_vt option \<Rightarrow> bytes \<Rightarrow> bytes list
      \<Rightarrow> ('w, 'r) resp_handler \<Rightarrow> 's \<Rightarrow> bytes outcome \<times> ('w, 'r) resp_handler \<times> 's" where
  "resp_handleCommand ovt svt command args h s =
     (case resp_commands (utils_toUpper command) of
        None \<Rightarrow> (Ret (respreply_error (''unknown command '' @ [CHR 0x27] @ command @ [CHR 0x27])), h, s)
      | Some FnPing \<Rightarrow> (Ret (resp_handlePing args), h, s)
      | Some FnGet \<Rightarrow> (let (r, h') = resp_handleGet ovt svt args h s in (Ret r, h', s))
      | Some FnSet \<Rightarrow> (let (r, s') = resp_handleSet ovt args s in (Ret r, h, s'))
      | Some FnDel \<Rightarrow> (let (r, s') = resp_handleDel ovt args s in (Ret r, h, s'))
      | Some FnKeys \<Rightarrow> (resp_handleKeys ovt s, h, s)
      | Some FnSetNx \<Rightarrow> (let (r, s') = resp_handleSetNx ovt args s in (r, h, s')))"

definition resp_processCommands ::
    "'s object_vt \<Rightarrow> ('s, 'w, 'r) streaming_vt option \<Rightarrow> bytes list \<Rightarrow> ('w, 'r) resp_handler \<Rightarrow> 's
      \<Rightarrow> unit outcome \<times> ('w, 'r) resp_handler \<times> 's" where
  "resp_processCommands ovt svt commands h s =
     (case commands of
        [] \<Rightarrow> (Ret (), h, s)
      | command # args \<Rightarrow>
          (case resp_handleCommand ovt svt command args h s of
             (Ret response, h', s') \<Rightarrow>
               (Ret (), if response \<noteq> [] then resp_queueResponse response h' else h', s')
           | (Throw, h', s') \<Rightarrow> (Throw, h', s')
           | (Crash, h', s') \<Rightarrow> (Crash, h', s')))"

section \<open>Streaming a value in\<close>

text \<open>
  The functions from here to \<open>resp_onBytesReceived\<close> are mutually recursive in the code: what is left
  of the data after a value is handed to \<open>onBytesReceived\<close> again. Each takes that function as the
  argument \<open>rec\<close>; \<open>resp_onBytesReceived\<close> ties the knot.
\<close>

definition resp_finishStreamingValue ::
    "('s, 'w, 'r) streaming_vt option \<Rightarrow> ('w, 'r) resp_handler \<Rightarrow> 's
      \<Rightarrow> unit outcome \<times> ('w, 'r) resp_handler \<times> 's" where
  "resp_finishStreamingValue svt h s =
     (case (svt, rh_activeSession h) of
        (Some t, Some w) \<Rightarrow>
          let (result, w', s') = vt_finish t w s;
              reply = (if rh_isSetNx h
                       then if result = PutOk then respreply_integer 1
                            else respreply_putResultToReply result
                       else respreply_putResultToReply result)
          in (Ret (), resp_queueResponse reply (h\<lparr>rh_activeSession := None\<rparr>), s')
      | _ \<Rightarrow> (Crash, h, s))"

text \<open>The loop that drops the line end after the value.\<close>

fun resp_skipTrailing :: "nat \<Rightarrow> bytes \<Rightarrow> nat \<times> bytes" where
  "resp_skipTrailing 0 data = (0, data)"
| "resp_skipTrailing (Suc n) [] = (Suc n, [])"
| "resp_skipTrailing (Suc n) (c # data) = resp_skipTrailing n data"

text \<open>\<open>continueStreamingValue\<close> from the test after the first block on.\<close>

definition resp_endStreamingValue ::
    "('s, 'w, 'r) streaming_vt option
      \<Rightarrow> (bytes \<Rightarrow> ('w, 'r) resp_handler \<Rightarrow> 's \<Rightarrow> bool outcome \<times> ('w, 'r) resp_handler \<times> 's)
      \<Rightarrow> bytes \<Rightarrow> ('w, 'r) resp_handler \<Rightarrow> 's \<Rightarrow> bool outcome \<times> ('w, 'r) resp_handler \<times> 's" where
  "resp_endStreamingValue svt rec data h s =
     (if rh_valueBytesRemaining h > 0 then (Ret True, h, s)
      else
        let (trailing, data') = resp_skipTrailing (rh_trailingCrlfRemaining h) data;
            h' = h\<lparr>rh_trailingCrlfRemaining := trailing\<rparr>
        in if trailing > 0 then (Ret True, h', s)
           else
             (case resp_finishStreamingValue svt h' s of
                (Ret _, h2, s2) \<Rightarrow>
                  let h3 = h2\<lparr>rh_state := ParsingCommands\<rparr>
                  in if data' \<noteq> [] then rec data' h3 s2 else (Ret True, h3, s2)
              | (Throw, h2, s2) \<Rightarrow> (Throw, h2, s2)
              | (Crash, h2, s2) \<Rightarrow> (Crash, h2, s2)))"

definition resp_continueStreamingValue ::
    "('s, 'w, 'r) streaming_vt option
      \<Rightarrow> (bytes \<Rightarrow> ('w, 'r) resp_handler \<Rightarrow> 's \<Rightarrow> bool outcome \<times> ('w, 'r) resp_handler \<times> 's)
      \<Rightarrow> bytes \<Rightarrow> ('w, 'r) resp_handler \<Rightarrow> 's \<Rightarrow> bool outcome \<times> ('w, 'r) resp_handler \<times> 's" where
  "resp_continueStreamingValue svt rec data h s =
     (if rh_valueBytesRemaining h > 0 then
        (case (svt, rh_activeSession h) of
           (Some t, Some w) \<Rightarrow>
             let toConsume = min (length data) (rh_valueBytesRemaining h);
                 (ok, w', s') = vt_writeChunk t w (take toConsume data) s
             in if \<not> ok then
                  let (w'', s'') = vt_abort t w' s'
                  in (Ret False,
                      resp_queueResponse (respreply_error ''write failed'')
                        (h\<lparr>rh_activeSession := None, rh_state := ParsingCommands\<rparr>), s'')
                else
                  resp_endStreamingValue svt rec (drop toConsume data)
                    (h\<lparr>rh_activeSession := Some w',
                       rh_valueBytesRemaining := rh_valueBytesRemaining h - toConsume\<rparr>) s'
         | _ \<Rightarrow> (Crash, h, s))
      else resp_endStreamingValue svt rec data h s)"

definition resp_continueDiscardingValue ::
    "(bytes \<Rightarrow> ('w, 'r) resp_handler \<Rightarrow> 's \<Rightarrow> bool outcome \<times> ('w, 'r) resp_handler \<times> 's)
      \<Rightarrow> bytes \<Rightarrow> ('w, 'r) resp_handler \<Rightarrow> 's \<Rightarrow> bool outcome \<times> ('w, 'r) resp_handler \<times> 's" where
  "resp_continueDiscardingValue rec data h s =
     (let toDiscard = min (length data) (rh_discardBytesRemaining h);
          h' = h\<lparr>rh_discardBytesRemaining := rh_discardBytesRemaining h - toDiscard\<rparr>
      in if rh_discardBytesRemaining h' > 0 then (Ret True, h', s)
         else
           let h2 = h'\<lparr>rh_state := ParsingCommands\<rparr>; remainder = drop toDiscard data
           in if remainder \<noteq> [] then rec remainder h2 s else (Ret True, h2, s))"

text \<open>
  The first half of \<open>tryBeginStreamingSetValue\<close>: \<open>None\<close> where the code returns false, otherwise
  whether the command is \<open>SETNX\<close>, the key, the announced size and the bytes behind the header.
\<close>

record set_header =
  sh_isSetNx :: bool
  sh_key :: string
  sh_expectedSize :: nat
  sh_leftover :: bytes

definition resp_setHeader :: "bytes \<Rightarrow> set_header option" where
  "resp_setHeader buf =
     (if buf = [] \<or> buf ! 0 \<noteq> CHR ''*'' then None
      else
        (case str_find buf crlf 0 of
           None \<Rightarrow> None
         | Some e \<Rightarrow>
             if substr buf 0 e \<noteq> ''*3'' then None
             else
               (case parseBulkString buf (e + 2) of
                  (None, _) \<Rightarrow> None
                | (Some cmdBulk, pos) \<Rightarrow>
                    let cmdUpper = utils_toUpper (bs_data cmdBulk);
                        isSet = (cmdUpper = ''SET''); isSetNx = (cmdUpper = ''SETNX'')
                    in if \<not> isSet \<and> \<not> isSetNx then None
                       else
                         (case parseBulkString buf pos of
                            (None, _) \<Rightarrow> None
                          | (Some keyBulk, pos) \<Rightarrow>
                              if length buf \<le> pos \<or> buf ! pos \<noteq> CHR ''$'' then None
                              else
                                (case str_find buf crlf pos of
                                   None \<Rightarrow> None
                                 | Some valHeaderEnd \<Rightarrow>
                                     (case stol (substr buf (pos + 1) (valHeaderEnd - pos - 1)) of
                                        None \<Rightarrow> None
                                      | Some valueLength \<Rightarrow>
                                          if valueLength < 0 \<or> nat valueLength \<le> kStreamingThreshold
                                          then None
                                          else Some
                                            \<lparr>sh_isSetNx = isSetNx, sh_key = bs_data keyBulk,
                                             sh_expectedSize = nat valueLength,
                                             sh_leftover = drop (min (valHeaderEnd + 2) (length buf)) buf\<rparr>))))))"

text \<open>A rejected value: the reply is queued at once and the value's bytes will be skipped.\<close>

definition resp_rejectValue ::
    "(bytes \<Rightarrow> ('w, 'r) resp_handler \<Rightarrow> 's \<Rightarrow> bool outcome \<times> ('w, 'r) resp_handler \<times> 's)
      \<Rightarrow> bytes \<Rightarrow> set_header \<Rightarrow> ('w, 'r) resp_handler \<Rightarrow> 's
      \<Rightarrow> bool outcome \<times> ('w, 'r) resp_handler \<times> 's" where
  "resp_rejectValue rec reply hdr h s =
     (let h' = (resp_queueResponse reply h)
            \<lparr>rh_incomingBuffer := [], rh_discardBytesRemaining := sh_expectedSize hdr + 2,
             rh_state := DiscardingRejectedValue\<rparr>
      in if sh_leftover hdr \<noteq> [] then resp_continueDiscardingValue rec (sh_leftover hdr) h' s
         else (Ret True, h', s))"

definition resp_beginStreamingSetValue ::
    "('s, 'w, 'r) streaming_vt
      \<Rightarrow> (bytes \<Rightarrow> ('w, 'r) resp_handler \<Rightarrow> 's \<Rightarrow> bool outcome \<times> ('w, 'r) resp_handler \<times> 's)
      \<Rightarrow> set_header \<Rightarrow> ('w, 'r) resp_handler \<Rightarrow> 's
      \<Rightarrow> bool outcome \<times> ('w, 'r) resp_handler \<times> 's" where
  "resp_beginStreamingSetValue t rec hdr h s =
     (let (beginResult, s') = vt_beginPut t (sh_key hdr) (of_nat (sh_expectedSize hdr)) s
      in if bp_status beginResult \<noteq> PutOk
         then resp_rejectValue rec (respreply_putResultToReply (bp_status beginResult)) hdr h s'
         else
           let h' = h\<lparr>rh_activeSession := bp_session beginResult,
                      rh_valueBytesRemaining := sh_expectedSize hdr,
                      rh_trailingCrlfRemaining := 2, rh_isSetNx := sh_isSetNx hdr,
                      rh_pendingKey := sh_key hdr, rh_state := StreamingValue,
                      rh_incomingBuffer := []\<rparr>
           in if sh_leftover hdr \<noteq> []
              then resp_continueStreamingValue (Some t) rec (sh_leftover hdr) h' s'
              else (Ret True, h', s'))"

definition resp_tryBeginStreamingSetValue ::
    "'s object_vt \<Rightarrow> ('s, 'w, 'r) streaming_vt
      \<Rightarrow> (bytes \<Rightarrow> ('w, 'r) resp_handler \<Rightarrow> 's \<Rightarrow> bool outcome \<times> ('w, 'r) resp_handler \<times> 's)
      \<Rightarrow> ('w, 'r) resp_handler \<Rightarrow> 's \<Rightarrow> bool outcome \<times> ('w, 'r) resp_handler \<times> 's" where
  "resp_tryBeginStreamingSetValue ovt t rec h s =
     (case resp_setHeader (rh_incomingBuffer h) of
        None \<Rightarrow> (Ret False, h, s)
      | Some hdr \<Rightarrow>
          if sh_isSetNx hdr then
            (case vt_exists ovt (sh_key hdr) s of
               Ret True \<Rightarrow> resp_rejectValue rec (respreply_integer 0) hdr h s
             | Ret False \<Rightarrow> resp_beginStreamingSetValue t rec hdr h s
             | Throw \<Rightarrow> (Throw, h, s)
             | Crash \<Rightarrow> (Crash, h, s))
          else resp_beginStreamingSetValue t rec hdr h s)"

section \<open>Receiving and sending bytes\<close>

text \<open>The part of \<open>onBytesReceived\<close> that parses the buffer and runs one command.\<close>

definition resp_runBuffer ::
    "'s object_vt \<Rightarrow> ('s, 'w, 'r) streaming_vt option \<Rightarrow> ('w, 'r) resp_handler \<Rightarrow> 's
      \<Rightarrow> bool outcome \<times> ('w, 'r) resp_handler \<times> 's" where
  "resp_runBuffer ovt svt h s =
     (case RespParser_parse (rh_incomingBuffer h) of
        (RespComplete, commands, bytesConsumed) \<Rightarrow>
          (case resp_processCommands ovt svt commands h s of
             (Ret _, h', s') \<Rightarrow>
               (Ret True, h'\<lparr>rh_incomingBuffer := drop bytesConsumed (rh_incomingBuffer h')\<rparr>, s')
           | (Throw, h', s') \<Rightarrow> (Throw, h', s')
           | (Crash, h', s') \<Rightarrow> (Crash, h', s'))
      | (RespError, _, _) \<Rightarrow> (Ret False, h\<lparr>rh_incomingBuffer := []\<rparr>, s)
      | (RespIncomplete, _, _) \<Rightarrow> (Ret True, h, s))"

definition resp_receive ::
    "'s object_vt \<Rightarrow> ('s, 'w, 'r) streaming_vt option
      \<Rightarrow> (bytes \<Rightarrow> ('w, 'r) resp_handler \<Rightarrow> 's \<Rightarrow> bool outcome \<times> ('w, 'r) resp_handler \<times> 's)
      \<Rightarrow> bytes \<Rightarrow> ('w, 'r) resp_handler \<Rightarrow> 's \<Rightarrow> bool outcome \<times> ('w, 'r) resp_handler \<times> 's" where
  "resp_receive ovt svt rec data h s =
     (case rh_state h of
        StreamingValue \<Rightarrow> resp_continueStreamingValue svt rec data h s
      | DiscardingRejectedValue \<Rightarrow> resp_continueDiscardingValue rec data h s
      | ParsingCommands \<Rightarrow>
          let h1 = h\<lparr>rh_incomingBuffer := rh_incomingBuffer h @ data\<rparr>
          in (case svt of
                None \<Rightarrow> resp_runBuffer ovt svt h1 s
              | Some t \<Rightarrow>
                  (case resp_tryBeginStreamingSetValue ovt t rec h1 s of
                     (Ret True, h2, s2) \<Rightarrow> (Ret True, h2, s2)
                   | (Ret False, h2, s2) \<Rightarrow> resp_runBuffer ovt svt h2 s2
                   | (Throw, h2, s2) \<Rightarrow> (Throw, h2, s2)
                   | (Crash, h2, s2) \<Rightarrow> (Crash, h2, s2))))"

definition resp_pumpReadSession ::
    "('s, 'w, 'r) streaming_vt option \<Rightarrow> ('w, 'r) resp_handler \<Rightarrow> 's
      \<Rightarrow> unit outcome \<times> ('w, 'r) resp_handler" where
  "resp_pumpReadSession svt h s =
     (case (svt, rh_activeReadSession h) of
        (Some t, Some r) \<Rightarrow>
          (case vt_readChunk t r kReadChunkSize s of
             (Some chunk, r') \<Rightarrow>
               (Ret (), resp_queueResponse chunk (h\<lparr>rh_activeReadSession := Some r'\<rparr>))
           | (None, r') \<Rightarrow>
               (Ret (), (resp_queueResponse crlf h)
                          \<lparr>rh_activeReadSession := None, rh_streamingRead := False\<rparr>))
      | _ \<Rightarrow> (Crash, h))"

definition resp_takeOutgoingBytes ::
    "('s, 'w, 'r) streaming_vt option \<Rightarrow> ('w, 'r) resp_handler \<Rightarrow> 's
      \<Rightarrow> bytes outcome \<times> ('w, 'r) resp_handler" where
  "resp_takeOutgoingBytes svt h s =
     (case (if rh_outgoingBuffer h = [] \<and> rh_streamingRead h then resp_pumpReadSession svt h s
            else (Ret (), h)) of
        (Ret _, h') \<Rightarrow> (Ret (rh_outgoingBuffer h'), h'\<lparr>rh_outgoingBuffer := []\<rparr>)
      | (Throw, h') \<Rightarrow> (Throw, h')
      | (Crash, h') \<Rightarrow> (Crash, h'))"

section \<open>The recursion ends\<close>

text \<open>
  A recursive call is made with fewer buffered and new bytes, or with as many but in the parsing
  state.
\<close>

definition resp_measure :: "bytes \<Rightarrow> ('w, 'r) resp_handler \<Rightarrow> nat" where
  "resp_measure data h =
     2 * (length (rh_incomingBuffer h) + length data) +
     (if rh_state h = ParsingCommands then 0 else 1)"

lemma resp_queueResponse_simps [simp]:
  "rh_incomingBuffer (resp_queueResponse r h) = rh_incomingBuffer h"
  "rh_state (resp_queueResponse r h) = rh_state h"
  "rh_activeSession (resp_queueResponse r h) = rh_activeSession h"
  "rh_activeReadSession (resp_queueResponse r h) = rh_activeReadSession h"
  "rh_streamingRead (resp_queueResponse r h) = rh_streamingRead h"
  "rh_outgoingBuffer (resp_queueResponse r h) = rh_outgoingBuffer h @ r"
  by (simp_all add: resp_queueResponse_def)

lemma resp_skipTrailing_length:
  "resp_skipTrailing n data = (k, data') \<Longrightarrow> length data' \<le> length data"
  by (induction n data rule: resp_skipTrailing.induct) auto

lemma resp_finishStreamingValue_buffer:
  "resp_finishStreamingValue svt h s = (r, h', s') \<Longrightarrow> rh_incomingBuffer h' = rh_incomingBuffer h"
  by (auto simp: resp_finishStreamingValue_def Let_def split: option.splits prod.splits)

lemma resp_endStreamingValue_cong:
  assumes "\<And>d k t. length d \<le> length data \<Longrightarrow> rh_incomingBuffer k = rh_incomingBuffer h \<Longrightarrow>
    rh_state k = ParsingCommands \<Longrightarrow> f d k t = g d k t"
  shows "resp_endStreamingValue svt f data h s = resp_endStreamingValue svt g data h s"
  unfolding resp_endStreamingValue_def Let_def
  by (auto split: prod.split outcome.split intro!: assms dest!: resp_finishStreamingValue_buffer
      resp_skipTrailing_length)

lemma resp_continueStreamingValue_cong:
  assumes "\<And>d k t. length d \<le> length data \<Longrightarrow> rh_incomingBuffer k = rh_incomingBuffer h \<Longrightarrow>
    rh_state k = ParsingCommands \<Longrightarrow> f d k t = g d k t"
  shows "resp_continueStreamingValue svt f data h s = resp_continueStreamingValue svt g data h s"
  unfolding resp_continueStreamingValue_def Let_def
  by (auto split: prod.split option.split intro!: assms resp_endStreamingValue_cong)

lemma resp_continueDiscardingValue_cong:
  assumes "\<And>d k t. length d \<le> length data \<Longrightarrow> rh_incomingBuffer k = rh_incomingBuffer h \<Longrightarrow>
    rh_state k = ParsingCommands \<Longrightarrow> f d k t = g d k t"
  shows "resp_continueDiscardingValue f data h s = resp_continueDiscardingValue g data h s"
  unfolding resp_continueDiscardingValue_def Let_def by (auto intro!: assms)

text \<open>The header of a value is not empty.\<close>

lemma resp_setHeader_leftover:
  "resp_setHeader buf = Some hdr \<Longrightarrow> length (sh_leftover hdr) < length buf"
  by (auto simp: resp_setHeader_def Let_def split: if_splits option.splits prod.splits)

lemma resp_tryBegin_cong:
  assumes "\<And>d k t. length d < length (rh_incomingBuffer h) \<Longrightarrow> rh_incomingBuffer k = [] \<Longrightarrow>
    rh_state k = ParsingCommands \<Longrightarrow> f d k t = g d k t"
  shows "resp_tryBeginStreamingSetValue ovt t f h s = resp_tryBeginStreamingSetValue ovt t g h s"
proof (cases "resp_setHeader (rh_incomingBuffer h)")
  case None
  then show ?thesis by (simp add: resp_tryBeginStreamingSetValue_def)
next
  case (Some hdr)
  from resp_setHeader_leftover [OF this]
  have fg: "f d k t = g d k t"
    if "length d \<le> length (sh_leftover hdr)" "rh_incomingBuffer k = []" "rh_state k = ParsingCommands"
    for d k t using that assms by simp
  have "resp_rejectValue f r hdr h s = resp_rejectValue g r hdr h s" for r s
    by (auto simp: resp_rejectValue_def Let_def intro!: resp_continueDiscardingValue_cong fg)
  moreover from this
  have "resp_beginStreamingSetValue t f hdr h s = resp_beginStreamingSetValue t g hdr h s"
    by (auto simp: resp_beginStreamingSetValue_def Let_def split: prod.split
        intro!: resp_continueStreamingValue_cong fg)
  ultimately show ?thesis
    by (simp add: resp_tryBeginStreamingSetValue_def Some split: outcome.split bool.split)
qed

lemma resp_receive_cong [fundef_cong]:
  assumes "ovt = ovt'" "svt = svt'" "data = data'" "h = h'" "s = s'"
    and "\<And>d k t. resp_measure d k < resp_measure data' h' \<Longrightarrow> f d k t = g d k t"
  shows "resp_receive ovt svt f data h s = resp_receive ovt' svt' g data' h' s'"
proof (cases "rh_state h'")
  case ParsingCommands
  have "resp_tryBeginStreamingSetValue ovt' t f (h'\<lparr>rh_incomingBuffer := rh_incomingBuffer h' @ data'\<rparr>) s' =
      resp_tryBeginStreamingSetValue ovt' t g (h'\<lparr>rh_incomingBuffer := rh_incomingBuffer h' @ data'\<rparr>) s'" for t
    by (rule resp_tryBegin_cong) (auto intro!: assms(6) simp: resp_measure_def)
  with ParsingCommands show ?thesis
    by (simp add: assms(1-5) resp_receive_def Let_def cong: option.case_cong)
next
  case StreamingValue
  have "resp_continueStreamingValue svt' f data' h' s' = resp_continueStreamingValue svt' g data' h' s'"
    by (rule resp_continueStreamingValue_cong)
      (auto intro!: assms(6) simp: resp_measure_def StreamingValue)
  with StreamingValue show ?thesis by (simp add: assms(1-5) resp_receive_def)
next
  case DiscardingRejectedValue
  have "resp_continueDiscardingValue f data' h' s' = resp_continueDiscardingValue g data' h' s'"
    by (rule resp_continueDiscardingValue_cong)
      (auto intro!: assms(6) simp: resp_measure_def DiscardingRejectedValue)
  with DiscardingRejectedValue show ?thesis by (simp add: assms(1-5) resp_receive_def)
qed

function resp_onBytesReceived ::
    "'s object_vt \<Rightarrow> ('s, 'w, 'r) streaming_vt option \<Rightarrow> bytes \<Rightarrow> ('w, 'r) resp_handler \<Rightarrow> 's
      \<Rightarrow> bool outcome \<times> ('w, 'r) resp_handler \<times> 's" where
  "resp_onBytesReceived ovt svt data h s =
     resp_receive ovt svt (\<lambda>data h s. resp_onBytesReceived ovt svt data h s) data h s"
  by pat_completeness auto
termination
  by (relation "measure (\<lambda>(ovt, svt, data, h, s). resp_measure data h)") auto

declare resp_onBytesReceived.simps [simp del]

end
