(* ===== verification/Http_Parser.thy ===== *)
theory Http_Parser
  imports Obsto_Prelude
begin

text \<open>
  \<open>Core/Protocol/Http/HttpTypes.h\<close> and \<open>HttpParser.cpp\<close>: requests, status codes, and the parser of
  a buffer that may hold a request only in part. The output parameters of the parser are results
  here: the request as far as it was filled and the bytes consumed.
\<close>

section \<open>Requests and status codes\<close>

datatype http_method = MethodUnknown | MethodGet | MethodPut | MethodDelete

fun http_toString :: "http_method \<Rightarrow> string" where
  "http_toString MethodGet = ''GET''"
| "http_toString MethodPut = ''PUT''"
| "http_toString MethodDelete = ''DELETE''"
| "http_toString MethodUnknown = ''UNKNOWN''"

record http_request =
  hr_method :: string
  hr_path :: string
  hr_version :: string
  hr_headers :: "string \<Rightarrow> string option"
  hr_body :: bytes

text \<open>A request as it is declared, before it is filled.\<close>

definition http_request_init :: http_request where
  "http_request_init =
     \<lparr>hr_method = [], hr_path = [], hr_version = [], hr_headers = (\<lambda>_. None), hr_body = []\<rparr>"

datatype status_code =
  StatusOK | StatusCreated | StatusBadRequest | StatusNotFound | StatusMethodNotAllowed
  | StatusInternalServerError | StatusInsufficientStorage

fun status_number :: "status_code \<Rightarrow> nat" where
  "status_number StatusOK = 200"
| "status_number StatusCreated = 201"
| "status_number StatusBadRequest = 400"
| "status_number StatusNotFound = 404"
| "status_number StatusMethodNotAllowed = 405"
| "status_number StatusInternalServerError = 500"
| "status_number StatusInsufficientStorage = 507"

fun getStatusCodeStr :: "status_code \<Rightarrow> string" where
  "getStatusCodeStr StatusOK = ''OK''"
| "getStatusCodeStr StatusCreated = ''Created''"
| "getStatusCodeStr StatusBadRequest = ''Bad Request''"
| "getStatusCodeStr StatusNotFound = ''Not Found''"
| "getStatusCodeStr StatusMethodNotAllowed = ''Method Not Allowed''"
| "getStatusCodeStr StatusInternalServerError = ''Internal Server Error''"
| "getStatusCodeStr StatusInsufficientStorage = ''Insufficient Storage''"

section \<open>The parser\<close>

datatype http_result = HttpComplete | HttpIncomplete | HttpError

definition kMaxHeaderSectionSize :: nat where
  "kMaxHeaderSectionSize = 16 * 1024"

definition kMaxBodySize :: nat where
  "kMaxBodySize = 5 * 1024 * 1024 * 1024"

definition http_toLower :: "string \<Rightarrow> string" where
  "http_toLower s = map lower_char s"

text \<open>\<open>stream >> method >> path >> version\<close>: a word that cannot be read ends the reading.\<close>

definition parseRequestLine :: "string \<Rightarrow> http_request \<Rightarrow> bool \<times> http_request" where
  "parseRequestLine line req =
     (case read_token line of
        None \<Rightarrow> (False, req)
      | Some (w1, s1) \<Rightarrow>
          (case read_token s1 of
             None \<Rightarrow> (False, req\<lparr>hr_method := w1\<rparr>)
           | Some (w2, s2) \<Rightarrow>
               (case read_token s2 of
                  None \<Rightarrow> (False, req\<lparr>hr_method := w1, hr_path := w2\<rparr>)
                | Some (w3, _) \<Rightarrow>
                    (True, req\<lparr>hr_method := w1, hr_path := w2, hr_version := w3\<rparr>))))"

definition parseHeaderLine :: "string \<Rightarrow> http_request \<Rightarrow> bool \<times> http_request" where
  "parseHeaderLine line req =
     (case str_find line '':'' 0 of
        None \<Rightarrow> (False, req)
      | Some colon \<Rightarrow>
          let name = http_toLower (substr line 0 colon);
              val = dropWhile (\<lambda>c. c = CHR '' '') (drop (colon + 1) line)
          in (True, req\<lparr>hr_headers := (hr_headers req)(name \<mapsto> val)\<rparr>))"

text \<open>\<open>if (!line.empty() && line.back() == '\r') line.pop_back()\<close>\<close>

definition strip_cr :: "string \<Rightarrow> string" where
  "strip_cr line = (if line \<noteq> [] \<and> last line = CR then butlast line else line)"

text \<open>The loop over the lines behind the request line.\<close>

fun parseHeaderLines :: "string list \<Rightarrow> http_request \<Rightarrow> bool \<times> http_request" where
  "parseHeaderLines [] req = (True, req)"
| "parseHeaderLines (l # ls) req =
     (if strip_cr l = [] then parseHeaderLines ls req
      else
        case parseHeaderLine (strip_cr l) req of
          (False, req') \<Rightarrow> (False, req')
        | (True, req') \<Rightarrow> parseHeaderLines ls req')"

definition header_mark :: string where
  "header_mark = crlf @ crlf"

definition HttpParser_parse :: "bytes \<Rightarrow> http_request \<Rightarrow> http_result \<times> http_request \<times> nat" where
  "HttpParser_parse buffer req =
     (case str_find buffer header_mark 0 of
        None \<Rightarrow>
          (if length buffer > kMaxHeaderSectionSize then HttpError else HttpIncomplete, req, 0)
      | Some headerEnd \<Rightarrow>
          (case getlines (substr buffer 0 headerEnd) of
             [] \<Rightarrow> (HttpError, req, 0)
           | line # lines \<Rightarrow>
               (case parseRequestLine (strip_cr line) req of
                  (False, req) \<Rightarrow> (HttpError, req, 0)
                | (True, req) \<Rightarrow>
                    (case parseHeaderLines lines req of
                       (False, req) \<Rightarrow> (HttpError, req, 0)
                     | (True, req) \<Rightarrow>
                         let bodyStart = headerEnd + 4;
                             contentLength =
                               (case hr_headers req ''content-length'' of
                                  None \<Rightarrow> Some 0
                                | Some v \<Rightarrow>
                                    (case stol v of
                                       None \<Rightarrow> None
                                     | Some len \<Rightarrow>
                                         if len < 0 then None
                                         else if nat len > kMaxBodySize then None
                                         else Some (nat len)))
                         in (case contentLength of
                               None \<Rightarrow> (HttpError, req, 0)
                             | Some n \<Rightarrow>
                                 if length buffer < bodyStart + n then (HttpIncomplete, req, 0)
                                 else (HttpComplete, req\<lparr>hr_body := substr buffer bodyStart n\<rparr>,
                                       bodyStart + n))))))"

definition HttpParser_parseHeadersOnly ::
    "bytes \<Rightarrow> http_request \<Rightarrow> http_result \<times> http_request \<times> nat" where
  "HttpParser_parseHeadersOnly buffer req =
     (case str_find buffer header_mark 0 of
        None \<Rightarrow>
          (if length buffer > kMaxHeaderSectionSize then HttpError else HttpIncomplete, req, 0)
      | Some headerEnd \<Rightarrow>
          (case getlines (substr buffer 0 headerEnd) of
             [] \<Rightarrow> (HttpError, req, 0)
           | line # lines \<Rightarrow>
               (case parseRequestLine (strip_cr line) req of
                  (False, req) \<Rightarrow> (HttpError, req, 0)
                | (True, req) \<Rightarrow>
                    (case parseHeaderLines lines req of
                       (False, req) \<Rightarrow> (HttpError, req, 0)
                     | (True, req) \<Rightarrow> (HttpComplete, req, headerEnd + 4)))))"

definition parseContentLength :: "string \<Rightarrow> size_t option" where
  "parseContentLength value =
     (if value = [] \<or> value ! 0 = CHR ''-'' then None else stoul value)"

end
