(* ===== verification/Http_Handler.thy ===== *)
theory Http_Handler
  imports Http_Parser Storage_Interface
begin

text \<open>
  \<open>Core/Protocol/Http/HttpProtocolHandler.cpp\<close>: the HTTP side of a connection. The handler buffers
  what arrives, runs one request per call, streams a \<open>PUT\<close> with a large body into a write session
  and the answer of a \<open>GET\<close> out of a read session. The storage is as for the RESP handler.

  When a body begins to be streamed, the code clears the buffer while a \<open>string_view\<close> still refers
  to the bytes behind the header; the model has these bytes unchanged, as they are in a
  \<open>std::string\<close> that keeps its memory on \<open>clear\<close>.
\<close>

datatype http_state = ParsingHeaders | StreamingBody

record ('w, 'r) http_handler =
  hh_incomingBuffer :: bytes
  hh_outgoingBuffer :: bytes
  hh_state :: http_state
  hh_activeSession :: "'w option"
  hh_bodyBytesRemaining :: nat
  hh_pendingPutKey :: string
  hh_streamingRead :: bool
  hh_activeReadSession :: "'r option"

definition HttpProtocolHandler_new :: "('w, 'r) http_handler" where
  "HttpProtocolHandler_new =
     \<lparr>hh_incomingBuffer = [], hh_outgoingBuffer = [], hh_state = ParsingHeaders,
      hh_activeSession = None, hh_bodyBytesRemaining = 0, hh_pendingPutKey = [],
      hh_streamingRead = False, hh_activeReadSession = None\<rparr>"

definition http_hasMoreToSend :: "('w, 'r) http_handler \<Rightarrow> bool" where
  "http_hasMoreToSend h = hh_streamingRead h"

definition http_queueResponse :: "bytes \<Rightarrow> ('w, 'r) http_handler \<Rightarrow> ('w, 'r) http_handler" where
  "http_queueResponse response h = h\<lparr>hh_outgoingBuffer := hh_outgoingBuffer h @ response\<rparr>"

section \<open>Responses\<close>

definition http_buildResponse :: "nat \<Rightarrow> string \<Rightarrow> bytes \<Rightarrow> string \<Rightarrow> bytes" where
  "http_buildResponse statusCode statusText body contentType =
     ''HTTP/1.1 '' @ to_string statusCode @ '' '' @ statusText @ crlf @
     ''Content-Type: '' @ contentType @ crlf @
     ''Content-Length: '' @ to_string (length body) @ crlf @ crlf @ body"

definition http_statusResponse :: "status_code \<Rightarrow> bytes \<Rightarrow> string \<Rightarrow> bytes" where
  "http_statusResponse code body contentType =
     http_buildResponse (status_number code) (getStatusCodeStr code) body contentType"

definition text_plain :: string where
  "text_plain = ''text/plain''"

definition octet_stream :: string where
  "octet_stream = ''application/octet-stream''"

section \<open>Requests\<close>

text \<open>\<open>path.size() > 1 ? path.substr(1) : ""\<close>\<close>

definition http_key :: "string \<Rightarrow> string" where
  "http_key path = (if length path > 1 then drop 1 path else [])"

definition http_handleGetRoot :: "'s object_vt \<Rightarrow> 's \<Rightarrow> bytes outcome" where
  "http_handleGetRoot ovt s =
     (case vt_keys ovt s of
        Ret keys \<Rightarrow>
          Ret (http_statusResponse StatusOK (concat (map (\<lambda>key. key @ [LF]) keys)) text_plain)
      | Throw \<Rightarrow> Throw
      | Crash \<Rightarrow> Crash)"

definition http_handleGetPath ::
    "'s object_vt \<Rightarrow> ('s, 'w, 'r) streaming_vt option \<Rightarrow> string \<Rightarrow> ('w, 'r) http_handler \<Rightarrow> 's
      \<Rightarrow> bytes \<times> ('w, 'r) http_handler" where
  "http_handleGetPath ovt svt path h s =
     (let key = http_key path
      in case svt of
           Some t \<Rightarrow>
             let result = vt_beginGet t key s
             in if bg_found result
                then ([], (http_queueResponse
                             (''HTTP/1.1 200 OK'' @ crlf @
                              ''Content-Type: application/octet-stream'' @ crlf @
                              ''Content-Length: '' @ to_string (unat (bg_size result)) @ crlf @ crlf) h)
                            \<lparr>hh_activeReadSession := bg_session result, hh_streamingRead := True\<rparr>)
                else (http_statusResponse StatusNotFound ''No object at this path'' text_plain, h)
         | None \<Rightarrow>
             (case vt_get ovt key s of
                None \<Rightarrow> (http_statusResponse StatusNotFound ''No object at this path'' text_plain, h)
              | Some v \<Rightarrow> (http_statusResponse StatusOK v octet_stream, h)))"

definition http_handlePutPath :: "'s object_vt \<Rightarrow> string \<Rightarrow> bytes \<Rightarrow> 's \<Rightarrow> bytes \<times> 's" where
  "http_handlePutPath ovt path body s =
     (let key = http_key path; (result, s') = vt_put ovt key body s
      in (case result of
            PutOk \<Rightarrow> http_statusResponse StatusOK [] []
          | PutCapacityExceeded \<Rightarrow>
              http_statusResponse StatusInsufficientStorage ''Storage capacity exceeded'' text_plain
          | PutInvalidPath \<Rightarrow> http_statusResponse StatusBadRequest ''Bad Request'' ''Invalid path''
          | PutFailedToWrite \<Rightarrow>
              http_statusResponse StatusInternalServerError ''Internal Server Error'' [], s'))"

definition http_handleDeletePath :: "'s object_vt \<Rightarrow> string \<Rightarrow> 's \<Rightarrow> bytes outcome \<times> 's" where
  "http_handleDeletePath ovt path s =
     (let key = http_key path
      in case vt_exists ovt key s of
           Ret False \<Rightarrow>
             (Ret (http_statusResponse StatusNotFound ''No object at this path'' text_plain), s)
         | Ret True \<Rightarrow>
             let (success, s') = vt_del ovt key s
             in (Ret (if success then http_statusResponse StatusOK [] []
                      else http_statusResponse StatusInternalServerError
                             ''Failed to delete object'' text_plain), s')
         | Throw \<Rightarrow> (Throw, s)
         | Crash \<Rightarrow> (Crash, s))"

definition http_handleRequest ::
    "'s object_vt \<Rightarrow> ('s, 'w, 'r) streaming_vt option \<Rightarrow> http_request \<Rightarrow> ('w, 'r) http_handler \<Rightarrow> 's
      \<Rightarrow> bytes outcome \<times> ('w, 'r) http_handler \<times> 's" where
  "http_handleRequest ovt svt request h s =
     (if hr_method request = http_toString MethodGet \<and> hr_path request = ''/''
      then (http_handleGetRoot ovt s, h, s)
      else if hr_method request = http_toString MethodGet
      then let (r, h') = http_handleGetPath ovt svt (hr_path request) h s in (Ret r, h', s)
      else if hr_method request = http_toString MethodPut
      then let (r, s') = http_handlePutPath ovt (hr_path request) (hr_body request) s in (Ret r, h, s')
      else if hr_method request = http_toString MethodDelete
      then let (r, s') = http_handleDeletePath ovt (hr_path request) s in (r, h, s')
      else (Ret (http_statusResponse StatusMethodNotAllowed
                   ''Method Not Allowed'' ''Method not supported''), h, s))"

definition http_processRequest ::
    "'s object_vt \<Rightarrow> ('s, 'w, 'r) streaming_vt option \<Rightarrow> http_request \<Rightarrow> ('w, 'r) http_handler \<Rightarrow> 's
      \<Rightarrow> unit outcome \<times> ('w, 'r) http_handler \<times> 's" where
  "http_processRequest ovt svt request h s =
     (case http_handleRequest ovt svt request h s of
        (Ret response, h', s') \<Rightarrow>
          (Ret (), if response \<noteq> [] then http_queueResponse response h' else h', s')
      | (Throw, h', s') \<Rightarrow> (Throw, h', s')
      | (Crash, h', s') \<Rightarrow> (Crash, h', s'))"

section \<open>Streaming a body in\<close>

text \<open>
  As in the RESP handler the functions are mutually recursive through \<open>onBytesReceived\<close>, their
  argument \<open>rec\<close>.
\<close>

definition http_finishStreamingBody ::
    "('s, 'w, 'r) streaming_vt option \<Rightarrow> ('w, 'r) http_handler \<Rightarrow> 's
      \<Rightarrow> unit outcome \<times> ('w, 'r) http_handler \<times> 's" where
  "http_finishStreamingBody svt h s =
     (case (svt, hh_activeSession h) of
        (Some t, Some w) \<Rightarrow>
          let (result, w', s') = vt_finish t w s; h' = h\<lparr>hh_activeSession := None\<rparr>
          in (Ret (),
              (case result of
                 PutOk \<Rightarrow> http_queueResponse (http_statusResponse StatusOK [] text_plain) h'
               | PutCapacityExceeded \<Rightarrow>
                   http_queueResponse
                     (http_statusResponse StatusInsufficientStorage ''Storage capacity exceeded''
                        text_plain) h'
               | PutInvalidPath \<Rightarrow>
                   http_queueResponse (http_statusResponse StatusBadRequest ''Invalid path'' text_plain) h'
               | PutFailedToWrite \<Rightarrow> h'), s')
      | _ \<Rightarrow> (Crash, h, s))"

definition http_continueStreamingBody ::
    "('s, 'w, 'r) streaming_vt option
      \<Rightarrow> (bytes \<Rightarrow> ('w, 'r) http_handler \<Rightarrow> 's \<Rightarrow> bool outcome \<times> ('w, 'r) http_handler \<times> 's)
      \<Rightarrow> bytes \<Rightarrow> ('w, 'r) http_handler \<Rightarrow> 's \<Rightarrow> bool outcome \<times> ('w, 'r) http_handler \<times> 's" where
  "http_continueStreamingBody svt rec data h s =
     (case (svt, hh_activeSession h) of
        (Some t, Some w) \<Rightarrow>
          let toConsume = min (length data) (hh_bodyBytesRemaining h);
              (ok, w', s') = vt_writeChunk t w (take toConsume data) s
          in if \<not> ok then
               let (w'', s'') = vt_abort t w' s'
               in (Ret False,
                   http_queueResponse
                     (http_statusResponse StatusInternalServerError ''Write failed'' text_plain)
                     (h\<lparr>hh_activeSession := None, hh_state := ParsingHeaders\<rparr>), s'')
             else
               let h1 = h\<lparr>hh_activeSession := Some w',
                          hh_bodyBytesRemaining := hh_bodyBytesRemaining h - toConsume\<rparr>
               in if hh_bodyBytesRemaining h1 > 0 then (Ret True, h1, s')
                  else
                    (case http_finishStreamingBody svt h1 s' of
                       (Ret _, h2, s2) \<Rightarrow>
                         let remainder = drop toConsume data; h3 = h2\<lparr>hh_state := ParsingHeaders\<rparr>
                         in if remainder \<noteq> [] then rec remainder h3 s2 else (Ret True, h3, s2)
                     | (Throw, h2, s2) \<Rightarrow> (Throw, h2, s2)
                     | (Crash, h2, s2) \<Rightarrow> (Crash, h2, s2))
      | _ \<Rightarrow> (Crash, h, s))"

definition http_beginStreamingBody ::
    "('s, 'w, 'r) streaming_vt
      \<Rightarrow> (bytes \<Rightarrow> ('w, 'r) http_handler \<Rightarrow> 's \<Rightarrow> bool outcome \<times> ('w, 'r) http_handler \<times> 's)
      \<Rightarrow> http_request \<Rightarrow> bytes \<Rightarrow> ('w, 'r) http_handler \<Rightarrow> 's
      \<Rightarrow> bool outcome \<times> ('w, 'r) http_handler \<times> 's" where
  "http_beginStreamingBody t rec request leftover h s =
     (let key = http_key (hr_path request);
          failed = (\<lambda>code msg h s.
            (Ret False, http_queueResponse (http_statusResponse code msg text_plain) h, s))
      in case hr_headers request ''content-length'' of
           None \<Rightarrow> failed StatusBadRequest ''Missing Content-Length'' h s
         | Some v \<Rightarrow>
             (case parseContentLength v of
                None \<Rightarrow> failed StatusBadRequest ''Invalid Content-Length'' h s
              | Some contentLength \<Rightarrow>
                  let (beginResult, s') = vt_beginPut t key contentLength s
                  in (case bp_status beginResult of
                        PutCapacityExceeded \<Rightarrow>
                          failed StatusInsufficientStorage ''Storage capacity exceeded'' h s'
                      | PutInvalidPath \<Rightarrow> failed StatusBadRequest ''Invalid path'' h s'
                      | PutFailedToWrite \<Rightarrow> failed StatusInternalServerError ''Unknown error'' h s'
                      | PutOk \<Rightarrow>
                          let h' = h\<lparr>hh_activeSession := bp_session beginResult,
                                     hh_bodyBytesRemaining := unat contentLength,
                                     hh_pendingPutKey := key, hh_state := StreamingBody\<rparr>
                          in if leftover \<noteq> []
                             then http_continueStreamingBody (Some t) rec leftover h' s'
                             else (Ret True, h', s'))))"

section \<open>Receiving and sending bytes\<close>

text \<open>\<open>wantsStreaming\<close> of \<open>onBytesReceived\<close>: the header and the bytes it takes, if so.\<close>

definition http_wantsStreaming ::
    "('s, 'w, 'r) streaming_vt option \<Rightarrow> bytes \<Rightarrow> (http_request \<times> nat) option" where
  "http_wantsStreaming svt buffer =
     (case HttpParser_parseHeadersOnly buffer http_request_init of
        (HttpComplete, headerPeek, headerBytesConsumed) \<Rightarrow>
          let contentLength =
                (case hr_headers headerPeek ''content-length'' of
                   None \<Rightarrow> Some 0
                 | Some v \<Rightarrow> parseContentLength v)
          in (case contentLength of
                None \<Rightarrow> None
              | Some n \<Rightarrow>
                  if hr_method headerPeek = ''PUT'' \<and> svt \<noteq> None \<and> unat n > kStreamingThreshold
                  then Some (headerPeek, headerBytesConsumed) else None)
      | _ \<Rightarrow> None)"

text \<open>The part of \<open>onBytesReceived\<close> below \<open>// Non-streaming path\<close>.\<close>

definition http_runBuffer ::
    "'s object_vt \<Rightarrow> ('s, 'w, 'r) streaming_vt option \<Rightarrow> ('w, 'r) http_handler \<Rightarrow> 's
      \<Rightarrow> bool outcome \<times> ('w, 'r) http_handler \<times> 's" where
  "http_runBuffer ovt svt h s =
     (case HttpParser_parse (hh_incomingBuffer h) http_request_init of
        (HttpComplete, request, bytesConsumed) \<Rightarrow>
          (case http_processRequest ovt svt request h s of
             (Ret _, h', s') \<Rightarrow>
               (Ret True, h'\<lparr>hh_incomingBuffer := drop bytesConsumed (hh_incomingBuffer h')\<rparr>, s')
           | (Throw, h', s') \<Rightarrow> (Throw, h', s')
           | (Crash, h', s') \<Rightarrow> (Crash, h', s'))
      | (HttpError, _, _) \<Rightarrow>
          (Ret False,
           (http_queueResponse (http_statusResponse StatusBadRequest ''Malformed request'' text_plain) h)
             \<lparr>hh_incomingBuffer := []\<rparr>, s)
      | (HttpIncomplete, _, _) \<Rightarrow> (Ret True, h, s))"

definition http_receive ::
    "'s object_vt \<Rightarrow> ('s, 'w, 'r) streaming_vt option
      \<Rightarrow> (bytes \<Rightarrow> ('w, 'r) http_handler \<Rightarrow> 's \<Rightarrow> bool outcome \<times> ('w, 'r) http_handler \<times> 's)
      \<Rightarrow> bytes \<Rightarrow> ('w, 'r) http_handler \<Rightarrow> 's \<Rightarrow> bool outcome \<times> ('w, 'r) http_handler \<times> 's" where
  "http_receive ovt svt rec data h s =
     (case hh_state h of
        StreamingBody \<Rightarrow> http_continueStreamingBody svt rec data h s
      | ParsingHeaders \<Rightarrow>
          let h1 = h\<lparr>hh_incomingBuffer := hh_incomingBuffer h @ data\<rparr>
          in (case svt of
                None \<Rightarrow> http_runBuffer ovt svt h1 s
              | Some t \<Rightarrow>
                  (case http_wantsStreaming svt (hh_incomingBuffer h1) of
                     None \<Rightarrow> http_runBuffer ovt svt h1 s
                   | Some (headerPeek, headerBytesConsumed) \<Rightarrow>
                       http_beginStreamingBody t rec headerPeek
                         (drop headerBytesConsumed (hh_incomingBuffer h1))
                         (h1\<lparr>hh_incomingBuffer := []\<rparr>) s)))"

definition http_pumpReadSession ::
    "('s, 'w, 'r) streaming_vt option \<Rightarrow> ('w, 'r) http_handler \<Rightarrow> 's
      \<Rightarrow> unit outcome \<times> ('w, 'r) http_handler" where
  "http_pumpReadSession svt h s =
     (case (svt, hh_activeReadSession h) of
        (Some t, Some r) \<Rightarrow>
          (case vt_readChunk t r kReadChunkSize s of
             (None, r') \<Rightarrow> (Ret (), h\<lparr>hh_activeReadSession := None, hh_streamingRead := False\<rparr>)
           | (Some chunk, r') \<Rightarrow>
               (Ret (), http_queueResponse chunk (h\<lparr>hh_activeReadSession := Some r'\<rparr>)))
      | _ \<Rightarrow> (Crash, h))"

definition http_takeOutgoingBytes ::
    "('s, 'w, 'r) streaming_vt option \<Rightarrow> ('w, 'r) http_handler \<Rightarrow> 's
      \<Rightarrow> bytes outcome \<times> ('w, 'r) http_handler" where
  "http_takeOutgoingBytes svt h s =
     (case (if hh_outgoingBuffer h = [] \<and> hh_streamingRead h then http_pumpReadSession svt h s
            else (Ret (), h)) of
        (Ret _, h') \<Rightarrow> (Ret (hh_outgoingBuffer h'), h'\<lparr>hh_outgoingBuffer := []\<rparr>)
      | (Throw, h') \<Rightarrow> (Throw, h')
      | (Crash, h') \<Rightarrow> (Crash, h'))"

section \<open>The recursion ends\<close>

text \<open>
  A recursive call is made with fewer buffered and new bytes, or with as many but in the parsing
  state.
\<close>

definition http_measure :: "bytes \<Rightarrow> ('w, 'r) http_handler \<Rightarrow> nat" where
  "http_measure data h =
     2 * (length (hh_incomingBuffer h) + length data) + (if hh_state h = ParsingHeaders then 0 else 1)"

lemma http_queueResponse_simps [simp]:
  "hh_incomingBuffer (http_queueResponse r h) = hh_incomingBuffer h"
  "hh_state (http_queueResponse r h) = hh_state h"
  "hh_activeSession (http_queueResponse r h) = hh_activeSession h"
  "hh_activeReadSession (http_queueResponse r h) = hh_activeReadSession h"
  "hh_streamingRead (http_queueResponse r h) = hh_streamingRead h"
  "hh_bodyBytesRemaining (http_queueResponse r h) = hh_bodyBytesRemaining h"
  "hh_outgoingBuffer (http_queueResponse r h) = hh_outgoingBuffer h @ r"
  by (simp_all add: http_queueResponse_def)

lemma http_finishStreamingBody_buffer:
  "http_finishStreamingBody svt h s = (r, h', s') \<Longrightarrow> hh_incomingBuffer h' = hh_incomingBuffer h"
  by (auto simp: http_finishStreamingBody_def Let_def
      split: option.splits prod.splits put_result.splits)

lemma http_continueStreamingBody_cong:
  assumes "\<And>d k t. length d \<le> length data \<Longrightarrow> hh_incomingBuffer k = hh_incomingBuffer h \<Longrightarrow>
    hh_state k = ParsingHeaders \<Longrightarrow> f d k t = g d k t"
  shows "http_continueStreamingBody svt f data h s = http_continueStreamingBody svt g data h s"
  unfolding http_continueStreamingBody_def Let_def
  by (auto split: prod.split option.split outcome.split intro!: assms
      dest!: http_finishStreamingBody_buffer)

lemma http_beginStreamingBody_cong:
  assumes "\<And>d k t. length d \<le> length left \<Longrightarrow> hh_incomingBuffer k = hh_incomingBuffer h \<Longrightarrow>
    hh_state k = ParsingHeaders \<Longrightarrow> f d k t = g d k t"
  shows "http_beginStreamingBody t f req left h s = http_beginStreamingBody t g req left h s"
  unfolding http_beginStreamingBody_def Let_def
  by (auto split: prod.split option.split put_result.split intro!: assms http_continueStreamingBody_cong)

text \<open>The header of a request is not empty.\<close>

lemma parseHeadersOnly_consumed:
  "HttpParser_parseHeadersOnly buffer req = (HttpComplete, req', n) \<Longrightarrow> 4 \<le> n \<and> n \<le> length buffer"
  by (auto simp: HttpParser_parseHeadersOnly_def header_mark_def split: option.splits list.splits
      prod.splits bool.splits if_splits dest!: find_sub_bound)

lemma http_wantsStreaming_consumed:
  "http_wantsStreaming svt buffer = Some (req, n) \<Longrightarrow> 4 \<le> n \<and> n \<le> length buffer"
  by (auto simp: http_wantsStreaming_def Let_def split: prod.splits http_result.splits option.splits if_splits
      dest!: parseHeadersOnly_consumed)

lemma http_receive_cong [fundef_cong]:
  assumes "ovt = ovt'" "svt = svt'" "data = data'" "h = h'" "s = s'"
    and "\<And>d k t. http_measure d k < http_measure data' h' \<Longrightarrow> f d k t = g d k t"
  shows "http_receive ovt svt f data h s = http_receive ovt' svt' g data' h' s'"
proof (cases "hh_state h'")
  case ParsingHeaders
  let ?b = "hh_incomingBuffer h' @ data'"
  have "http_beginStreamingBody t f req (drop n ?b) (h'\<lparr>hh_incomingBuffer := []\<rparr>) s' =
      http_beginStreamingBody t g req (drop n ?b) (h'\<lparr>hh_incomingBuffer := []\<rparr>) s'"
    if "http_wantsStreaming svt' ?b = Some (req, n)" for t req n
    using http_wantsStreaming_consumed [OF that]
    by (intro http_beginStreamingBody_cong assms(6)) (auto simp: http_measure_def)
  with ParsingHeaders show ?thesis
    by (auto simp: assms(1-5) http_receive_def Let_def split: option.split)
next
  case StreamingBody
  have "http_continueStreamingBody svt' f data' h' s' = http_continueStreamingBody svt' g data' h' s'"
    by (rule http_continueStreamingBody_cong) (auto intro!: assms(6) simp: http_measure_def StreamingBody)
  with StreamingBody show ?thesis by (simp add: assms(1-5) http_receive_def)
qed

function http_onBytesReceived ::
    "'s object_vt \<Rightarrow> ('s, 'w, 'r) streaming_vt option \<Rightarrow> bytes \<Rightarrow> ('w, 'r) http_handler \<Rightarrow> 's
      \<Rightarrow> bool outcome \<times> ('w, 'r) http_handler \<times> 's" where
  "http_onBytesReceived ovt svt data h s =
     http_receive ovt svt (\<lambda>data h s. http_onBytesReceived ovt svt data h s) data h s"
  by pat_completeness auto
termination
  by (relation "measure (\<lambda>(ovt, svt, data, h, s). http_measure data h)") auto

declare http_onBytesReceived.simps [simp del]

end
