(* ===== verification/Protocol_Detector.thy ===== *)
theory Protocol_Detector
  imports Resp_Handler Http_Handler
begin

text \<open>
  \<open>Core/Protocol/IProtocolHandler.h\<close> and \<open>ProtocolDetectorHandler.cpp\<close>: the handler a connection
  starts with. It looks at the first bytes and passes everything on to a RESP or an HTTP handler.
  The virtual calls of \<open>IProtocolHandler\<close> are dispatched over the two classes the detector creates.
\<close>

datatype ('w, 'r) protocol_handler =
  RespProto "('w, 'r) resp_handler"
| HttpProto "('w, 'r) http_handler"

fun proto_onBytesReceived ::
    "'s object_vt \<Rightarrow> ('s, 'w, 'r) streaming_vt option \<Rightarrow> bytes \<Rightarrow> ('w, 'r) protocol_handler \<Rightarrow> 's
      \<Rightarrow> bool outcome \<times> ('w, 'r) protocol_handler \<times> 's" where
  "proto_onBytesReceived ovt svt data (RespProto h) s =
     (let (r, h', s') = resp_onBytesReceived ovt svt data h s in (r, RespProto h', s'))"
| "proto_onBytesReceived ovt svt data (HttpProto h) s =
     (let (r, h', s') = http_onBytesReceived ovt svt data h s in (r, HttpProto h', s'))"

fun proto_takeOutgoingBytes ::
    "('s, 'w, 'r) streaming_vt option \<Rightarrow> ('w, 'r) protocol_handler \<Rightarrow> 's
      \<Rightarrow> bytes outcome \<times> ('w, 'r) protocol_handler" where
  "proto_takeOutgoingBytes svt (RespProto h) s =
     (let (r, h') = resp_takeOutgoingBytes svt h s in (r, RespProto h'))"
| "proto_takeOutgoingBytes svt (HttpProto h) s =
     (let (r, h') = http_takeOutgoingBytes svt h s in (r, HttpProto h'))"

fun proto_hasMoreToSend :: "('w, 'r) protocol_handler \<Rightarrow> bool" where
  "proto_hasMoreToSend (RespProto h) = resp_hasMoreToSend h"
| "proto_hasMoreToSend (HttpProto h) = http_hasMoreToSend h"

section \<open>The detector\<close>

datatype http_match = HttpMatch | HttpNoMatch | HttpNeedMoreData

record ('w, 'r) detector =
  pd_delegate :: "('w, 'r) protocol_handler option"

definition ProtocolDetectorHandler_new :: "('w, 'r) detector" where
  "ProtocolDetectorHandler_new = \<lparr>pd_delegate = None\<rparr>"

definition kSupportedHttpMethods :: "http_method list" where
  "kSupportedHttpMethods = [MethodGet, MethodPut, MethodDelete]"

definition isRespPrefix :: "char \<Rightarrow> bool" where
  "isRespPrefix c \<longleftrightarrow> c \<in> set ''+-:$*''"

text \<open>The loop over the methods; \<open>any\<close> is \<open>anyCouldStillMatch\<close>.\<close>

fun isHttp_loop :: "string \<Rightarrow> bool \<Rightarrow> http_method list \<Rightarrow> http_match" where
  "isHttp_loop data any [] = (if any then HttpNeedMoreData else HttpNoMatch)"
| "isHttp_loop data any (m # ms) =
     (let methodStr = http_toString m @ '' ''; compareLen = min (length data) (length methodStr)
      in if take compareLen data = take compareLen methodStr
         then if length data \<ge> length methodStr then HttpMatch else isHttp_loop data True ms
         else isHttp_loop data any ms)"

definition isHttp :: "string \<Rightarrow> http_match" where
  "isHttp data = isHttp_loop data False kSupportedHttpMethods"

definition pd_hasMoreToSend :: "('w, 'r) detector \<Rightarrow> bool" where
  "pd_hasMoreToSend d =
     (case pd_delegate d of None \<Rightarrow> False | Some h \<Rightarrow> proto_hasMoreToSend h)"

text \<open>The last line of \<open>onBytesReceived\<close>, with the delegate \<open>h\<close>.\<close>

definition pd_forward ::
    "'s object_vt \<Rightarrow> ('s, 'w, 'r) streaming_vt option \<Rightarrow> bytes \<Rightarrow> ('w, 'r) protocol_handler
      \<Rightarrow> ('w, 'r) detector \<Rightarrow> 's \<Rightarrow> bool outcome \<times> ('w, 'r) detector \<times> 's" where
  "pd_forward ovt svt data h d s =
     (let (r, h', s') = proto_onBytesReceived ovt svt data h s
      in (r, d\<lparr>pd_delegate := Some h'\<rparr>, s'))"

definition pd_onBytesReceived ::
    "'s object_vt \<Rightarrow> ('s, 'w, 'r) streaming_vt option \<Rightarrow> bytes \<Rightarrow> ('w, 'r) detector \<Rightarrow> 's
      \<Rightarrow> bool outcome \<times> ('w, 'r) detector \<times> 's" where
  "pd_onBytesReceived ovt svt data d s =
     (case pd_delegate d of
        Some h \<Rightarrow> pd_forward ovt svt data h d s
      | None \<Rightarrow>
          (case data of
             [] \<Rightarrow> (Ret True, d, s)
           | firstByte # _ \<Rightarrow>
               if isRespPrefix firstByte
               then pd_forward ovt svt data (RespProto RespProtocolHandler_new) d s
               else
                 (case isHttp data of
                    HttpMatch \<Rightarrow> pd_forward ovt svt data (HttpProto HttpProtocolHandler_new) d s
                  | HttpNeedMoreData \<Rightarrow> (Ret True, d, s)
                  | HttpNoMatch \<Rightarrow> (Ret False, d, s))))"

definition pd_takeOutgoingBytes ::
    "('s, 'w, 'r) streaming_vt option \<Rightarrow> ('w, 'r) detector \<Rightarrow> 's \<Rightarrow> bytes outcome \<times> ('w, 'r) detector" where
  "pd_takeOutgoingBytes svt d s =
     (case pd_delegate d of
        None \<Rightarrow> (Ret [], d)
      | Some h \<Rightarrow>
          let (r, h') = proto_takeOutgoingBytes svt h s in (r, d\<lparr>pd_delegate := Some h'\<rparr>))"

end
