(* ===== verification/Net_Session.thy ===== *)
theory Net_Session
  imports Protocol_Detector
begin

text \<open>
  \<open>Core/Net/Session.cpp\<close> and \<open>Server.cpp\<close>: connections over asio. An asynchronous operation is an
  entry of \<open>ss_pending\<close> until its completion handler runs; a wait on the idle timer is an entry of
  \<open>ss_waits\<close>. The completion handlers are functions from the session and the storage to their next
  states, and the step relation lets the operating system complete any pending operation, with or
  without an error. All handlers run on the one thread that calls \<open>io_context::run\<close>, so a step is
  atomic.

  A session works with any \<open>IProtocolHandler\<close>, given as a method table.
\<close>

record ('h, 's) handler_vt =
  hv_onBytesReceived :: "bytes \<Rightarrow> 'h \<Rightarrow> 's \<Rightarrow> bool outcome \<times> 'h \<times> 's"
  hv_takeOutgoingBytes :: "'h \<Rightarrow> 's \<Rightarrow> bytes outcome \<times> 'h"
  hv_hasMoreToSend :: "'h \<Rightarrow> bool"

definition ProtocolDetectorHandler_hvt ::
    "'s object_vt \<Rightarrow> ('s, 'w, 'r) streaming_vt option \<Rightarrow> (('w, 'r) detector, 's) handler_vt" where
  "ProtocolDetectorHandler_hvt ovt svt =
     \<lparr>hv_onBytesReceived = pd_onBytesReceived ovt svt,
      hv_takeOutgoingBytes = pd_takeOutgoingBytes svt,
      hv_hasMoreToSend = pd_hasMoreToSend\<rparr>"

section \<open>Sessions\<close>

text \<open>
  The operations carry what their completion handlers capture. A wait is armed, or the timer has
  expired and its handler is queued, or it was cancelled and its handler will see an error; a queued
  handler is not cancelled any more.
\<close>

datatype async_op = AsyncRead | AsyncWrite bytes bool | AsyncPost bool | AsyncDrain

datatype timer_wait = WaitArmed | WaitExpired | WaitCancelled

text \<open>\<open>ss_sent\<close> is what the peer has been sent so far.\<close>

record 'h session =
  ss_handler :: 'h
  ss_open :: bool
  ss_sendOpen :: bool
  ss_pending :: "async_op list"
  ss_waits :: "timer_wait list"
  ss_sent :: bytes

definition kReadBufferSize :: nat where
  "kReadBufferSize = 4096"

definition Session_new :: "'h \<Rightarrow> 'h session" where
  "Session_new handler =
     \<lparr>ss_handler = handler, ss_open = True, ss_sendOpen = True, ss_pending = [], ss_waits = [],
      ss_sent = []\<rparr>"

definition cancel_wait :: "timer_wait \<Rightarrow> timer_wait" where
  "cancel_wait w = (case w of WaitArmed \<Rightarrow> WaitCancelled | _ \<Rightarrow> w)"

text \<open>\<open>m_idleTimer.cancel()\<close>, and what \<open>m_idleTimer.expires_after\<close> does to the waits there are.\<close>

definition cancel_timer :: "'h session \<Rightarrow> 'h session" where
  "cancel_timer x = x\<lparr>ss_waits := map cancel_wait (ss_waits x)\<rparr>"

definition Session_armIdleTimer :: "'h session \<Rightarrow> 'h session" where
  "Session_armIdleTimer x = (let x = cancel_timer x in x\<lparr>ss_waits := ss_waits x @ [WaitArmed]\<rparr>)"

definition Session_closeSocket :: "'h session \<Rightarrow> 'h session" where
  "Session_closeSocket x = x\<lparr>ss_open := False, ss_sendOpen := False\<rparr>"

definition start_op :: "async_op \<Rightarrow> 'h session \<Rightarrow> 'h session" where
  "start_op a x = x\<lparr>ss_pending := ss_pending x @ [a]\<rparr>"

definition Session_doRead :: "'h session \<Rightarrow> 'h session" where
  "Session_doRead x = start_op AsyncRead x"

definition Session_start :: "'h session \<Rightarrow> 'h session" where
  "Session_start x = Session_doRead (Session_armIdleTimer x)"

definition Session_drainAndClose :: "'h session \<Rightarrow> 'h session" where
  "Session_drainAndClose x = start_op AsyncDrain (x\<lparr>ss_sendOpen := False\<rparr>)"

text \<open>The end of \<open>doWrite\<close> and of its completion handler: read on, or stop.\<close>

definition Session_readOrDrain :: "bool \<Rightarrow> 'h session \<Rightarrow> 'h session" where
  "Session_readOrDrain keepGoing x =
     (if keepGoing then Session_doRead x else Session_drainAndClose (cancel_timer x))"

definition Session_doWrite ::
    "('h, 's) handler_vt \<Rightarrow> bool \<Rightarrow> 'h session \<Rightarrow> 's \<Rightarrow> 'h session outcome" where
  "Session_doWrite hv keepGoing x s =
     (case hv_takeOutgoingBytes hv (ss_handler x) s of
        (Throw, h) \<Rightarrow> Ret (Session_closeSocket (cancel_timer (x\<lparr>ss_handler := h\<rparr>)))
      | (Crash, h) \<Rightarrow> Crash
      | (Ret outgoing, h) \<Rightarrow>
          let x = x\<lparr>ss_handler := h\<rparr>
          in if outgoing = [] then
               if hv_hasMoreToSend hv h then Ret (start_op (AsyncPost keepGoing) x)
               else Ret (Session_readOrDrain keepGoing x)
             else Ret (start_op (AsyncWrite outgoing keepGoing) x))"

text \<open>The completion handlers; \<open>None\<close> is an error code.\<close>

definition Session_onRead ::
    "('h, 's) handler_vt \<Rightarrow> bytes option \<Rightarrow> 'h session \<Rightarrow> 's \<Rightarrow> 'h session outcome \<times> 's" where
  "Session_onRead hv received x s =
     (case received of
        None \<Rightarrow> (Ret (cancel_timer x), s)
      | Some data \<Rightarrow>
          let x = cancel_timer x
          in (case hv_onBytesReceived hv data (ss_handler x) s of
                (Ret keepGoing, h, s') \<Rightarrow> (Session_doWrite hv keepGoing (x\<lparr>ss_handler := h\<rparr>) s', s')
              | (Throw, h, s') \<Rightarrow>
                  (Ret (Session_closeSocket (cancel_timer (x\<lparr>ss_handler := h\<rparr>))), s')
              | (Crash, h, s') \<Rightarrow> (Crash, s')))"

definition Session_onWritten ::
    "('h, 's) handler_vt \<Rightarrow> bool \<Rightarrow> bool \<Rightarrow> 'h session \<Rightarrow> 's \<Rightarrow> 'h session outcome" where
  "Session_onWritten hv ok keepGoing x s =
     (if \<not> ok then Ret (cancel_timer x)
      else if hv_hasMoreToSend hv (ss_handler x) then Session_doWrite hv keepGoing x s
      else Ret (Session_readOrDrain keepGoing x))"

definition Session_onDrained :: "bool \<Rightarrow> 'h session \<Rightarrow> 'h session" where
  "Session_onDrained ok x = (if ok then Session_drainAndClose x else x)"

definition Session_onTimer :: "bool \<Rightarrow> 'h session \<Rightarrow> 'h session" where
  "Session_onTimer ok x = (if ok then Session_closeSocket x else x)"

definition end_op :: "async_op \<Rightarrow> 'h session \<Rightarrow> 'h session" where
  "end_op a x = x\<lparr>ss_pending := remove1 a (ss_pending x)\<rparr>"

definition end_wait :: "timer_wait \<Rightarrow> 'h session \<Rightarrow> 'h session" where
  "end_wait w x = x\<lparr>ss_waits := remove1 w (ss_waits x)\<rparr>"

definition add_sent :: "bytes \<Rightarrow> 'h session \<Rightarrow> 'h session" where
  "add_sent b x = x\<lparr>ss_sent := ss_sent x @ b\<rparr>"

inductive session_step ::
    "('h, 's) handler_vt \<Rightarrow> 'h session \<Rightarrow> 's \<Rightarrow> 'h session outcome \<Rightarrow> 's \<Rightarrow> bool" for hv where
  read: "AsyncRead \<in> set (ss_pending x) \<Longrightarrow> 0 < length data \<Longrightarrow> length data \<le> kReadBufferSize \<Longrightarrow>
    Session_onRead hv (Some data) (end_op AsyncRead x) s = (r, s') \<Longrightarrow> session_step hv x s r s'"
| read_error: "AsyncRead \<in> set (ss_pending x) \<Longrightarrow>
    Session_onRead hv None (end_op AsyncRead x) s = (r, s') \<Longrightarrow> session_step hv x s r s'"
| written: "AsyncWrite b k \<in> set (ss_pending x) \<Longrightarrow>
    session_step hv x s (Session_onWritten hv True k (add_sent b (end_op (AsyncWrite b k) x)) s) s"
| write_error: "AsyncWrite b k \<in> set (ss_pending x) \<Longrightarrow>
    session_step hv x s (Session_onWritten hv False k (add_sent (take n b) (end_op (AsyncWrite b k) x)) s) s"
| posted: "AsyncPost k \<in> set (ss_pending x) \<Longrightarrow>
    session_step hv x s (Session_doWrite hv k (end_op (AsyncPost k) x) s) s"
| drained: "AsyncDrain \<in> set (ss_pending x) \<Longrightarrow>
    session_step hv x s (Ret (Session_onDrained ok (end_op AsyncDrain x))) s"
| expire: "WaitArmed \<in> set (ss_waits x) \<Longrightarrow>
    session_step hv x s
      (Ret (x\<lparr>ss_waits := map (\<lambda>w. if w = WaitArmed then WaitExpired else w) (ss_waits x)\<rparr>)) s"
| timer: "WaitExpired \<in> set (ss_waits x) \<Longrightarrow>
    session_step hv x s (Ret (Session_onTimer True (end_wait WaitExpired x))) s"
| timer_cancelled: "WaitCancelled \<in> set (ss_waits x) \<Longrightarrow>
    session_step hv x s (Ret (Session_onTimer False (end_wait WaitCancelled x))) s"

section \<open>The server\<close>

text \<open>
  Every accepted connection becomes a session with a handler of its own; all share the storage. A
  session without pending operations and waits is no longer referenced and stays in the list dead.
\<close>

record ('h, 's) server =
  sv_sessions :: "'h session list"
  sv_storage :: 's

definition Server_accept :: "'h \<Rightarrow> ('h, 's) server \<Rightarrow> ('h, 's) server" where
  "Server_accept handler v =
     v\<lparr>sv_sessions := sv_sessions v @ [Session_start (Session_new handler)]\<rparr>"

text \<open>\<open>None\<close> is undefined behaviour in a handler.\<close>

inductive server_step ::
    "('h, 's) handler_vt \<Rightarrow> 'h \<Rightarrow> ('h, 's) server \<Rightarrow> ('h, 's) server option \<Rightarrow> bool" for hv handler where
  accept: "server_step hv handler v (Some (Server_accept handler v))"
| accept_error: "server_step hv handler v (Some v)"
| session: "i < length (sv_sessions v) \<Longrightarrow>
    session_step hv (sv_sessions v ! i) (sv_storage v) (Ret x) s \<Longrightarrow>
    server_step hv handler v (Some (v\<lparr>sv_sessions := (sv_sessions v)[i := x], sv_storage := s\<rparr>))"
| session_crash: "i < length (sv_sessions v) \<Longrightarrow>
    session_step hv (sv_sessions v ! i) (sv_storage v) r s \<Longrightarrow> \<not> is_ret r \<Longrightarrow>
    server_step hv handler v None"

inductive server_run ::
    "('h, 's) handler_vt \<Rightarrow> 'h \<Rightarrow> ('h, 's) server \<Rightarrow> ('h, 's) server option \<Rightarrow> bool" for hv handler where
  run_refl: "server_run hv handler v (Some v)"
| run_step: "server_run hv handler v (Some v') \<Longrightarrow> server_step hv handler v' v'' \<Longrightarrow>
    server_run hv handler v v''"

end
