(* ===== verification/Fs_Path.thy ===== *)
theory Fs_Path
  imports Obsto_Prelude "HOL-Library.Sublist"
begin

text \<open>
  What the storage classes use of \<open>std::filesystem::path\<close>, for POSIX paths. A path is the list of
  the elements its iteration yields: the root directory \<open>/\<close> first when the path is absolute, then
  the file names, and an empty last element when the path ends in a slash. (Runs of slashes, which
  neither the comparisons of the code nor the kernel distinguish from one, are lost.) The operations
  follow the standard's definitions, \<open>lexically_normal\<close> in the element-by-element form of libstdc++.
\<close>

type_synonym fs_path = "string list"

fun split_on :: "char \<Rightarrow> string \<Rightarrow> string list" where
  "split_on c [] = [[]]"
| "split_on c (x # xs) =
     (if x = c then [] # split_on c xs
      else (case split_on c xs of [] \<Rightarrow> [[x]] | y # ys \<Rightarrow> (x # y) # ys))"

definition path_of :: "string \<Rightarrow> fs_path" where
  "path_of s =
     (let names = filter (\<lambda>n. n \<noteq> []) (split_on CHR ''/'' s)
      in (if s \<noteq> [] \<and> s ! 0 = CHR ''/'' then [''/''] else []) @ names @
         (if names \<noteq> [] \<and> last s = CHR ''/'' then [[]] else []))"

definition path_is_absolute :: "fs_path \<Rightarrow> bool" where
  "path_is_absolute p \<longleftrightarrow> p \<noteq> [] \<and> p ! 0 = ''/''"

definition path_has_filename :: "fs_path \<Rightarrow> bool" where
  "path_has_filename p \<longleftrightarrow> p \<noteq> [] \<and> last p \<noteq> [] \<and> last p \<noteq> ''/''"

text \<open>\<open>operator/\<close>, \<open>parent_path\<close>, \<open>remove_filename\<close> (of a path that has one) and \<open>operator+=\<close>.\<close>

definition path_append :: "fs_path \<Rightarrow> fs_path \<Rightarrow> fs_path" where
  "path_append p q =
     (if path_is_absolute q then q
      else if path_has_filename p then p @ (if q = [] then [[]] else q)
      else if q \<noteq> [] \<and> p \<noteq> [] \<and> last p = [] then butlast p @ q
      else p @ q)"

definition path_parent :: "fs_path \<Rightarrow> fs_path" where
  "path_parent p = (if p = [''/''] then p else butlast p)"

definition path_remove_filename :: "fs_path \<Rightarrow> fs_path" where
  "path_remove_filename p =
     (let b = butlast p in if b = [] \<or> b = [''/''] then b else b @ [[]])"

definition path_concat :: "fs_path \<Rightarrow> string \<Rightarrow> fs_path" where
  "path_concat p s = (if p = [] then [s] else butlast p @ [last p @ s])"

definition normal_step :: "fs_path \<Rightarrow> string \<Rightarrow> fs_path" where
  "normal_step r p =
     (if p = ''..'' then
        if path_has_filename r then
          if last r \<noteq> ''..'' then path_remove_filename r else path_append r [p]
        else if r = [] then [p]
        else if r = [''/''] then r
        else if last (butlast r) \<noteq> ''..'' then path_remove_filename (butlast r)
        else path_append r [p]
      else if p = [] \<or> p = ''.'' then path_append r []
      else path_append r [p])"

definition path_lexically_normal :: "fs_path \<Rightarrow> fs_path" where
  "path_lexically_normal p =
     (if p = [] then []
      else
        let r = foldl normal_step [] p
        in if 2 \<le> length r then (if last r = [] \<and> last (butlast r) = ''..'' then butlast r else r)
           else if r = [] then [''.''] else r)"

text \<open>\<open>extension\<close>: from the last dot of the file name on, unless that dot is its first character.\<close>

definition name_extension :: "string \<Rightarrow> string" where
  "name_extension n =
     (let r = takeWhile (\<lambda>c. c \<noteq> CHR ''.'') (rev n)
      in if n = ''.'' \<or> n = ''..'' \<or> length n \<le> length r + 1 then [] else CHR ''.'' # rev r)"

definition path_extension :: "fs_path \<Rightarrow> string" where
  "path_extension p = (if path_has_filename p then name_extension (last p) else [])"

text \<open>\<open>generic_string\<close> of a relative path.\<close>

fun join_slash :: "string list \<Rightarrow> string" where
  "join_slash [] = []"
| "join_slash [n] = n"
| "join_slash (n # ns) = n @ CHR ''/'' # join_slash ns"

text \<open>\<open>c_str\<close> hands the kernel the bytes before the first NUL.\<close>

fun c_path :: "fs_path \<Rightarrow> fs_path" where
  "c_path [] = []"
| "c_path (c # cs) =
     (if CHR 0x00 \<in> set c then [takeWhile (\<lambda>x. x \<noteq> CHR 0x00) c] else c # c_path cs)"

section \<open>Plain names\<close>

text \<open>A name that denotes itself in a directory.\<close>

definition plain_name :: "string \<Rightarrow> bool" where
  "plain_name n \<longleftrightarrow> n \<noteq> [] \<and> n \<noteq> ''.'' \<and> n \<noteq> ''..'' \<and> CHR ''/'' \<notin> set n \<and> CHR 0x00 \<notin> set n"

lemma plain_name_simps [simp]:
  assumes "plain_name n"
  shows "n \<noteq> []" "n \<noteq> ''.''" "n \<noteq> ''..''" "n \<noteq> ''/''" "CHR ''/'' \<notin> set n" "CHR 0x00 \<notin> set n"
  using assms by (auto simp: plain_name_def)

lemma split_on_nonempty [simp]: "split_on c s \<noteq> []"
  by (induction s) (auto split: list.split)

lemma split_on_none: "c \<notin> set n \<Longrightarrow> split_on c n = [n]"
  by (induction n) auto

lemma split_on_append: "c \<notin> set n \<Longrightarrow> split_on c (n @ c # s) = n # split_on c s"
  by (induction n) auto

lemma split_on_chars: "n \<in> set (split_on c s) \<Longrightarrow> c \<notin> set n"
  by (induction s arbitrary: n) (auto split: if_splits list.splits)

lemma split_join: "ns \<noteq> [] \<Longrightarrow> \<forall>n\<in>set ns. CHR ''/'' \<notin> set n \<Longrightarrow>
    split_on CHR ''/'' (join_slash ns) = ns"
  by (induction ns rule: join_slash.induct) (auto simp: split_on_none split_on_append)

lemma join_split: "join_slash (split_on CHR ''/'' s) = s"
proof (induction s)
  case (Cons x xs)
  then show ?case
    by (cases "split_on CHR ''/'' xs" rule: join_slash.cases) auto
qed simp

lemma join_slash_inj:
  "\<forall>n\<in>set ns. plain_name n \<Longrightarrow> \<forall>n\<in>set ms. plain_name n \<Longrightarrow> ns \<noteq> [] \<Longrightarrow> ms \<noteq> [] \<Longrightarrow>
    join_slash ns = join_slash ms \<Longrightarrow> ns = ms"
  by (metis split_join plain_name_simps(5))

lemma join_slash_Nil: "join_slash ns = [] \<Longrightarrow> \<forall>n\<in>set ns. plain_name n \<Longrightarrow> ns = []"
  by (cases ns rule: join_slash.cases) auto

lemma plain_name_ends:
  assumes "plain_name n"
  shows "n ! 0 \<noteq> CHR ''/''" "last n \<noteq> CHR ''/''"
  using plain_name_simps(5) [OF assms] nth_mem [of 0 n] last_in_set [of n]
    plain_name_simps(1) [OF assms] by (metis length_greater_0_conv)+

lemma join_slash_hd:
  "ns \<noteq> [] \<Longrightarrow> \<forall>n\<in>set ns. plain_name n \<Longrightarrow> join_slash ns ! 0 \<noteq> CHR ''/''"
  by (cases ns rule: join_slash.cases) (auto simp: nth_append plain_name_ends)

lemma join_slash_last:
  "ns \<noteq> [] \<Longrightarrow> \<forall>n\<in>set ns. plain_name n \<Longrightarrow> last (join_slash ns) \<noteq> CHR ''/''"
proof (induction ns rule: join_slash.induct)
  case (2 n)
  then show ?case by (simp add: plain_name_ends)
next
  case (3 n m ns)
  then show ?case using join_slash_Nil [of "m # ns"] by auto
qed simp

lemma path_of_join:
  assumes "ns \<noteq> []" "\<forall>n\<in>set ns. plain_name n"
  shows "path_of (join_slash ns) = ns"
proof -
  have "filter (\<lambda>n. n \<noteq> []) ns = ns" using assms by (simp add: filter_id_conv)
  then show ?thesis
    using assms join_slash_hd [OF assms] join_slash_last [OF assms]
    by (simp add: path_of_def split_join)
qed

lemma c_path_plain: "\<forall>n\<in>set ns. plain_name n \<Longrightarrow> c_path ns = ns"
  by (induction ns) auto

lemma c_path_append: "\<forall>n\<in>set p. CHR 0x00 \<notin> set n \<Longrightarrow> c_path (p @ q) = p @ c_path q"
  by (induction p) auto

section \<open>Normalising a path below a plain directory\<close>

text \<open>
  A storage root as the theorems take it: not empty, without dots, repeated or trailing slashes;
  absolute or relative.
\<close>

definition root_names :: "fs_path \<Rightarrow> fs_path" where
  "root_names r = (if path_is_absolute r then tl r else r)"

definition root_ok :: "fs_path \<Rightarrow> bool" where
  "root_ok r \<longleftrightarrow> root_names r \<noteq> [] \<and> list_all plain_name (root_names r)"

lemma root_ok_split:
  assumes "root_ok r"
  obtains pre where "r = pre @ root_names r" "pre = [] \<or> pre = [''/'']"
proof
  show "r = (if path_is_absolute r then [''/''] else []) @ root_names r"
    by (cases r) (simp_all add: root_names_def path_is_absolute_def)
qed simp

lemma root_ok_facts:
  assumes "root_ok r"
  shows "r \<noteq> []" "last r = last (root_names r)" "plain_name (last r)" "path_has_filename r"
    "''..'' \<notin> set r" "\<forall>n\<in>set r. CHR 0x00 \<notin> set n"
proof -
  obtain pre where pre: "r = pre @ root_names r" "pre = [] \<or> pre = [''/'']"
    by (rule root_ok_split [OF assms])
  have ns: "root_names r \<noteq> []" "\<forall>n\<in>set (root_names r). plain_name n"
    using assms by (auto simp: root_ok_def list_all_iff)
  show ne: "r \<noteq> []" using pre ns by auto
  show last: "last r = last (root_names r)" using pre(1) ns(1) by (metis last_appendR)
  show "plain_name (last r)" using ns last by simp
  then show "path_has_filename r" using ne by (simp add: path_has_filename_def)
  have "n = ''/'' \<or> plain_name n" if "n \<in> set r" for n
    using that pre ns(2) by (metis Un_iff set_append empty_iff list.set(1) set_ConsD)
  note parts = this
  show "''..'' \<notin> set r" using parts [of "''..''"] by (auto simp: plain_name_def)
  show "\<forall>n\<in>set r. CHR 0x00 \<notin> set n" using parts plain_name_simps(6) by fastforce
qed

text \<open>A name as the iteration of a path yields it, other than the dots.\<close>

definition file_name :: "string \<Rightarrow> bool" where
  "file_name n \<longleftrightarrow> n \<noteq> [] \<and> n \<noteq> ''.'' \<and> n \<noteq> ''..'' \<and> CHR ''/'' \<notin> set n"

lemma plain_file_name: "plain_name n \<Longrightarrow> file_name n"
  unfolding plain_name_def file_name_def by blast

lemma file_name_simps [simp]:
  assumes "file_name n"
  shows "n \<noteq> []" "n \<noteq> ''.''" "n \<noteq> ''..''" "n \<noteq> ''/''"
  using assms by (auto simp: file_name_def)

definition trail :: "fs_path \<Rightarrow> fs_path" where
  "trail req = (if last req = [] \<or> last req = ''.'' then [[]] else [])"

lemma normal_step_name:
  "path_has_filename r \<Longrightarrow> file_name n \<Longrightarrow> normal_step r n = r @ [n]"
  "path_has_filename r \<Longrightarrow> file_name n \<Longrightarrow> normal_step (r @ [[]]) n = r @ [n]"
  "file_name n \<Longrightarrow> normal_step [] n = [n]"
  "file_name n \<Longrightarrow> normal_step [''/''] n = [''/'', n]"
  by (auto simp: normal_step_def path_append_def path_is_absolute_def path_has_filename_def)

lemma normal_step_dot:
  "path_has_filename r \<Longrightarrow> n = [] \<or> n = ''.'' \<Longrightarrow> normal_step r n = r @ [[]]"
  "path_has_filename r \<Longrightarrow> n = [] \<or> n = ''.'' \<Longrightarrow> normal_step (r @ [[]]) n = r @ [[]]"
  by (auto simp: normal_step_def path_append_def path_is_absolute_def path_has_filename_def)

lemma normal_names:
  "path_has_filename r \<Longrightarrow> \<forall>n\<in>set ns. file_name n \<Longrightarrow> foldl normal_step r ns = r @ ns"
proof (induction ns arbitrary: r)
  case (Cons n ns)
  then have "path_has_filename (r @ [n])" by (simp add: path_has_filename_def)
  with Cons.IH [OF this] Cons.prems show ?case by (simp add: normal_step_name)
qed simp

lemma normal_root:
  assumes "root_ok r"
  shows "foldl normal_step [] r = r"
proof -
  obtain pre where pre: "r = pre @ root_names r" "pre = [] \<or> pre = [''/'']"
    by (rule root_ok_split [OF assms])
  obtain n ns where ns: "root_names r = n # ns" "plain_name n" "\<forall>n\<in>set ns. plain_name n"
    using assms by (cases "root_names r") (auto simp: root_ok_def list_all_iff)
  have "foldl normal_step [] pre = pre"
    using pre(2) by (auto simp: normal_step_def path_append_def path_is_absolute_def path_has_filename_def)
  moreover have "normal_step pre n = pre @ [n]"
    using pre(2) ns(2) by (auto simp: normal_step_name plain_file_name)
  moreover have "path_has_filename (pre @ [n])" using ns(2) by (simp add: path_has_filename_def)
  ultimately have "foldl normal_step [] (pre @ n # ns) = pre @ n # ns"
    using normal_names [of "pre @ [n]" ns] ns(3) by (simp add: plain_file_name)
  then show ?thesis using pre(1) ns(1) by metis
qed

lemma normal_below:
  assumes "path_has_filename r" "t = [] \<or> t = [[]]"
    and "\<forall>n\<in>set req. n = [] \<or> n = ''.'' \<or> file_name n"
  shows "foldl normal_step (r @ t) req =
    r @ filter file_name req @ (if req = [] then t else trail req)"
  using assms
proof (induction req arbitrary: r t)
  case (Cons n req)
  show ?case
  proof (cases "file_name n")
    case True
    then have "path_has_filename (r @ [n])" by (simp add: path_has_filename_def)
    from Cons.IH [OF this, of "[]"] Cons.prems(3)
    have "foldl normal_step (r @ [n]) req =
        (r @ [n]) @ filter file_name req @ (if req = [] then [] else trail req)" by simp
    moreover have "normal_step (r @ t) n = r @ [n]"
      using Cons.prems(1,2) True by (elim disjE) (simp_all add: normal_step_name)
    ultimately show ?thesis using True by (cases req) (simp_all add: trail_def)
  next
    case False
    with Cons.prems(3) have n: "n = [] \<or> n = ''.''" by auto
    from Cons.IH [OF Cons.prems(1), of "[[]]"] Cons.prems(3)
    have "foldl normal_step (r @ [[]]) req =
        r @ filter file_name req @ (if req = [] then [[]] else trail req)" by simp
    moreover have "normal_step (r @ t) n = r @ [[]]"
      using Cons.prems(1,2) n by (elim disjE) (simp_all add: normal_step_dot)
    moreover have "trail [n] = [[]]" using n by (auto simp: trail_def)
    ultimately show ?thesis using False by (cases req) (simp_all add: trail_def)
  qed
qed simp

lemma path_of_parts:
  assumes "\<not> path_is_absolute (path_of k)" "''..'' \<notin> set (path_of k)"
  shows "\<forall>n\<in>set (path_of k). n = [] \<or> n = ''.'' \<or> file_name n"
proof
  fix n
  assume n: "n \<in> set (path_of k)"
  have "\<not> (k \<noteq> [] \<and> k ! 0 = CHR ''/'')"
    using assms(1) by (auto simp: path_of_def Let_def path_is_absolute_def)
  with n have "n = [] \<or> n \<in> set (split_on CHR ''/'' k)"
    by (auto simp: path_of_def Let_def split: if_splits)
  then have "CHR ''/'' \<notin> set n" using split_on_chars by auto
  with n assms(2) show "n = [] \<or> n = ''.'' \<or> file_name n"
    unfolding file_name_def by blast
qed

lemma normal_root_append:
  assumes r: "root_ok r" and req: "req \<noteq> []" "\<not> path_is_absolute req"
    "\<forall>n\<in>set req. n = [] \<or> n = ''.'' \<or> file_name n"
  shows "path_lexically_normal (path_append r req) = r @ filter file_name req @ trail req"
proof -
  have f: "path_has_filename r" and ne: "r \<noteq> []" and dd: "last r \<noteq> ''..''"
    using root_ok_facts [OF r] by auto
  have app: "path_append r req = r @ req" using f req by (simp add: path_append_def)
  have fold: "foldl normal_step [] (r @ req) = r @ filter file_name req @ trail req" (is "_ = ?n")
    using normal_root [OF r] normal_below [OF f _ req(3), of "[]"] req(1) by simp
  have "last (butlast ?n) \<noteq> ''..''" if "last ?n = []"
  proof (cases "trail req = []")
    case True
    have "last (r @ filter file_name req) \<noteq> []"
      using f ne last_in_set [of "filter file_name req"]
      by (cases "filter file_name req = []") (auto simp: path_has_filename_def)
    with that True show ?thesis by simp
  next
    case False
    then have "butlast ?n = r @ filter file_name req"
      by (simp add: trail_def butlast_append split: if_splits)
    then show ?thesis
      using dd last_in_set [of "filter file_name req"]
      by (cases "filter file_name req = []") auto
  qed
  then have "path_lexically_normal (r @ req) = ?n"
    using ne fold by (auto simp: path_lexically_normal_def Let_def)
  with app show ?thesis by simp
qed

end
