(* ===== verification/File_System.thy ===== *)
theory File_System
  imports Fs_Path
begin

text \<open>
  The file system under \<open>std::filesystem\<close> and the file streams, as far as the storage classes use
  them: a directory tree without symbolic or hard links, whose files are numbered contents, so that
  a stream keeps its file when the name is removed or given to another. What the operating system
  decides is in the record \<open>os_env\<close>: the working directory, the locations it refuses to access (for
  permissions, or because a name is too long), and when a file stream holds written bytes back in
  its buffer, which the standard leaves open, and the ports it lets the server listen on. \<open>hs_room\<close> is the number of bytes the device still
  accepts, \<open>None\<close> for a device that never fills.

  A location is the list of the names from the root directory down.
\<close>

datatype node = Dir | File nat

record os_env =
  env_cwd :: "string list"
  env_refuses :: "string list \<Rightarrow> bool"
  env_buffers :: "nat \<Rightarrow> nat \<Rightarrow> bool"
  env_listens :: "16 word \<Rightarrow> bool"

record host =
  hs_nodes :: "(string list \<times> node) list"
  hs_data :: "nat \<Rightarrow> bytes"
  hs_next :: nat
  hs_room :: "nat option"

definition node_at :: "host \<Rightarrow> string list \<Rightarrow> node option" where
  "node_at h q = (if q = [] then Some Dir else map_of (hs_nodes h) q)"

section \<open>Path resolution\<close>

datatype fs_walk = WalkRefused | WalkMissing | WalkAt "string list"

text \<open>Every component but the last has to be a directory; a trailing slash asks for one, too.\<close>

fun fs_walk_from :: "os_env \<Rightarrow> host \<Rightarrow> string list \<Rightarrow> fs_path \<Rightarrow> fs_walk" where
  "fs_walk_from env h cur [] = WalkAt cur"
| "fs_walk_from env h cur (c # cs) =
     (if c = [] \<or> c = ''.'' then fs_walk_from env h cur cs
      else if c = ''..'' then fs_walk_from env h (butlast cur) cs
      else
        let q = cur @ [c]
        in if env_refuses env q then WalkRefused
           else if cs = [] then WalkAt q
           else if node_at h q = Some Dir then fs_walk_from env h q cs
           else WalkMissing)"

definition fs_resolve :: "os_env \<Rightarrow> fs_path \<Rightarrow> host \<Rightarrow> fs_walk" where
  "fs_resolve env p h =
     (case c_path p of
        [] \<Rightarrow> WalkMissing
      | c # cs \<Rightarrow> if c = ''/'' then fs_walk_from env h [] cs else fs_walk_from env h (env_cwd env) (c # cs))"

datatype fs_status = StRefused | StNotFound | StDir | StFile nat

definition fs_status :: "os_env \<Rightarrow> fs_path \<Rightarrow> host \<Rightarrow> fs_status" where
  "fs_status env p h =
     (case fs_resolve env p h of
        WalkRefused \<Rightarrow> StRefused
      | WalkMissing \<Rightarrow> StNotFound
      | WalkAt q \<Rightarrow>
          (case node_at h q of None \<Rightarrow> StNotFound | Some Dir \<Rightarrow> StDir | Some (File i) \<Rightarrow> StFile i))"

text \<open>\<open>exists\<close> and \<open>is_regular_file\<close> without an error code: they throw on errors.\<close>

definition fs_exists :: "os_env \<Rightarrow> fs_path \<Rightarrow> host \<Rightarrow> bool outcome" where
  "fs_exists env p h =
     (case fs_status env p h of
        StRefused \<Rightarrow> Throw | StNotFound \<Rightarrow> Ret False | StDir \<Rightarrow> Ret True | StFile _ \<Rightarrow> Ret True)"

definition fs_is_regular_file :: "os_env \<Rightarrow> fs_path \<Rightarrow> host \<Rightarrow> bool outcome" where
  "fs_is_regular_file env p h =
     (case fs_status env p h of
        StRefused \<Rightarrow> Throw | StNotFound \<Rightarrow> Ret False | StDir \<Rightarrow> Ret False | StFile _ \<Rightarrow> Ret True)"

section \<open>Changing the tree\<close>

definition set_node :: "string list \<Rightarrow> node \<Rightarrow> host \<Rightarrow> host" where
  "set_node q n h = h\<lparr>hs_nodes := AList.update q n (hs_nodes h)\<rparr>"

definition remove_node :: "string list \<Rightarrow> host \<Rightarrow> host" where
  "remove_node q h = h\<lparr>hs_nodes := AList.delete q (hs_nodes h)\<rparr>"

text \<open>\<open>create_directories(p, ec)\<close>; the result is whether \<open>ec\<close> is clear.\<close>

fun fs_mkdirs :: "os_env \<Rightarrow> fs_path \<Rightarrow> fs_path \<Rightarrow> host \<Rightarrow> bool \<times> host" where
  "fs_mkdirs env done [] h = (True, h)"
| "fs_mkdirs env done (c # cs) h =
     (case fs_status env (done @ [c]) h of
        StDir \<Rightarrow> fs_mkdirs env (done @ [c]) cs h
      | StNotFound \<Rightarrow>
          (case fs_resolve env (done @ [c]) h of
             WalkAt q \<Rightarrow> fs_mkdirs env (done @ [c]) cs (set_node q Dir h)
           | _ \<Rightarrow> (False, h))
      | _ \<Rightarrow> (False, h))"

definition fs_create_directories :: "os_env \<Rightarrow> fs_path \<Rightarrow> host \<Rightarrow> bool \<times> host" where
  "fs_create_directories env p h = (if p = [] then (False, h) else fs_mkdirs env [] p h)"

text \<open>
  \<open>remove(p, ec) && !ec\<close>: a file, or an empty directory that is not named through a final dot.
\<close>

definition fs_remove :: "os_env \<Rightarrow> fs_path \<Rightarrow> host \<Rightarrow> bool \<times> host" where
  "fs_remove env p h =
     (case fs_resolve env p h of
        WalkAt q \<Rightarrow>
          (case node_at h q of
             None \<Rightarrow> (False, h)
           | Some (File _) \<Rightarrow> (True, remove_node q h)
           | Some Dir \<Rightarrow>
               if q = [] \<or> last (c_path p) \<in> {''.'', ''..''} \<or>
                  list_ex (\<lambda>(q', _). strict_prefix q q') (hs_nodes h)
               then (False, h) else (True, remove_node q h))
      | _ \<Rightarrow> (False, h))"

text \<open>
  \<open>rename(from, to, ec)\<close>: a file replaces a file; a directory, with all it contains, takes a free
  name or the place of an empty directory.
\<close>

definition fs_rename :: "os_env \<Rightarrow> fs_path \<Rightarrow> fs_path \<Rightarrow> host \<Rightarrow> bool \<times> host" where
  "fs_rename env from to h =
     (case (fs_resolve env from h, fs_resolve env to h) of
        (WalkAt q, WalkAt r) \<Rightarrow>
          (case (node_at h q, node_at h r) of
             (None, _) \<Rightarrow> (False, h)
           | (Some (File i), Some Dir) \<Rightarrow> (False, h)
           | (Some (File i), _) \<Rightarrow>
               (True, if q = r then h else set_node r (File i) (remove_node q h))
           | (Some Dir, Some (File _)) \<Rightarrow> (False, h)
           | (Some Dir, _) \<Rightarrow>
               if q = [] \<or> prefix q r \<or> list_ex (\<lambda>(q', _). strict_prefix r q') (hs_nodes h)
               then (q = r \<and> q \<noteq> [], h)
               else
                 (True, h\<lparr>hs_nodes := map (\<lambda>(q', n). (if prefix q q' then r @ drop (length q) q' else q', n))
                            (AList.delete r (hs_nodes h))\<rparr>))
      | _ \<Rightarrow> (False, h))"

section \<open>File streams\<close>

text \<open>\<open>std::ofstream(p, binary | trunc)\<close>: \<open>ofs_file\<close> is \<open>None\<close> when no file is open.\<close>

record ofstream =
  ofs_file :: "nat option"
  ofs_pos :: nat
  ofs_buf :: bytes
  ofs_good :: bool

definition ofs_open :: "os_env \<Rightarrow> fs_path \<Rightarrow> host \<Rightarrow> ofstream \<times> host" where
  "ofs_open env p h =
     (let failed = (\<lparr>ofs_file = None, ofs_pos = 0, ofs_buf = [], ofs_good = False\<rparr>, h);
          opened = (\<lambda>i. \<lparr>ofs_file = Some i, ofs_pos = 0, ofs_buf = [], ofs_good = True\<rparr>)
      in case fs_resolve env p h of
           WalkAt q \<Rightarrow>
             (case node_at h q of
                Some Dir \<Rightarrow> failed
              | Some (File i) \<Rightarrow> (opened i, h\<lparr>hs_data := (hs_data h)(i := [])\<rparr>)
              | None \<Rightarrow>
                  (opened (hs_next h),
                   (set_node q (File (hs_next h)) h)
                     \<lparr>hs_data := (hs_data h)(hs_next h := []), hs_next := Suc (hs_next h)\<rparr>))
         | _ \<Rightarrow> failed)"

definition splice :: "bytes \<Rightarrow> nat \<Rightarrow> bytes \<Rightarrow> bytes" where
  "splice old pos new =
     take pos (old @ replicate (pos - length old) (CHR 0x00)) @ new @ drop (pos + length new) old"

text \<open>The write system call, with as many bytes as the device accepts.\<close>

definition fs_write :: "nat \<Rightarrow> nat \<Rightarrow> bytes \<Rightarrow> host \<Rightarrow> nat \<times> host" where
  "fs_write i pos b h =
     (let n = (case hs_room h of None \<Rightarrow> length b | Some room \<Rightarrow> min room (length b))
      in (n, h\<lparr>hs_data := (hs_data h)(i := splice (hs_data h i) pos (take n b)),
               hs_room := map_option (\<lambda>room. room - n) (hs_room h)\<rparr>))"

text \<open>Bytes go to the buffer, or the buffer and they go to the file.\<close>

definition ofs_write :: "os_env \<Rightarrow> ofstream \<Rightarrow> bytes \<Rightarrow> host \<Rightarrow> ofstream \<times> host" where
  "ofs_write env f b h =
     (case (ofs_good f, ofs_file f) of
        (True, Some i) \<Rightarrow>
          if env_buffers env (length (ofs_buf f)) (length b)
          then (f\<lparr>ofs_buf := ofs_buf f @ b\<rparr>, h)
          else
            let out = ofs_buf f @ b; (n, h') = fs_write i (ofs_pos f) out h
            in if n = length out then (f\<lparr>ofs_pos := ofs_pos f + n, ofs_buf := []\<rparr>, h')
               else (f\<lparr>ofs_pos := ofs_pos f + n, ofs_good := False\<rparr>, h')
      | _ \<Rightarrow> (f\<lparr>ofs_good := False\<rparr>, h))"

text \<open>\<open>close\<close> writes what is buffered; it fails on a stream that is not open.\<close>

definition ofs_close :: "ofstream \<Rightarrow> host \<Rightarrow> ofstream \<times> host" where
  "ofs_close f h =
     (case ofs_file f of
        None \<Rightarrow> (f\<lparr>ofs_good := False\<rparr>, h)
      | Some i \<Rightarrow>
          if ofs_buf f = [] then (f\<lparr>ofs_file := None\<rparr>, h)
          else
            let (n, h') = fs_write i (ofs_pos f) (ofs_buf f) h
            in (f\<lparr>ofs_file := None, ofs_pos := ofs_pos f + n, ofs_buf := [],
                  ofs_good := (ofs_good f \<and> n = length (ofs_buf f))\<rparr>, h'))"

text \<open>
  \<open>std::ifstream(p, binary)\<close>: opening a directory succeeds, but nothing can be read from it.
  \<open>ifs_good\<close> is false once the end was met or an error occurred.
\<close>

record ifstream =
  ifs_file :: "nat option"
  ifs_pos :: nat
  ifs_good :: bool

definition ifs_open :: "os_env \<Rightarrow> fs_path \<Rightarrow> host \<Rightarrow> ifstream" where
  "ifs_open env p h =
     (case fs_status env p h of
        StFile i \<Rightarrow> \<lparr>ifs_file = Some i, ifs_pos = 0, ifs_good = True\<rparr>
      | StDir \<Rightarrow> \<lparr>ifs_file = None, ifs_pos = 0, ifs_good = True\<rparr>
      | _ \<Rightarrow> \<lparr>ifs_file = None, ifs_pos = 0, ifs_good = False\<rparr>)"

definition ifs_rest :: "ifstream \<Rightarrow> host \<Rightarrow> bytes" where
  "ifs_rest f h = (case ifs_file f of None \<Rightarrow> [] | Some i \<Rightarrow> drop (ifs_pos f) (hs_data h i))"

text \<open>\<open>read\<close> of \<open>n\<close> bytes: what was got, fewer when the file ends.\<close>

definition ifs_read :: "ifstream \<Rightarrow> nat \<Rightarrow> host \<Rightarrow> bytes \<times> ifstream" where
  "ifs_read f n h =
     (if \<not> ifs_good f then ([], f)
      else
        let got = take n (ifs_rest f h)
        in (got, f\<lparr>ifs_pos := ifs_pos f + length got, ifs_good := (length got = n)\<rparr>))"

end
