(* ===== verification/Disk_Storage.thy ===== *)
theory Disk_Storage
  imports File_System Storage_Interface
begin

text \<open>
  \<open>Core/Storage/DiskObjectStorage.cpp\<close> with \<open>Streaming/DiskWriteSession.cpp\<close> and
  \<open>Streaming/DiskReadSession.cpp\<close>: objects as files below a root directory. \<open>root\<close> is the member
  \<open>m_rootDir\<close>; the state is the host. A temporary \<open>std::ofstream\<close> is closed, its errors ignored,
  when it goes out of scope.
\<close>

definition DiskObjectStorage_new :: "os_env \<Rightarrow> fs_path \<Rightarrow> host \<Rightarrow> unit outcome \<times> host" where
  "DiskObjectStorage_new env root h =
     (let (ok, h') = fs_create_directories env root h in (if ok then Ret () else Throw, h'))"

text \<open>\<open>std::mismatch\<close> runs to the end of the root exactly when the root is a prefix.\<close>

definition mapPath :: "fs_path \<Rightarrow> string \<Rightarrow> fs_path option" where
  "mapPath root path =
     (if path = [] then None
      else
        let requested = path_of path
        in if path_is_absolute requested then None
           else if list_ex (\<lambda>part. part = ''..'') requested then None
           else
             let targetPath = path_lexically_normal (path_append root requested)
             in if \<not> prefix root targetPath then None else Some targetPath)"

definition DiskObjectStorage_put ::
    "os_env \<Rightarrow> fs_path \<Rightarrow> string \<Rightarrow> bytes \<Rightarrow> host \<Rightarrow> put_result \<times> host" where
  "DiskObjectStorage_put env root path b h =
     (case mapPath root path of
        None \<Rightarrow> (PutInvalidPath, h)
      | Some resolved \<Rightarrow>
          let (ok, h) = fs_create_directories env (path_parent resolved) h
          in if \<not> ok then (PutInvalidPath, h)
             else
               let (file, h) = ofs_open env resolved h
               in if \<not> ofs_good file then (PutInvalidPath, h)
                  else
                    let (file, h) = ofs_write env file b h; (_, h') = ofs_close file h
                    in (if ofs_good file then PutOk else PutInvalidPath, h'))"

text \<open>A directory can be opened, and reading it to the end gives no bytes.\<close>

definition DiskObjectStorage_get :: "os_env \<Rightarrow> fs_path \<Rightarrow> string \<Rightarrow> host \<Rightarrow> bytes option" where
  "DiskObjectStorage_get env root path h =
     (case mapPath root path of
        None \<Rightarrow> None
      | Some resolved \<Rightarrow>
          let file = ifs_open env resolved h
          in if \<not> ifs_good file then None else Some (ifs_rest file h))"

definition DiskObjectStorage_del ::
    "os_env \<Rightarrow> fs_path \<Rightarrow> string \<Rightarrow> host \<Rightarrow> bool \<times> host" where
  "DiskObjectStorage_del env root path h =
     (case mapPath root path of
        None \<Rightarrow> (False, h)
      | Some resolved \<Rightarrow> fs_remove env resolved h)"

text \<open>
  \<open>recursive_directory_iterator\<close> throws when the root is no directory or a directory below it
  cannot be read, \<open>relative\<close> when the entry cannot be accessed. Without links, \<open>relative\<close> drops the
  location of the root.
\<close>

definition tree_below :: "string list \<Rightarrow> host \<Rightarrow> (string list \<times> node) list" where
  "tree_below base h =
     map (\<lambda>(q, n). (drop (length base) q, n)) (filter (\<lambda>(q, n). strict_prefix base q) (hs_nodes h))"

definition is_object_file :: "string list \<times> node \<Rightarrow> bool" where
  "is_object_file e \<longleftrightarrow>
     (case snd e of File _ \<Rightarrow> path_extension (fst e) \<noteq> ''.tmp'' | Dir \<Rightarrow> False)"

definition DiskObjectStorage_keys :: "os_env \<Rightarrow> fs_path \<Rightarrow> host \<Rightarrow> string list outcome" where
  "DiskObjectStorage_keys env root h =
     (case (fs_exists env root h, fs_resolve env root h) of
        (Ret False, _) \<Rightarrow> Ret []
      | (Ret True, WalkAt base) \<Rightarrow>
          if node_at h base \<noteq> Some Dir \<or>
             list_ex (\<lambda>(q, n). (n = Dir \<or> is_object_file (q, n)) \<and> env_refuses env (base @ q))
               (tree_below base h)
          then Throw
          else Ret (map (\<lambda>(q, n). join_slash q) (filter is_object_file (tree_below base h)))
      | _ \<Rightarrow> Throw)"

definition DiskObjectStorage_exists ::
    "os_env \<Rightarrow> fs_path \<Rightarrow> string \<Rightarrow> host \<Rightarrow> bool outcome" where
  "DiskObjectStorage_exists env root path h =
     (case mapPath root path of
        None \<Rightarrow> Ret False
      | Some resolved \<Rightarrow>
          (case fs_exists env resolved h of
             Ret True \<Rightarrow> fs_is_regular_file env resolved h
           | r \<Rightarrow> r))"

text \<open>\<open>setnx\<close> does not look at the state of the stream after writing.\<close>

definition DiskObjectStorage_setnx ::
    "os_env \<Rightarrow> fs_path \<Rightarrow> string \<Rightarrow> bytes \<Rightarrow> host \<Rightarrow> setnx_result outcome \<times> host" where
  "DiskObjectStorage_setnx env root path b h =
     (case mapPath root path of
        None \<Rightarrow> (Ret NxInvalidPath, h)
      | Some resolved \<Rightarrow>
          (case fs_exists env resolved h of
             Ret True \<Rightarrow> (Ret NxAlreadyExists, h)
           | Ret False \<Rightarrow>
               let (ok, h) = fs_create_directories env (path_parent resolved) h
               in if \<not> ok then (Ret NxInvalidPath, h)
                  else
                    let (file, h) = ofs_open env resolved h
                    in if \<not> ofs_good file then (Ret NxInvalidPath, h)
                       else
                         let (file, h) = ofs_write env file b h; (_, h') = ofs_close file h
                         in (Ret NxInserted, h')
           | Throw \<Rightarrow> (Throw, h)
           | Crash \<Rightarrow> (Crash, h)))"

definition DiskObjectStorage_vt :: "os_env \<Rightarrow> fs_path \<Rightarrow> host object_vt" where
  "DiskObjectStorage_vt env root =
     \<lparr>vt_put = DiskObjectStorage_put env root, vt_get = DiskObjectStorage_get env root,
      vt_del = DiskObjectStorage_del env root, vt_keys = DiskObjectStorage_keys env root,
      vt_exists = DiskObjectStorage_exists env root, vt_setnx = DiskObjectStorage_setnx env root\<rparr>"

section \<open>Sessions\<close>

record disk_write =
  dw_tempPath :: fs_path
  dw_finalPath :: fs_path
  dw_file :: ofstream
  dw_finished :: bool

definition DiskWriteSession_new ::
    "os_env \<Rightarrow> fs_path \<Rightarrow> fs_path \<Rightarrow> host \<Rightarrow> disk_write \<times> host" where
  "DiskWriteSession_new env tempPath finalPath h =
     (let (file, h') = ofs_open env tempPath h
      in (\<lparr>dw_tempPath = tempPath, dw_finalPath = finalPath, dw_file = file, dw_finished = False\<rparr>, h'))"

definition DiskWriteSession_writeChunk ::
    "os_env \<Rightarrow> disk_write \<Rightarrow> bytes \<Rightarrow> host \<Rightarrow> bool \<times> disk_write \<times> host" where
  "DiskWriteSession_writeChunk env w chunk h =
     (if \<not> ofs_good (dw_file w) then (False, w, h)
      else
        let (file, h') = ofs_write env (dw_file w) chunk h
        in (ofs_good file, w\<lparr>dw_file := file\<rparr>, h'))"

definition DiskWriteSession_finish ::
    "os_env \<Rightarrow> disk_write \<Rightarrow> host \<Rightarrow> put_result \<times> disk_write \<times> host" where
  "DiskWriteSession_finish env w h =
     (let (file, h1) = ofs_close (dw_file w) h; w' = w\<lparr>dw_file := file\<rparr>
      in if \<not> ofs_good file
         then (PutFailedToWrite, w', snd (fs_remove env (dw_tempPath w) h1))
         else
           let (ok, h2) = fs_rename env (dw_tempPath w) (dw_finalPath w) h1
           in if \<not> ok then (PutFailedToWrite, w', snd (fs_remove env (dw_tempPath w) h2))
              else (PutOk, w'\<lparr>dw_finished := True\<rparr>, h2))"

definition DiskWriteSession_abort :: "os_env \<Rightarrow> disk_write \<Rightarrow> host \<Rightarrow> disk_write \<times> host" where
  "DiskWriteSession_abort env w h =
     (let (file, h1) = ofs_close (dw_file w) h
      in (w\<lparr>dw_file := file\<rparr>, snd (fs_remove env (dw_tempPath w) h1)))"

definition DiskReadSession_new :: "os_env \<Rightarrow> fs_path \<Rightarrow> host \<Rightarrow> ifstream" where
  "DiskReadSession_new env path h = ifs_open env path h"

declare DiskReadSession_new_def [simp]

definition DiskReadSession_readChunk ::
    "ifstream \<Rightarrow> nat \<Rightarrow> host \<Rightarrow> bytes option \<times> ifstream" where
  "DiskReadSession_readChunk r maxBytes h =
     (if \<not> ifs_good r then (None, r)
      else
        let (got, r') = ifs_read r maxBytes h
        in if got = [] then (None, r') else (Some got, r'))"

definition DiskObjectStorage_beginPut ::
    "os_env \<Rightarrow> fs_path \<Rightarrow> string \<Rightarrow> size_t \<Rightarrow> host \<Rightarrow> disk_write begin_put \<times> host" where
  "DiskObjectStorage_beginPut env root path expectedSize h =
     (case mapPath root path of
        None \<Rightarrow> (\<lparr>bp_status = PutInvalidPath, bp_session = None\<rparr>, h)
      | Some resolved \<Rightarrow>
          let (ok, h) = fs_create_directories env (path_parent resolved) h
          in if \<not> ok then (\<lparr>bp_status = PutInvalidPath, bp_session = None\<rparr>, h)
             else
               let (w, h) = DiskWriteSession_new env (path_concat resolved ''.tmp'') resolved h
               in (\<lparr>bp_status = PutOk, bp_session = Some w\<rparr>, h))"

definition DiskObjectStorage_beginGet ::
    "os_env \<Rightarrow> fs_path \<Rightarrow> string \<Rightarrow> host \<Rightarrow> ifstream begin_get" where
  "DiskObjectStorage_beginGet env root path h =
     (case mapPath root path of
        None \<Rightarrow> \<lparr>bg_found = False, bg_size = 0, bg_session = None\<rparr>
      | Some resolved \<Rightarrow>
          (case fs_status env resolved h of
             StFile i \<Rightarrow>
               \<lparr>bg_found = True, bg_size = of_nat (length (hs_data h i)),
                bg_session = Some (DiskReadSession_new env resolved h)\<rparr>
           | _ \<Rightarrow> \<lparr>bg_found = False, bg_size = 0, bg_session = None\<rparr>))"

definition DiskObjectStorage_svt :: "os_env \<Rightarrow> fs_path \<Rightarrow> (host, disk_write, ifstream) streaming_vt" where
  "DiskObjectStorage_svt env root =
     \<lparr>vt_beginPut = DiskObjectStorage_beginPut env root,
      vt_beginGet = DiskObjectStorage_beginGet env root,
      vt_writeChunk = DiskWriteSession_writeChunk env,
      vt_finish = DiskWriteSession_finish env,
      vt_abort = DiskWriteSession_abort env,
      vt_readChunk = DiskReadSession_readChunk\<rparr>"

end
