(* ===== verification/Disk_Invariant.thy ===== *)
theory Disk_Invariant
  imports Disk_Storage
begin

text \<open>
  What the storage keeps of the host: the tree is well formed, the files do not share contents, and
  what exists on the way to the root or below it is accessible. The lemmas say what each operation
  of the file system does to the contents found at a location (\<open>file_at\<close>) and that it keeps the
  invariant.
\<close>

definition disk_start :: "os_env \<Rightarrow> fs_path \<Rightarrow> string list" where
  "disk_start env root = (if path_is_absolute root then [] else env_cwd env)"

definition disk_base :: "os_env \<Rightarrow> fs_path \<Rightarrow> string list" where
  "disk_base env root = disk_start env root @ root_names root"

fun file_content :: "(nat \<Rightarrow> bytes) \<Rightarrow> node \<Rightarrow> bytes option" where
  "file_content d Dir = None"
| "file_content d (File i) = Some (d i)"

definition file_at :: "host \<Rightarrow> string list \<Rightarrow> bytes option" where
  "file_at h q = Option.bind (node_at h q) (file_content (hs_data h))"

definition on_way :: "string list \<Rightarrow> string list \<Rightarrow> bool" where
  "on_way base q \<longleftrightarrow> prefix base q \<or> prefix q base"

definition fs_inv :: "os_env \<Rightarrow> fs_path \<Rightarrow> host \<Rightarrow> bool" where
  "fs_inv env root h \<longleftrightarrow>
     distinct (map fst (hs_nodes h)) \<and>
     (\<forall>q n. node_at h q = Some n \<longrightarrow> list_all plain_name q \<and> node_at h (butlast q) = Some Dir) \<and>
     (\<forall>q n. node_at h q = Some n \<longrightarrow> q \<noteq> [] \<longrightarrow> on_way (disk_base env root) q \<longrightarrow> \<not> env_refuses env q) \<and>
     (\<forall>q i. node_at h q = Some (File i) \<longrightarrow> i < hs_next h) \<and>
     (\<forall>q r i. node_at h q = Some (File i) \<longrightarrow> node_at h r = Some (File i) \<longrightarrow> q = r) \<and>
     node_at h (disk_start env root) = Some Dir"

lemma fs_invD:
  assumes "fs_inv env root h"
  shows "distinct (map fst (hs_nodes h))"
    and "node_at h q = Some n \<Longrightarrow> list_all plain_name q"
    and "node_at h q = Some n \<Longrightarrow> node_at h (butlast q) = Some Dir"
    and "node_at h q = Some n \<Longrightarrow> q \<noteq> [] \<Longrightarrow> on_way (disk_base env root) q \<Longrightarrow> \<not> env_refuses env q"
    and "node_at h q = Some (File i) \<Longrightarrow> i < hs_next h"
    and "node_at h q = Some (File i) \<Longrightarrow> node_at h r = Some (File i) \<Longrightarrow> q = r"
    and "node_at h (disk_start env root) = Some Dir"
  using assms unfolding fs_inv_def by blast+

lemma fs_invI:
  assumes "distinct (map fst (hs_nodes h))"
    and "\<And>q n. node_at h q = Some n \<Longrightarrow> list_all plain_name q \<and> node_at h (butlast q) = Some Dir"
    and "\<And>q n. node_at h q = Some n \<Longrightarrow> q \<noteq> [] \<Longrightarrow> on_way (disk_base env root) q \<Longrightarrow> \<not> env_refuses env q"
    and "\<And>q i. node_at h q = Some (File i) \<Longrightarrow> i < hs_next h"
    and "\<And>q r i. node_at h q = Some (File i) \<Longrightarrow> node_at h r = Some (File i) \<Longrightarrow> q = r"
    and "node_at h (disk_start env root) = Some Dir"
  shows "fs_inv env root h"
  using assms unfolding fs_inv_def by blast

lemma node_at_Nil [simp]: "node_at h [] = Some Dir"
  by (simp add: node_at_def)

lemma node_at_update [simp]:
  "node_at (h\<lparr>hs_data := d\<rparr>) = node_at h" "node_at (h\<lparr>hs_room := r\<rparr>) = node_at h"
  "node_at (h\<lparr>hs_next := k\<rparr>) = node_at h"
  by (simp_all add: fun_eq_iff node_at_def)

lemma node_at_set [simp]: "q \<noteq> [] \<Longrightarrow> node_at (set_node q n h) = (node_at h)(q \<mapsto> n)"
  by (auto simp: fun_eq_iff node_at_def set_node_def update_conv')

lemma node_at_remove [simp]: "q \<noteq> [] \<Longrightarrow> node_at (remove_node q h) = (node_at h)(q := None)"
  by (auto simp: fun_eq_iff node_at_def remove_node_def delete_conv')

lemma set_node_simps [simp]:
  "hs_data (set_node q n h) = hs_data h" "hs_next (set_node q n h) = hs_next h"
  "hs_room (set_node q n h) = hs_room h"
  "hs_data (remove_node q h) = hs_data h" "hs_next (remove_node q h) = hs_next h"
  "hs_room (remove_node q h) = hs_room h"
  by (simp_all add: set_node_def remove_node_def)

lemma file_at_node [simp]:
  "node_at h q = None \<Longrightarrow> file_at h q = None"
  "node_at h q = Some Dir \<Longrightarrow> file_at h q = None"
  "node_at h q = Some (File i) \<Longrightarrow> file_at h q = Some (hs_data h i)"
  by (simp_all add: file_at_def)

lemma file_at_SomeD: "file_at h q = Some b \<Longrightarrow> \<exists>i. node_at h q = Some (File i) \<and> b = hs_data h i"
  by (cases "node_at h q"; cases "the (node_at h q)") auto

lemma file_at_set_file:
  "q \<noteq> [] \<Longrightarrow> file_at (set_node q (File i) h) = (file_at h)(q \<mapsto> hs_data h i)"
  by (auto simp: fun_eq_iff file_at_def)

lemma file_at_remove: "q \<noteq> [] \<Longrightarrow> file_at (remove_node q h) = (file_at h)(q := None)"
  by (auto simp: fun_eq_iff file_at_def)

lemma file_content_upd: "n \<noteq> File i \<Longrightarrow> file_content (d(i := b)) n = file_content d n"
  by (cases n) auto

lemma file_at_data:
  assumes "node_at h q = Some (File i)" "\<And>r. node_at h r = Some (File i) \<Longrightarrow> r = q"
  shows "file_at (h\<lparr>hs_data := (hs_data h)(i := b)\<rparr>) = (file_at h)(q \<mapsto> b)"
proof
  fix r
  show "file_at (h\<lparr>hs_data := (hs_data h)(i := b)\<rparr>) r = ((file_at h)(q \<mapsto> b)) r"
  proof (cases "r = q")
    case True
    with assms(1) show ?thesis by (simp add: file_at_def)
  next
    case False
    with assms(2) have "node_at h r \<noteq> Some (File i)" by blast
    with False show ?thesis
      by (cases "node_at h r") (simp_all add: file_at_def file_content_upd)
  qed
qed

lemma file_at_data_other:
  assumes "\<And>r. node_at h r \<noteq> Some (File i)"
  shows "file_at (h\<lparr>hs_data := (hs_data h)(i := b)\<rparr>) = file_at h"
proof
  fix r
  show "file_at (h\<lparr>hs_data := (hs_data h)(i := b)\<rparr>) r = file_at h r"
    using assms [of r] by (cases "node_at h r") (simp_all add: file_at_def file_content_upd)
qed

lemma file_at_update [simp]:
  "file_at (h\<lparr>hs_room := r\<rparr>) = file_at h" "file_at (h\<lparr>hs_next := k\<rparr>) = file_at h"
  by (simp_all add: fun_eq_iff file_at_def)

lemma butlast_neq: "q \<noteq> [] \<Longrightarrow> butlast q \<noteq> q"
  by (metis append_butlast_last_id append_self_conv list.distinct(1))

section \<open>Walking through the tree\<close>

lemma node_above:
  assumes "fs_inv env root h"
  shows "node_at h (p @ r) = Some n \<Longrightarrow> r \<noteq> [] \<Longrightarrow> node_at h p = Some Dir"
proof (induction r arbitrary: n rule: rev_induct)
  case (snoc x xs)
  then have "node_at h (p @ xs) = Some Dir"
    using fs_invD(3) [OF assms, of "p @ xs @ [x]"] by (simp add: butlast_append)
  with snoc.IH show ?case by (cases xs) auto
qed simp

lemma walk_plain:
  assumes "\<forall>n\<in>set ns. plain_name n" "node_at h cur = Some Dir" "ns \<noteq> []"
    and "fs_walk_from env h cur ns = WalkAt q"
  shows "q = cur @ ns \<and> \<not> env_refuses env q \<and> node_at h (butlast q) = Some Dir"
  using assms
proof (induction ns arbitrary: cur)
  case (Cons n ns)
  show ?case
  proof (cases "ns = []")
    case True
    with Cons.prems show ?thesis by (auto simp: Let_def butlast_append split: if_splits)
  next
    case False
    with Cons.prems have "node_at h (cur @ [n]) = Some Dir"
      "fs_walk_from env h (cur @ [n]) ns = WalkAt q"
      by (auto simp: Let_def split: if_splits)
    with Cons.IH [of "cur @ [n]"] Cons.prems(1) False show ?thesis by auto
  qed
qed simp

lemma walk_then:
  assumes "\<forall>n\<in>set ns. plain_name n" "node_at h cur = Some Dir" "x \<noteq> []"
    and "fs_walk_from env h cur (ns @ x) = WalkAt q"
  shows "node_at h (cur @ ns) = Some Dir \<and> fs_walk_from env h (cur @ ns) x = WalkAt q"
  using assms
proof (induction ns arbitrary: cur)
  case (Cons n ns)
  then have "node_at h (cur @ [n]) = Some Dir"
    "fs_walk_from env h (cur @ [n]) (ns @ x) = WalkAt q"
    by (auto simp: Let_def split: if_splits)
  with Cons.IH [of "cur @ [n]"] Cons.prems(1,3) show ?case by simp
qed simp

lemma walk_reaches:
  assumes "\<forall>n\<in>set ns. plain_name n"
    and "\<forall>p. p \<noteq> [] \<longrightarrow> prefix p (cur @ ns) \<longrightarrow> \<not> env_refuses env p"
    and "\<forall>p. strict_prefix p (cur @ ns) \<longrightarrow> node_at h p = Some Dir"
  shows "fs_walk_from env h cur ns = WalkAt (cur @ ns)"
  using assms
proof (induction ns arbitrary: cur)
  case (Cons n ns)
  have "\<not> env_refuses env (cur @ [n])" using Cons.prems(2) by simp
  moreover have "node_at h (cur @ [n]) = Some Dir" if "ns \<noteq> []"
    using Cons.prems(3) that by (simp add: strict_prefix_def prefix_def)
  moreover have "fs_walk_from env h (cur @ [n]) ns = WalkAt (cur @ n # ns)" if "ns \<noteq> []"
    using Cons.IH [of "cur @ [n]"] Cons.prems by simp
  ultimately show ?case using Cons.prems(1) by (auto simp: Let_def)
qed simp

text \<open>The locations the mapped paths lead to.\<close>

lemma resolve_root:
  assumes "root_ok root" "\<forall>n\<in>set ns. plain_name n"
  shows "fs_resolve env (root @ ns @ x) h =
    fs_walk_from env h (disk_start env root) (root_names root @ ns @ c_path x)"
proof -
  have "\<forall>n\<in>set (root @ ns). CHR 0x00 \<notin> set n"
    using root_ok_facts(6) [OF assms(1)] assms(2) by auto
  then have c: "c_path (root @ ns @ x) = root @ ns @ c_path x"
    using c_path_append [of "root @ ns" x] by simp
  obtain n rs where rs: "root_names root = n # rs" "plain_name n"
    using assms(1) by (cases "root_names root") (auto simp: root_ok_def)
  show ?thesis
  proof (cases "path_is_absolute root")
    case True
    then have "root = ''/'' # root_names root"
      by (cases root) (simp_all add: root_names_def path_is_absolute_def)
    with c have "c_path (root @ ns @ x) = ''/'' # root_names root @ ns @ c_path x" by simp
    with True show ?thesis by (simp add: fs_resolve_def disk_start_def)
  next
    case False
    with c rs show ?thesis by (simp add: fs_resolve_def disk_start_def root_names_def)
  qed
qed

lemma root_names_plain: "root_ok root \<Longrightarrow> \<forall>n\<in>set (root_names root). plain_name n"
  by (simp add: root_ok_def list_all_iff)

lemma resolve_plain:
  assumes "root_ok root" "fs_inv env root h" "\<forall>n\<in>set ns. plain_name n"
    and "fs_resolve env (root @ ns) h = WalkAt q"
  shows "q = disk_base env root @ ns \<and> \<not> env_refuses env q \<and> node_at h (butlast q) = Some Dir"
proof -
  have "fs_walk_from env h (disk_start env root) (root_names root @ ns) = WalkAt q"
    using resolve_root [OF assms(1,3), of env "[]"] assms(4) by simp
  from walk_plain [OF _ fs_invD(7) [OF assms(2)] _ this] show ?thesis
    using assms(1,3) root_names_plain [OF assms(1)] by (auto simp: disk_base_def root_ok_def)
qed

lemma on_way_prefix: "prefix base q \<Longrightarrow> prefix p q \<Longrightarrow> on_way base p"
  unfolding on_way_def using prefix_same_cases by blast

lemma resolve_reaches:
  assumes "root_ok root" "fs_inv env root h" "\<forall>n\<in>set ns. plain_name n"
    and "node_at h (disk_base env root @ ns) \<noteq> None"
  shows "fs_resolve env (root @ ns) h = WalkAt (disk_base env root @ ns)"
proof -
  let ?q = "disk_base env root @ ns"
  have above: "node_at h p = Some Dir" if "strict_prefix p ?q" for p
    using that assms(4) node_above [OF assms(2), of p]
    by (auto simp: strict_prefix_def prefix_def)
  have "\<not> env_refuses env p" if "p \<noteq> []" "prefix p ?q" for p
  proof -
    have "on_way (disk_base env root) p" using that(2) by (intro on_way_prefix) simp_all
    moreover have "node_at h p \<noteq> None"
      using that(2) above [of p] assms(4) by (cases "p = ?q") (auto simp: strict_prefix_def)
    ultimately show ?thesis using fs_invD(4) [OF assms(2)] that(1) by blast
  qed
  with above have "fs_walk_from env h (disk_start env root) (root_names root @ ns) =
      WalkAt (disk_start env root @ root_names root @ ns)"
    using assms(3) root_names_plain [OF assms(1)]
    by (intro walk_reaches) (auto simp: disk_base_def)
  then show ?thesis using resolve_root [OF assms(1,3), of env "[]"] by (simp add: disk_base_def)
qed

text \<open>Where any path at all can lead: to a directory, or to a plain name in one.\<close>

definition path_ok :: "fs_path \<Rightarrow> bool" where
  "path_ok p \<longleftrightarrow> (\<forall>c\<in>set (tl p). CHR ''/'' \<notin> set c) \<and>
     (p \<noteq> [] \<longrightarrow> p ! 0 = ''/'' \<or> CHR ''/'' \<notin> set (p ! 0))"

lemma path_ok_prefix: "path_ok (p @ q) \<Longrightarrow> path_ok p"
  by (cases p) (auto simp: path_ok_def)

lemma c_path_set: "c \<in> set (c_path p) \<Longrightarrow> CHR 0x00 \<notin> set c \<and> (\<exists>d\<in>set p. set c \<subseteq> set d)"
  by (induction p) (auto split: if_splits dest: set_takeWhileD)

lemma walk_leads:
  assumes "fs_inv env root h" "node_at h cur = Some Dir"
    and "\<forall>c\<in>set cs. CHR ''/'' \<notin> set c \<and> CHR 0x00 \<notin> set c"
    and "fs_walk_from env h cur cs = WalkAt q"
  shows "node_at h q = Some Dir \<or>
    list_all plain_name q \<and> q \<noteq> [] \<and> node_at h (butlast q) = Some Dir \<and> \<not> env_refuses env q"
  using assms(2-4)
proof (induction cs arbitrary: cur)
  case (Cons c cs)
  let ?dots = "c = [] \<or> c = ''.'' \<or> c = ''..''"
  show ?case
  proof (cases ?dots)
    case True
    have up: "node_at h (butlast cur) = Some Dir" using fs_invD(3) [OF assms(1) Cons.prems(1)] .
    have cs: "\<forall>c\<in>set cs. CHR ''/'' \<notin> set c \<and> CHR 0x00 \<notin> set c" using Cons.prems(2) by simp
    from True Cons.prems(3) have "fs_walk_from env h cur cs = WalkAt q \<or>
        fs_walk_from env h (butlast cur) cs = WalkAt q" by auto
    then show ?thesis
      using Cons.IH [OF Cons.prems(1) cs] Cons.IH [OF up cs] by blast
  next
    case False
    with Cons.prems(2) have c: "plain_name c" unfolding plain_name_def by simp
    have cur: "list_all plain_name cur" using fs_invD(2) [OF assms(1) Cons.prems(1)] .
    from False Cons.prems(3) have ref: "\<not> env_refuses env (cur @ [c])"
      by (auto simp: Let_def split: if_splits)
    show ?thesis
    proof (cases "cs = []")
      case True
      with False Cons.prems(3) ref have "q = cur @ [c]" by (simp add: Let_def)
      with cur c ref Cons.prems(1) show ?thesis by simp
    next
      case nonempty: False
      with False Cons.prems(3) ref have "node_at h (cur @ [c]) = Some Dir"
        "fs_walk_from env h (cur @ [c]) cs = WalkAt q"
        by (simp_all add: Let_def split: if_splits)
      with Cons.IH [of "cur @ [c]"] Cons.prems(2) show ?thesis by simp
    qed
  qed
qed simp

lemma resolve_leads:
  assumes "fs_inv env root h" "path_is_absolute p \<or> node_at h (env_cwd env) = Some Dir" "path_ok p"
    and "fs_resolve env p h = WalkAt q"
  shows "node_at h q = Some Dir \<or>
    list_all plain_name q \<and> q \<noteq> [] \<and> node_at h (butlast q) = Some Dir \<and> \<not> env_refuses env q"
proof -
  have slash: "CHR ''/'' \<notin> set d" if "d \<in> set (tl p)" for d
    using that assms(3) by (simp add: path_ok_def)
  obtain c cs where c: "c_path p = c # cs"
    using assms(4) by (cases "c_path p") (simp_all add: fs_resolve_def)
  have tl: "\<forall>d\<in>set cs. CHR ''/'' \<notin> set d \<and> CHR 0x00 \<notin> set d"
  proof
    fix d assume d: "d \<in> set cs"
    have "cs = c_path (tl p) \<or> cs = []" using c by (cases p) (auto split: if_splits)
    with d have "d \<in> set (c_path (tl p))" by auto
    from c_path_set [OF this] slash show "CHR ''/'' \<notin> set d \<and> CHR 0x00 \<notin> set d" by blast
  qed
  have "CHR ''/'' \<notin> set c \<and> CHR 0x00 \<notin> set c" if "c \<noteq> ''/''"
  proof -
    obtain d ds where d: "p = d # ds" using c by (cases p) simp_all
    have "d \<noteq> ''/'' \<or> c = ''/''" using c d by auto
    with that assms(3) d have "CHR ''/'' \<notin> set d" by (auto simp: path_ok_def)
    moreover have "set c \<subseteq> set d" using c d by (auto split: if_splits dest: set_takeWhileD)
    ultimately show ?thesis using c_path_set [of c p] c by auto
  qed
  note c_ok = this
  show ?thesis
  proof (cases "c = ''/''")
    case True
    with assms(4) c have "fs_walk_from env h [] cs = WalkAt q" by (simp add: fs_resolve_def)
    from walk_leads [OF assms(1) _ tl this] show ?thesis by simp
  next
    case False
    with assms(4) c have w: "fs_walk_from env h (env_cwd env) (c # cs) = WalkAt q"
      by (simp add: fs_resolve_def del: fs_walk_from.simps)
    have "\<not> path_is_absolute p"
      using False c by (cases p) (auto simp: path_is_absolute_def)
    with assms(2) have "node_at h (env_cwd env) = Some Dir" by simp
    moreover have "\<forall>d\<in>set (c # cs). CHR ''/'' \<notin> set d \<and> CHR 0x00 \<notin> set d"
      using c_ok [OF False] tl by simp
    ultimately show ?thesis using walk_leads [OF assms(1) _ _ w] by blast
  qed
qed

section \<open>The operations keep the invariant\<close>

lemma fs_inv_data [simp]:
  "fs_inv env root (h\<lparr>hs_data := d\<rparr>) = fs_inv env root h"
  "fs_inv env root (h\<lparr>hs_room := r\<rparr>) = fs_inv env root h"
  by (simp_all add: fs_inv_def)

lemma fs_inv_next: "fs_inv env root h \<Longrightarrow> fs_inv env root (h\<lparr>hs_next := Suc (hs_next h)\<rparr>)"
  unfolding fs_inv_def by (simp add: less_Suc_eq)

lemma fs_inv_set:
  assumes inv: "fs_inv env root h" and q: "list_all plain_name q" "q \<noteq> []" "\<not> env_refuses env q"
    and up: "node_at h (butlast q) = Some Dir" and old: "node_at h q \<noteq> Some Dir"
    and n: "n = Dir \<and> node_at h q = None \<or>
      (\<exists>i < hs_next h. n = File i \<and> (\<forall>r. r \<noteq> q \<longrightarrow> node_at h r \<noteq> Some (File i)))"
  shows "fs_inv env root (set_node q n h)"
proof -
  have dist: "distinct (map fst (hs_nodes (set_node q n h)))"
    using fs_invD(1) [OF inv] by (simp add: set_node_def distinct_update)
  have below: "node_at h r = Some m \<Longrightarrow> butlast r \<noteq> q" for r m
    using fs_invD(3) [OF inv, of r m] old by auto
  have start: "disk_start env root \<noteq> q" using fs_invD(7) [OF inv] old by auto
  show ?thesis
    unfolding fs_inv_def
    using dist inv q up n below start butlast_neq [OF q(2)]
    by (simp add: fs_inv_def) blast
qed

lemma fs_inv_remove:
  assumes inv: "fs_inv env root h" and q: "q \<noteq> []" "disk_start env root \<noteq> q"
    and below: "\<And>r m. node_at h r = Some m \<Longrightarrow> butlast r = q \<Longrightarrow> r = q"
  shows "fs_inv env root (remove_node q h)"
proof -
  have dist: "distinct (map fst (hs_nodes (remove_node q h)))"
    using fs_invD(1) [OF inv] by (simp add: remove_node_def distinct_delete)
  have below': "r \<noteq> q \<Longrightarrow> butlast r = q \<Longrightarrow> node_at h r = None" for r
    using below [of r] by (cases "node_at h r") auto
  note [simp] = node_at_remove [OF q(1)]
  have node: "node_at (remove_node q h) r = Some m \<Longrightarrow> r \<noteq> q \<and> node_at h r = Some m" for r m
    by (simp split: if_splits)
  have up: "node_at (remove_node q h) (butlast r) = Some Dir"
    if "node_at (remove_node q h) r = Some m" for r m
    using node [OF that] below' [of r] fs_invD(3) [OF inv, of r m] by auto
  have start: "node_at (remove_node q h) (disk_start env root) = Some Dir"
    using fs_invD(7) [OF inv] q(2) by simp
  show ?thesis
  proof (rule fs_invI)
    fix r m
    assume r: "node_at (remove_node q h) r = Some m"
    show "list_all plain_name r \<and> node_at (remove_node q h) (butlast r) = Some Dir"
      using up [OF r] fs_invD(2) [OF inv] node [OF r] by blast
    show "r \<noteq> [] \<Longrightarrow> on_way (disk_base env root) r \<Longrightarrow> \<not> env_refuses env r"
      using fs_invD(4) [OF inv] node [OF r] by blast
  next
    fix r i
    assume r: "node_at (remove_node q h) r = Some (File i)"
    show "i < hs_next (remove_node q h)" using fs_invD(5) [OF inv] node [OF r] by auto
    show "node_at (remove_node q h) p = Some (File i) \<Longrightarrow> r = p" for p
      using fs_invD(6) [OF inv] node [OF r] node [of p "File i"] by blast
  qed (use dist start in simp_all)
qed

text \<open>Some directories have been added, and nothing else has changed.\<close>

definition grown :: "host \<Rightarrow> host \<Rightarrow> bool" where
  "grown h h' \<longleftrightarrow>
     (\<forall>q. node_at h q \<noteq> None \<longrightarrow> node_at h' q = node_at h q) \<and>
     (\<forall>q. node_at h' q \<noteq> node_at h q \<longrightarrow> node_at h' q = Some Dir) \<and>
     hs_data h' = hs_data h \<and> hs_next h' = hs_next h \<and> hs_room h' = hs_room h"

lemma grown_refl [simp]: "grown h h"
  by (simp add: grown_def)

lemma grown_trans: "grown h1 h2 \<Longrightarrow> grown h2 h3 \<Longrightarrow> grown h1 h3"
  unfolding grown_def by metis

lemma grown_node: "grown h h' \<Longrightarrow> node_at h q = Some n \<Longrightarrow> node_at h' q = Some n"
  by (simp add: grown_def)

lemma grown_file_at: "grown h h' \<Longrightarrow> file_at h' = file_at h"
proof
  fix q
  assume g: "grown h h'"
  show "file_at h' q = file_at h q"
  proof (cases "node_at h' q = node_at h q")
    case True
    then show ?thesis using g by (simp add: file_at_def grown_def)
  next
    case False
    with g have "node_at h' q = Some Dir" "node_at h q = None" by (auto simp: grown_def)
    then show ?thesis by (simp add: file_at_def)
  qed
qed

definition anchored :: "os_env \<Rightarrow> fs_path \<Rightarrow> host \<Rightarrow> bool" where
  "anchored env p h \<longleftrightarrow> path_is_absolute p \<or> node_at h (env_cwd env) = Some Dir"

lemma mkdirs_grown:
  assumes "fs_inv env root h" "anchored env (done @ cs) h" "path_ok (done @ cs)"
    and "fs_mkdirs env done cs h = (ok, h')"
  shows "fs_inv env root h' \<and> grown h h'"
  using assms
proof (induction cs arbitrary: "done" h)
  case (Cons c cs)
  have step: "fs_inv env root h' \<and> grown h h'"
    if "fs_inv env root h1" "grown h h1" "fs_mkdirs env (done @ [c]) cs h1 = (ok, h')" for h1
  proof -
    have "anchored env ((done @ [c]) @ cs) h1"
      using Cons.prems(2) grown_node [OF that(2)] by (auto simp: anchored_def)
    with Cons.IH [OF that(1) this _ that(3)] Cons.prems(3) grown_trans [OF that(2)]
    show ?thesis by simp
  qed
  have stop: "fs_inv env root h \<and> grown h h" using Cons.prems(1) by simp
  show ?case
  proof (cases "fs_status env (done @ [c]) h")
    case StDir
    with step [OF Cons.prems(1)] Cons.prems(4) show ?thesis by simp
  next
    case StNotFound
    show ?thesis
    proof (cases "fs_resolve env (done @ [c]) h")
      case (WalkAt q)
      with StNotFound have none: "node_at h q = None"
        by (auto simp: fs_status_def split: option.splits node.splits)
      have "path_is_absolute (done @ [c]) \<or> node_at h (env_cwd env) = Some Dir"
        using Cons.prems(2) by (cases "done") (auto simp: anchored_def path_is_absolute_def)
      from resolve_leads [OF Cons.prems(1) this _ WalkAt]
      have q: "list_all plain_name q" "q \<noteq> []" "node_at h (butlast q) = Some Dir" "\<not> env_refuses env q"
        using none path_ok_prefix [of "done @ [c]" cs] Cons.prems(3) by auto
      then have "fs_inv env root (set_node q Dir h)"
        using none Cons.prems(1) by (intro fs_inv_set) auto
      moreover have "grown h (set_node q Dir h)" using q(2) none by (auto simp: grown_def)
      ultimately show ?thesis
        using step [of "set_node q Dir h"] Cons.prems(4) StNotFound WalkAt by simp
    qed (use StNotFound Cons.prems stop in auto)
  qed (use Cons.prems stop in auto)
qed simp

lemma create_directories_grown:
  assumes "fs_inv env root h" "anchored env p h" "path_ok p"
    and "fs_create_directories env p h = (ok, h')"
  shows "fs_inv env root h' \<and> grown h h'"
  using assms mkdirs_grown [of env root h "[]" p ok h']
  by (auto simp: fs_create_directories_def split: if_splits)

text \<open>Opening a file for writing empties it, or adds an empty one.\<close>

lemma fresh_file:
  assumes inv: "fs_inv env root h" and "node_at h q = None" and q: "list_all plain_name q" "node_at h (butlast q) = Some Dir"
    "\<not> env_refuses env q" "q \<noteq> []"
  defines "h' \<equiv> (set_node q (File (hs_next h)) h)\<lparr>hs_data := (hs_data h)(hs_next h := []), hs_next := Suc (hs_next h)\<rparr>"
  shows "fs_inv env root h' \<and> file_at h' = (file_at h)(q \<mapsto> [])"
proof
  let ?n = "hs_next h" and ?h = "h\<lparr>hs_next := Suc (hs_next h)\<rparr>"
  have fresh: "node_at h r \<noteq> Some (File ?n)" for r using fs_invD(5) [OF inv, of r ?n] by auto
  have h': "h' = (set_node q (File ?n) ?h)\<lparr>hs_data := (hs_data h)(?n := [])\<rparr>" by (simp add: h'_def set_node_def)
  have "fs_inv env root (set_node q (File ?n) ?h)"
    using assms(2) q fresh by (intro fs_inv_set) (auto intro: fs_inv_next [OF inv])
  then show "fs_inv env root h'" by (simp add: h')
  have "file_at ((set_node q (File ?n) ?h)\<lparr>hs_data := (hs_data (set_node q (File ?n) ?h))(?n := [])\<rparr>) =
      (file_at (set_node q (File ?n) ?h))(q \<mapsto> [])"
    by (rule file_at_data) (use q(4) fresh in \<open>auto split: if_splits\<close>)
  then show "file_at h' = (file_at h)(q \<mapsto> [])" using q(4) by (simp add: h' file_at_set_file)
qed

lemma ofs_open_keeps:
  assumes inv: "fs_inv env root h" and "anchored env p h" "path_ok p"
    and op: "ofs_open env p h = (f, h')" and good: "ofs_good f"
  shows "\<exists>q i. fs_resolve env p h = WalkAt q \<and> q \<noteq> [] \<and>
    f = \<lparr>ofs_file = Some i, ofs_pos = 0, ofs_buf = [], ofs_good = True\<rparr> \<and>
    fs_inv env root h' \<and> file_at h' = (file_at h)(q \<mapsto> []) \<and> hs_room h' = hs_room h \<and>
    node_at h' = (node_at h)(q \<mapsto> File i) \<and> node_at h q \<noteq> Some Dir"
proof -
  obtain q where q: "fs_resolve env p h = WalkAt q"
    using op good by (auto simp: ofs_open_def Let_def split: fs_walk.splits)
  have dir: "node_at h q \<noteq> Some Dir"
    using op good q by (auto simp: ofs_open_def Let_def)
  then have ne: "q \<noteq> []" by auto
  have plain: "list_all plain_name q" "node_at h (butlast q) = Some Dir" "\<not> env_refuses env q"
    using resolve_leads [OF inv _ assms(3) q] assms(2) dir by (auto simp: anchored_def)
  show ?thesis
  proof (cases "node_at h q")
    case (Some n)
    with dir obtain i where i: "node_at h q = Some (File i)" by (cases n) auto
    with op q have "f = \<lparr>ofs_file = Some i, ofs_pos = 0, ofs_buf = [], ofs_good = True\<rparr>"
      "h' = h\<lparr>hs_data := (hs_data h)(i := [])\<rparr>" by (auto simp: ofs_open_def)
    moreover have "file_at (h\<lparr>hs_data := (hs_data h)(i := [])\<rparr>) = (file_at h)(q \<mapsto> [])"
      using fs_invD(6) [OF inv _ i] by (intro file_at_data i)
    moreover have "(node_at h)(q \<mapsto> File i) = node_at h" using i by auto
    ultimately show ?thesis using q ne inv i by (intro exI [of _ q] exI [of _ i]) simp
  next
    case None
    with op q have "f = \<lparr>ofs_file = Some (hs_next h), ofs_pos = 0, ofs_buf = [], ofs_good = True\<rparr>"
      "h' = (set_node q (File (hs_next h)) h)\<lparr>hs_data := (hs_data h)(hs_next h := []), hs_next := Suc (hs_next h)\<rparr>"
      by (auto simp: ofs_open_def)
    with fresh_file [OF inv None plain ne] q ne None show ?thesis
      by (intro exI [of _ q] exI [of _ "hs_next h"]) simp
  qed
qed

lemma ofs_open_fails: "ofs_open env p h = (f, h') \<Longrightarrow> \<not> ofs_good f \<Longrightarrow> h' = h \<and> ofs_file f = None"
  by (auto simp: ofs_open_def Let_def split: fs_walk.splits option.splits node.splits)

section \<open>Streams\<close>

text \<open>A write changes the contents of the stream's own file at most.\<close>

lemma ofs_write_host:
  assumes "ofs_write env f b h = (f', h')"
  shows "ofs_file f' = ofs_file f \<and>
    (case ofs_file f of None \<Rightarrow> h' = h
     | Some i \<Rightarrow> \<exists>x r. h' = h\<lparr>hs_data := (hs_data h)(i := x), hs_room := r\<rparr> \<and> (hs_room h = None \<longrightarrow> r = None))"
proof -
  have same: "\<exists>x r. h = h\<lparr>hs_data := (hs_data h)(i := x), hs_room := r\<rparr> \<and> (hs_room h = None \<longrightarrow> r = None)" for i
    by (intro exI [of _ "hs_data h i"] exI [of _ "hs_room h"]) simp
  show ?thesis
    using assms same
    by (auto simp: ofs_write_def fs_write_def Let_def split: bool.splits option.splits if_splits)
qed

lemma ofs_close_host:
  assumes "ofs_close f h = (f', h')"
  shows "ofs_file f' = None \<and>
    (case ofs_file f of None \<Rightarrow> h' = h
     | Some i \<Rightarrow> \<exists>x r. h' = h\<lparr>hs_data := (hs_data h)(i := x), hs_room := r\<rparr> \<and> (hs_room h = None \<longrightarrow> r = None))"
proof -
  have same: "\<exists>x r. h = h\<lparr>hs_data := (hs_data h)(i := x), hs_room := r\<rparr> \<and> (hs_room h = None \<longrightarrow> r = None)" for i
    by (intro exI [of _ "hs_data h i"] exI [of _ "hs_room h"]) simp
  show ?thesis
    using assms same by (auto simp: ofs_close_def fs_write_def Let_def split: option.splits if_splits)
qed

text \<open>
  The bytes a stream has taken so far: those in its file, which it has written from the start, and
  those in its buffer.
\<close>

definition ofs_holds :: "ofstream \<Rightarrow> nat \<Rightarrow> bytes \<Rightarrow> host \<Rightarrow> bool" where
  "ofs_holds f i b h \<longleftrightarrow>
     ofs_good f \<and> ofs_file f = Some i \<and> hs_data h i @ ofs_buf f = b \<and>
     ofs_pos f = length (hs_data h i)"

lemma splice_end [simp]: "splice old (length old) new = old @ new"
  by (simp add: splice_def)

lemma ofs_write_holds:
  assumes "ofs_holds f i b h" "hs_room h = None" "ofs_write env f c h = (f', h')"
  shows "ofs_holds f' i (b @ c) h' \<and> (\<exists>x. h' = h\<lparr>hs_data := (hs_data h)(i := x)\<rparr>)"
proof (cases "env_buffers env (length (ofs_buf f)) (length c)")
  case True
  with assms have "f' = f\<lparr>ofs_buf := ofs_buf f @ c\<rparr>" "h' = h"
    by (auto simp: ofs_write_def ofs_holds_def)
  moreover have "\<exists>x. h = h\<lparr>hs_data := (hs_data h)(i := x)\<rparr>"
    by (intro exI [of _ "hs_data h i"]) simp
  ultimately show ?thesis using assms(1) by (auto simp: ofs_holds_def)
next
  case False
  with assms have "f' = f\<lparr>ofs_pos := ofs_pos f + length (ofs_buf f @ c), ofs_buf := []\<rparr>"
    "h' = h\<lparr>hs_data := (hs_data h)(i := b @ c)\<rparr>"
    by (auto simp: ofs_write_def ofs_holds_def fs_write_def Let_def)
  then show ?thesis using assms(1) by (auto simp: ofs_holds_def)
qed

lemma ofs_close_holds:
  assumes "ofs_holds f i b h" "hs_room h = None" "ofs_close f h = (f', h')"
  shows "ofs_good f' \<and> ofs_file f' = None \<and> h' = h\<lparr>hs_data := (hs_data h)(i := b)\<rparr>"
proof (cases "ofs_buf f = []")
  case True
  with assms have "f' = f\<lparr>ofs_file := None\<rparr>" "h' = h" "hs_data h i = b"
    by (auto simp: ofs_close_def ofs_holds_def)
  then show ?thesis using assms(1) by (auto simp: ofs_holds_def)
next
  case False
  with assms show ?thesis
    by (auto simp: ofs_close_def ofs_holds_def fs_write_def Let_def)
qed

section \<open>Removing and renaming\<close>

lemma fs_remove_keeps:
  assumes inv: "fs_inv env root h" and q: "fs_resolve env p h = WalkAt q" "disk_start env root \<noteq> q"
    and op: "fs_remove env p h = (d, h')"
  shows "fs_inv env root h' \<and> hs_room h' = hs_room h \<and>
    (if d then q \<noteq> [] \<and> h' = remove_node q h \<and> file_at h' = (file_at h)(q := None) else h' = h)"
proof (cases d)
  case False
  with op q inv show ?thesis
    by (auto simp: fs_remove_def split: option.splits node.splits if_splits)
next
  case True
  then have h': "h' = remove_node q h" and ne: "q \<noteq> []"
    using op q(1) by (auto simp: fs_remove_def split: option.splits node.splits if_splits)
  have "r = q" if r: "node_at h r = Some m" "butlast r = q" for r m
  proof (rule ccontr)
    assume "r \<noteq> q"
    with r(2) ne have "r \<noteq> []" by auto
    with r(2) have r': "r = q @ [last r]" by (metis append_butlast_last_id)
    then have "node_at h q = Some Dir" using node_above [OF inv, of q "[last r]"] r(1) by simp
    moreover have "strict_prefix q r" using r' by (metis strict_prefix_simps(3) prefixI
        \<open>r \<noteq> q\<close> strict_prefix_def)
    moreover have "(r, m) \<in> set (hs_nodes h)"
      using r(1) \<open>r \<noteq> []\<close> by (simp add: node_at_def map_of_SomeD)
    ultimately show False
      using op True q(1) by (auto simp: fs_remove_def list_ex_iff split: if_splits)
  qed
  then have "fs_inv env root (remove_node q h)" using ne q(2) by (intro fs_inv_remove [OF inv])
  then show ?thesis using True ne by (simp add: h' file_at_remove)
qed

lemma fs_remove_none: "\<forall>q. fs_resolve env p h \<noteq> WalkAt q \<Longrightarrow> fs_remove env p h = (False, h)"
  by (cases "fs_resolve env p h") (auto simp: fs_remove_def)

text \<open>A file renamed to a name in a directory takes its contents there.\<close>

lemma fs_rename_file:
  assumes inv: "fs_inv env root h" and q: "fs_resolve env p h = WalkAt q" "node_at h q = Some (File i)"
    and r: "fs_resolve env p' h = WalkAt r" "list_all plain_name r" "\<not> env_refuses env r"
      "node_at h (butlast r) = Some Dir"
    and "q \<noteq> r"
    and op: "fs_rename env p p' h = (ok, h')"
  shows "fs_inv env root h' \<and> hs_room h' = hs_room h \<and>
    (if ok then file_at h' = (file_at h)(q := None, r \<mapsto> hs_data h i) else h' = h)"
proof (cases ok)
  case False
  with op q r(1) inv show ?thesis
    by (auto simp: fs_rename_def split: option.splits node.splits if_splits)
next
  case True
  have ne: "q \<noteq> []" using q(2) by auto
  have dir: "node_at h r \<noteq> Some Dir" and h': "h' = set_node r (File i) (remove_node q h)"
    using op True q r(1) \<open>q \<noteq> r\<close> by (auto simp: fs_rename_def split: option.splits node.splits if_splits)
  then have ner: "r \<noteq> []" by auto
  have "butlast p = q \<Longrightarrow> node_at h p = Some m \<Longrightarrow> p = q" for p m
    using fs_invD(3) [OF inv, of p m] q(2) by auto
  then have inv': "fs_inv env root (remove_node q h)"
    using fs_invD(7) [OF inv] q(2) by (intro fs_inv_remove [OF inv ne]) auto
  have "fs_inv env root (set_node r (File i) (remove_node q h))"
  proof (rule fs_inv_set [OF inv' r(2) ner r(3)])
    show "node_at (remove_node q h) (butlast r) = Some Dir" using r(4) q(2) ne by auto
    show "node_at (remove_node q h) r \<noteq> Some Dir" using dir ne by simp
    have "node_at (remove_node q h) p \<noteq> Some (File i)" for p
      using fs_invD(6) [OF inv q(2), of p] ne by auto
    then show "File i = Dir \<and> node_at (remove_node q h) r = None \<or>
        (\<exists>ia<hs_next (remove_node q h). File i = File ia \<and>
           (\<forall>ra. ra \<noteq> r \<longrightarrow> node_at (remove_node q h) ra \<noteq> Some (File ia)))"
      using fs_invD(5) [OF inv q(2)] by auto
  qed
  then show ?thesis using True ne ner by (simp add: h' file_at_set_file file_at_remove)
qed

end
