(* ===== verification/Disk_Contract.thy ===== *)
theory Disk_Contract
  imports Disk_Invariant
begin

text \<open>
  The disk storage keeps the contract of an object storage for canonical keys: names separated by
  single slashes, none of them a dot name or holding a NUL, the last without the extension
  \<open>.tmp\<close>. The contract is for a device that does not fill up; what happens on a full one is a
  property of its own.
\<close>

definition key_names :: "string \<Rightarrow> string list" where
  "key_names k = split_on CHR ''/'' k"

definition good_key :: "string \<Rightarrow> bool" where
  "good_key k \<longleftrightarrow> list_all plain_name (key_names k) \<and> name_extension (last (key_names k)) \<noteq> ''.tmp''"

definition disk_inv :: "os_env \<Rightarrow> fs_path \<Rightarrow> host \<Rightarrow> bool" where
  "disk_inv env root h \<longleftrightarrow> root_ok root \<and> fs_inv env root h \<and> hs_room h = None \<and>
     (\<forall>q. prefix q (disk_base env root) \<longrightarrow> file_at h q = None)"

definition disk_view :: "os_env \<Rightarrow> fs_path \<Rightarrow> host \<Rightarrow> string \<Rightarrow> bytes option" where
  "disk_view env root h k =
     (if good_key k then file_at h (disk_base env root @ key_names k) else None)"

lemma key_names_ne [simp]: "key_names k \<noteq> []"
  by (simp add: key_names_def)

lemma key_names_inj [simp]: "key_names k = key_names k' \<longleftrightarrow> k = k'"
  using join_split by (metis key_names_def)

lemma good_key_plain: "good_key k \<Longrightarrow> \<forall>n\<in>set (key_names k). plain_name n"
  by (simp add: good_key_def list_all_iff)

lemma good_key_path: "good_key k \<Longrightarrow> path_of k = key_names k"
  using path_of_join [of "key_names k"] good_key_plain [of k] by (simp add: key_names_def join_split)

lemma good_key_nonempty: "good_key k \<Longrightarrow> k \<noteq> []"
proof
  assume "good_key k" "k = []"
  then have "plain_name []" using good_key_plain [of k] by (simp add: key_names_def)
  then show False unfolding plain_name_def by blast
qed

lemma mapPath_good:
  assumes "root_ok root" "good_key k"
  shows "mapPath root k = Some (root @ key_names k)"
proof -
  have plain: "\<forall>n\<in>set (key_names k). plain_name n" using good_key_plain [OF assms(2)] .
  then have "\<forall>n\<in>set (key_names k). file_name n" by (simp add: plain_file_name)
  then have filter: "filter file_name (key_names k) = key_names k" by simp
  have first: "plain_name (key_names k ! 0)" and last: "plain_name (last (key_names k))"
    using plain by (simp_all add: nth_mem)
  then have abs: "\<not> path_is_absolute (key_names k)" by (simp add: path_is_absolute_def)
  have trail: "trail (key_names k) = []" using last by (simp add: trail_def)
  have norm: "path_lexically_normal (path_append root (key_names k)) = root @ key_names k"
    using normal_root_append [OF assms(1) key_names_ne abs] plain
    by (simp add: filter trail plain_file_name)
  have "\<not> list_ex (\<lambda>part. part = ''..'') (key_names k)"
    using plain by (auto simp: list_ex_iff)
  with abs norm show ?thesis
    by (simp add: mapPath_def good_key_path [OF assms(2)] good_key_nonempty [OF assms(2)])
qed

lemma path_parent_key: "root_ok root \<Longrightarrow> path_parent (root @ key_names k) = root @ butlast (key_names k)"
  by (auto simp: path_parent_def butlast_append root_ok_facts(1) append_eq_Cons_conv)

lemma anchored_root:
  assumes "fs_inv env root h" "root_ok root"
  shows "anchored env (root @ x) h"
  using fs_invD(7) [OF assms(1)] root_ok_facts(1) [OF assms(2)]
  by (auto simp: anchored_def disk_start_def path_is_absolute_def nth_append split: if_splits)

lemma path_ok_root:
  assumes "root_ok root" "\<forall>n\<in>set x. CHR ''/'' \<notin> set n"
  shows "path_ok (root @ x)"
proof -
  obtain pre where pre: "root = pre @ root_names root" "pre = [] \<or> pre = [''/'']"
    by (rule root_ok_split [OF assms(1)])
  have "\<forall>n\<in>set (root_names root). CHR ''/'' \<notin> set n"
    using root_names_plain [OF assms(1)] by simp
  moreover obtain n ns where ns: "root_names root = n # ns"
    using assms(1) by (cases "root_names root") (auto simp: root_ok_def)
  ultimately have "path_ok (pre @ root_names root @ x)"
    using pre(2) assms(2) by (auto simp: path_ok_def)
  with pre(1) show ?thesis by (metis append.assoc)
qed

text \<open>The directories above an object do not show, and opening a file makes it empty.\<close>

lemma dirs_view:
  assumes inv: "disk_inv env root h" and k: "good_key k"
    and op: "fs_create_directories env (path_parent (root @ key_names k)) h = (ok, h')"
  shows "disk_inv env root h' \<and> file_at h' = file_at h \<and> disk_view env root h' = disk_view env root h"
proof -
  have ok: "root_ok root" and fs: "fs_inv env root h" using inv by (auto simp: disk_inv_def)
  have "path_ok (root @ butlast (key_names k))"
    using good_key_plain [OF k] by (auto intro!: path_ok_root [OF ok] dest: in_set_butlastD)
  with create_directories_grown [OF fs anchored_root [OF fs ok]] op
  have h': "fs_inv env root h'" "grown h h'" by (simp_all add: path_parent_key [OF ok])
  with grown_file_at [OF h'(2)] inv show ?thesis
    by (simp add: disk_inv_def disk_view_def fun_eq_iff grown_def)
qed

lemma open_below:
  assumes inv: "disk_inv env root h" and ns: "\<forall>n\<in>set ns. plain_name n"
    and op: "ofs_open env (root @ ns) h = (f, h')" "ofs_good f"
  shows "\<exists>i. node_at h' (disk_base env root @ ns) = Some (File i) \<and> ofs_holds f i [] h' \<and> fs_inv env root h' \<and>
    hs_room h' = None \<and> file_at h' = (file_at h)(disk_base env root @ ns \<mapsto> [])"
proof -
  have ok: "root_ok root" and fs: "fs_inv env root h" and room: "hs_room h = None"
    using inv by (auto simp: disk_inv_def)
  have "path_ok (root @ ns)" using ns by (auto intro!: path_ok_root [OF ok])
  from ofs_open_keeps [OF fs anchored_root [OF fs ok] this op] obtain q i where
    q: "fs_resolve env (root @ ns) h = WalkAt q"
    and f: "f = \<lparr>ofs_file = Some i, ofs_pos = 0, ofs_buf = [], ofs_good = True\<rparr>"
    and h': "fs_inv env root h'" "file_at h' = (file_at h)(q \<mapsto> [])" "hs_room h' = hs_room h"
      "node_at h' = (node_at h)(q \<mapsto> File i)" by auto
  have "file_at h' q = Some (hs_data h' i)" using h'(4) by simp
  then have "ofs_holds f i [] h'" using h'(2) f by (simp add: ofs_holds_def)
  moreover have "q = disk_base env root @ ns" using resolve_plain [OF ok fs ns q] by simp
  ultimately show ?thesis using h' room by auto
qed

text \<open>The steps that \<open>put\<close> and \<open>setnx\<close> share.\<close>

lemma store_object:
  assumes inv: "disk_inv env root h" and k: "good_key k"
    and dirs: "fs_create_directories env (path_parent (root @ key_names k)) h = (ok, h1)"
    and op: "ofs_open env (root @ key_names k) h1 = (f, h2)"
  shows "disk_inv env root h1 \<and> disk_view env root h1 = disk_view env root h \<and>
    (\<not> ofs_good f \<longrightarrow> h2 = h1) \<and>
    (ofs_good f \<longrightarrow> ofs_write env f b h2 = (f', h3) \<longrightarrow> ofs_close f' h3 = (f'', h4) \<longrightarrow>
      ofs_good f' \<and> disk_inv env root h4 \<and> disk_view env root h4 = (disk_view env root h)(k \<mapsto> b))"
proof (intro conjI impI)
  let ?q = "disk_base env root @ key_names k"
  note h1 = dirs_view [OF inv k dirs]
  then show "disk_inv env root h1" "disk_view env root h1 = disk_view env root h" by simp_all
  show "h2 = h1" if "\<not> ofs_good f" using ofs_open_fails [OF op that] by simp
  assume good: "ofs_good f" and wr: "ofs_write env f b h2 = (f', h3)"
    and cl: "ofs_close f' h3 = (f'', h4)"
  from open_below [OF _ good_key_plain [OF k] op good] h1 obtain i where
    i: "node_at h2 ?q = Some (File i)" "ofs_holds f i [] h2" and h2: "fs_inv env root h2" "hs_room h2 = None"
      "file_at h2 = (file_at h)(?q \<mapsto> [])" by auto
  from ofs_write_holds [OF i(2) h2(2) wr] obtain x where
    f': "ofs_holds f' i b h3" and h3: "h3 = h2\<lparr>hs_data := (hs_data h2)(i := x)\<rparr>" by auto
  then show "ofs_good f'" by (simp add: ofs_holds_def)
  have "hs_room h3 = None" using h3 h2(2) by simp
  from ofs_close_holds [OF f' this cl] have h4: "h4 = h2\<lparr>hs_data := (hs_data h2)(i := b)\<rparr>"
    by (simp add: h3)
  have "file_at h4 = (file_at h2)(?q \<mapsto> b)"
    unfolding h4 using fs_invD(6) [OF h2(1)] i(1) by (intro file_at_data) auto
  then have at: "file_at h4 = (file_at h)(?q \<mapsto> b)" using h2(3) by simp
  have "\<not> prefix ?q (disk_base env root)" by (auto simp: prefix_def)
  then show "disk_inv env root h4" using inv h2(1,2) at by (auto simp: disk_inv_def h4)
  show "disk_view env root h4 = (disk_view env root h)(k \<mapsto> b)"
    using k by (auto simp: fun_eq_iff disk_view_def at)
qed

lemma status_location:
  assumes ok: "root_ok root" and fs: "fs_inv env root h" and k: "good_key k"
  shows "fs_status env (root @ key_names k) h = StFile i \<longleftrightarrow>
    node_at h (disk_base env root @ key_names k) = Some (File i)"
proof
  show "node_at h (disk_base env root @ key_names k) = Some (File i)"
    if "fs_status env (root @ key_names k) h = StFile i"
    using that resolve_plain [OF ok fs good_key_plain [OF k]]
    by (auto simp: fs_status_def split: fs_walk.splits option.splits node.splits)
  show "fs_status env (root @ key_names k) h = StFile i"
    if "node_at h (disk_base env root @ key_names k) = Some (File i)"
    using that resolve_reaches [OF ok fs good_key_plain [OF k]] by (simp add: fs_status_def)
qed

lemma status_key:
  assumes "disk_inv env root h" "good_key k"
  shows "fs_status env (root @ key_names k) h = StFile i \<longleftrightarrow>
    node_at h (disk_base env root @ key_names k) = Some (File i)"
  using assms by (intro status_location) (auto simp: disk_inv_def)

lemma disk_view_iff:
  "disk_view env root h k = Some b \<longleftrightarrow>
    good_key k \<and> (\<exists>i. node_at h (disk_base env root @ key_names k) = Some (File i) \<and> b = hs_data h i)"
  by (auto simp: disk_view_def dest: file_at_SomeD)

lemma Disk_get_stored:
  assumes "disk_inv env root h" "disk_view env root h k = Some b"
  shows "DiskObjectStorage_get env root k h = Some b"
proof -
  obtain i where i: "good_key k" "node_at h (disk_base env root @ key_names k) = Some (File i)"
    "b = hs_data h i" using assms(2) by (auto simp: disk_view_iff)
  then have "fs_status env (root @ key_names k) h = StFile i" using status_key [OF assms(1)] by simp
  moreover have "root_ok root" using assms(1) by (simp add: disk_inv_def)
  ultimately show ?thesis
    using i by (simp add: DiskObjectStorage_get_def mapPath_good ifs_open_def ifs_rest_def)
qed

lemma Disk_exists_view:
  assumes inv: "disk_inv env root h" and k: "good_key k"
    and ex: "DiskObjectStorage_exists env root k h = Ret e"
  shows "e \<longleftrightarrow> disk_view env root h k \<noteq> None"
proof -
  have "root_ok root" using inv by (simp add: disk_inv_def)
  then have "e \<longleftrightarrow> (\<exists>i. fs_status env (root @ key_names k) h = StFile i)"
    using ex
    by (auto simp: DiskObjectStorage_exists_def mapPath_good k fs_exists_def fs_is_regular_file_def
        split: fs_status.splits)
  then show ?thesis using status_key [OF inv k] by (auto simp: disk_view_iff k)
qed

lemma Disk_remove_key:
  assumes inv: "disk_inv env root h" and k: "good_key k"
    and op: "DiskObjectStorage_del env root k h = (d, h')"
  shows "disk_inv env root h' \<and>
    disk_view env root h' = (if d then (disk_view env root h)(k := None) else disk_view env root h)"
proof -
  let ?q = "disk_base env root @ key_names k"
  have ok: "root_ok root" and fs: "fs_inv env root h" using inv by (auto simp: disk_inv_def)
  have op': "fs_remove env (root @ key_names k) h = (d, h')"
    using op by (simp add: DiskObjectStorage_del_def mapPath_good [OF ok k])
  show ?thesis
  proof (cases "\<exists>q. fs_resolve env (root @ key_names k) h = WalkAt q")
    case True
    then have q: "fs_resolve env (root @ key_names k) h = WalkAt ?q"
      using resolve_plain [OF ok fs good_key_plain [OF k]] by blast
    have "length (disk_start env root) < length ?q"
      using key_names_ne [of k] by (simp add: disk_base_def)
    then have "disk_start env root \<noteq> ?q" by auto
    from fs_remove_keeps [OF fs q this op']
    have keeps: "fs_inv env root h'" "hs_room h' = hs_room h"
      "if d then file_at h' = (file_at h)(?q := None) else h' = h" by (auto split: if_splits)
    then have "disk_inv env root h'"
      using inv by (auto simp: disk_inv_def split: if_splits)
    then show ?thesis using keeps(3) k by (auto simp: fun_eq_iff disk_view_def)
  next
    case False
    then have "h' = h" "\<not> d" using fs_remove_none [of env "root @ key_names k" h] op' by auto
    then show ?thesis using inv by simp
  qed
qed

lemma tree_below_iff:
  assumes fs: "fs_inv env root h"
  shows "(ns, n) \<in> set (tree_below base h) \<longleftrightarrow> ns \<noteq> [] \<and> node_at h (base @ ns) = Some n"
proof -
  have "(ns, n) \<in> set (tree_below base h) \<longleftrightarrow> ns \<noteq> [] \<and> (base @ ns, n) \<in> set (hs_nodes h)"
    by (force simp: tree_below_def strict_prefix_def prefix_def)
  then show ?thesis using fs_invD(1) [OF fs] by (auto simp: node_at_def)
qed

lemma object_entry:
  assumes fs: "fs_inv env root h" and e: "(ns, n) \<in> set (filter is_object_file (tree_below (disk_base env root) h))"
  shows "good_key (join_slash ns) \<and> key_names (join_slash ns) = ns \<and> join_slash ns \<in> dom (disk_view env root h)"
proof -
  have at: "ns \<noteq> []" "node_at h (disk_base env root @ ns) = Some n" using e tree_below_iff [OF fs] by auto
  have plain: "\<forall>c\<in>set ns. plain_name c" using fs_invD(2) [OF fs at(2)] by (simp add: list_all_iff)
  obtain i where n: "n = File i" and ext: "path_extension ns \<noteq> ''.tmp''"
    using e by (auto simp: is_object_file_def split: node.splits)
  have names: "key_names (join_slash ns) = ns" using split_join [OF at(1)] plain by (simp add: key_names_def)
  have "plain_name (last ns)" using plain at(1) by simp
  then have "path_extension ns = name_extension (last ns)"
    using at(1) by (simp add: path_extension_def path_has_filename_def)
  then have "good_key (join_slash ns)" using plain ext names by (simp add: good_key_def list_all_iff)
  with names at(2) n show ?thesis by (auto simp: disk_view_iff)
qed

lemma entry_of_object:
  assumes "fs_inv env root h" "good_key k" "node_at h (disk_base env root @ key_names k) = Some (File i)"
  shows "(key_names k, File i) \<in> set (filter is_object_file (tree_below (disk_base env root) h))"
proof -
  have "plain_name (last (key_names k))" using good_key_plain [OF assms(2)] by simp
  then have "is_object_file (key_names k, File i)"
    using assms(2) by (simp add: is_object_file_def path_extension_def path_has_filename_def good_key_def)
  then show ?thesis using tree_below_iff [OF assms(1)] assms(3) by simp
qed

lemma tree_below_distinct:
  assumes fs: "fs_inv env root h"
  shows "distinct (tree_below base h)"
proof -
  let ?ns = "filter (\<lambda>(q, n). strict_prefix base q) (hs_nodes h)"
  have "distinct (map fst ?ns)" using fs_invD(1) [OF fs] by (rule distinct_map_filter)
  moreover have "inj_on (\<lambda>(q, n). (drop (length base) q, n)) (set ?ns)"
    by (auto simp: inj_on_def strict_prefix_def prefix_def)
  ultimately show ?thesis by (simp add: tree_below_def distinct_map)
qed

lemma tree_below_files:
  assumes fs: "fs_inv env root h"
  shows "distinct (map (\<lambda>(q, n). join_slash q) (filter is_object_file (tree_below (disk_base env root) h)))
    \<and> set (map (\<lambda>(q, n). join_slash q) (filter is_object_file (tree_below (disk_base env root) h))) =
      dom (disk_view env root h)"
proof
  let ?es = "filter is_object_file (tree_below (disk_base env root) h)"
  note key = object_entry [OF fs]
  have "inj_on (\<lambda>(q, n). join_slash q) (set ?es)"
  proof (rule inj_onI, clarify)
    fix ns n ms m
    assume a: "(ns, n) \<in> set ?es" "(ms, m) \<in> set ?es" "join_slash ns = join_slash ms"
    then have "ns = ms" using key [of ns n] key [of ms m] by metis
    then show "ns = ms \<and> n = m" using a(1,2) tree_below_iff [OF fs] by simp
  qed
  then show "distinct (map (\<lambda>(q, n). join_slash q) ?es)"
    using tree_below_distinct [OF fs] by (simp add: distinct_map)
  have "k \<in> set (map (\<lambda>(q, n). join_slash q) ?es)" if "k \<in> dom (disk_view env root h)" for k
  proof -
    from that obtain i where "good_key k" "node_at h (disk_base env root @ key_names k) = Some (File i)"
      by (auto simp: disk_view_iff)
    from entry_of_object [OF fs this] show ?thesis by (force simp: key_names_def join_split)
  qed
  with key show "set (map (\<lambda>(q, n). join_slash q) ?es) = dom (disk_view env root h)" by fastforce
qed

lemma no_root_no_objects:
  assumes "root_ok root" "fs_inv env root h"
    and "\<nexists>base. fs_resolve env root h = WalkAt base \<and> node_at h base = Some Dir"
  shows "disk_view env root h k = None"
proof (rule ccontr)
  assume "disk_view env root h k \<noteq> None"
  then have "node_at h (disk_base env root) = Some Dir"
    using node_above [OF assms(2), of "disk_base env root" "key_names k"] by (auto simp: disk_view_iff)
  then show False using assms(3) resolve_reaches [OF assms(1,2), of "[]"] by simp
qed

lemma Disk_keys_view:
  assumes inv: "disk_inv env root h" and keys: "DiskObjectStorage_keys env root h = Ret ks"
  shows "distinct ks \<and> set ks = dom (disk_view env root h)"
proof -
  have ok: "root_ok root" and fs: "fs_inv env root h" using inv by (auto simp: disk_inv_def)
  show ?thesis
  proof (cases "fs_exists env root h = Ret True")
    case True
    with keys obtain base where "fs_resolve env root h = WalkAt base"
      "ks = map (\<lambda>(q, n). join_slash q) (filter is_object_file (tree_below base h))"
      by (auto simp: DiskObjectStorage_keys_def split: fs_walk.splits if_splits)
    then show ?thesis
      using resolve_plain [OF ok fs, of "[]" base] tree_below_files [OF fs] by simp
  next
    case False
    with keys have none: "fs_exists env root h = Ret False" "ks = []"
      by (auto simp: DiskObjectStorage_keys_def split: outcome.splits bool.splits)
    then have "\<nexists>base. fs_resolve env root h = WalkAt base \<and> node_at h base = Some Dir"
      by (auto simp: fs_exists_def fs_status_def)
    with no_root_no_objects [OF ok fs] have "disk_view env root h k = None" for k by blast
    then show ?thesis using none(2) by (simp add: dom_def)
  qed
qed

lemma DiskObjectStorage_vt_simps [simp, obsto_vt]:
  "vt_put (DiskObjectStorage_vt env root) = DiskObjectStorage_put env root"
  "vt_get (DiskObjectStorage_vt env root) = DiskObjectStorage_get env root"
  "vt_del (DiskObjectStorage_vt env root) = DiskObjectStorage_del env root"
  "vt_keys (DiskObjectStorage_vt env root) = DiskObjectStorage_keys env root"
  "vt_exists (DiskObjectStorage_vt env root) = DiskObjectStorage_exists env root"
  "vt_setnx (DiskObjectStorage_vt env root) = DiskObjectStorage_setnx env root"
  by (simp_all add: DiskObjectStorage_vt_def)

lemma DiskObjectStorage_svt_simps [simp, obsto_vt]:
  "vt_beginPut (DiskObjectStorage_svt env root) = DiskObjectStorage_beginPut env root"
  "vt_beginGet (DiskObjectStorage_svt env root) = DiskObjectStorage_beginGet env root"
  "vt_writeChunk (DiskObjectStorage_svt env root) = DiskWriteSession_writeChunk env"
  "vt_finish (DiskObjectStorage_svt env root) = DiskWriteSession_finish env"
  "vt_abort (DiskObjectStorage_svt env root) = DiskWriteSession_abort env"
  "vt_readChunk (DiskObjectStorage_svt env root) = DiskReadSession_readChunk"
  by (simp_all add: DiskObjectStorage_svt_def)

lemma Disk_put_view:
  assumes inv: "disk_inv env root h" and k: "good_key k"
    and op: "DiskObjectStorage_put env root k b h = (r, h')"
  shows "disk_inv env root h' \<and>
    disk_view env root h' = (if r = PutOk then (disk_view env root h)(k \<mapsto> b) else disk_view env root h)"
proof -
  have map: "mapPath root k = Some (root @ key_names k)"
    using inv k by (simp add: disk_inv_def mapPath_good)
  obtain ok h1 where d: "fs_create_directories env (path_parent (root @ key_names k)) h = (ok, h1)"
    by (cases "fs_create_directories env (path_parent (root @ key_names k)) h")
  obtain f h2 where o: "ofs_open env (root @ key_names k) h1 = (f, h2)"
    by (cases "ofs_open env (root @ key_names k) h1")
  obtain f' h3 where w: "ofs_write env f b h2 = (f', h3)" by (cases "ofs_write env f b h2")
  obtain f'' h4 where c: "ofs_close f' h3 = (f'', h4)" by (cases "ofs_close f' h3")
  show ?thesis
    using store_object [OF inv k d o, of b f' h3 f'' h4] w c op
    by (auto simp: DiskObjectStorage_put_def map d o w c split: if_splits)
qed

lemma Disk_setnx_view:
  assumes inv: "disk_inv env root h" and k: "good_key k"
    and op: "DiskObjectStorage_setnx env root k b h = (n, h')"
  shows "disk_inv env root h' \<and>
    disk_view env root h' =
      (if n = Ret NxInserted then (disk_view env root h)(k \<mapsto> b) else disk_view env root h) \<and>
    (n = Ret NxInserted \<longrightarrow> disk_view env root h k = None)"
proof -
  have map: "mapPath root k = Some (root @ key_names k)"
    using inv k by (simp add: disk_inv_def mapPath_good)
  have absent: "disk_view env root h k = None" if "fs_exists env (root @ key_names k) h = Ret False"
  proof (rule ccontr)
    assume "disk_view env root h k \<noteq> None"
    then obtain i where "fs_status env (root @ key_names k) h = StFile i"
      using status_key [OF inv k] by (auto simp: disk_view_iff)
    with that show False by (simp add: fs_exists_def)
  qed
  obtain ok h1 where d: "fs_create_directories env (path_parent (root @ key_names k)) h = (ok, h1)"
    by (cases "fs_create_directories env (path_parent (root @ key_names k)) h")
  obtain f h2 where o: "ofs_open env (root @ key_names k) h1 = (f, h2)"
    by (cases "ofs_open env (root @ key_names k) h1")
  obtain f' h3 where w: "ofs_write env f b h2 = (f', h3)" by (cases "ofs_write env f b h2")
  obtain f'' h4 where c: "ofs_close f' h3 = (f'', h4)" by (cases "ofs_close f' h3")
  show ?thesis
    using store_object [OF inv k d o, of b f' h3 f'' h4] w c op inv absent
    by (auto simp: DiskObjectStorage_setnx_def map d o w c split: if_splits outcome.splits bool.splits)
qed

lemma Disk_del_present:
  assumes inv: "disk_inv env root h" and "disk_view env root h k \<noteq> None"
  shows "fst (DiskObjectStorage_del env root k h)"
proof -
  have ok: "root_ok root" and fs: "fs_inv env root h" using inv by (auto simp: disk_inv_def)
  from assms(2) obtain i where k: "good_key k"
    and i: "node_at h (disk_base env root @ key_names k) = Some (File i)" by (auto simp: disk_view_iff)
  then have "fs_resolve env (root @ key_names k) h = WalkAt (disk_base env root @ key_names k)"
    using resolve_reaches [OF ok fs good_key_plain [OF k]] by simp
  then show ?thesis
    using i by (simp add: DiskObjectStorage_del_def mapPath_good [OF ok k] fs_remove_def)
qed

interpretation disk: object_store "DiskObjectStorage_vt env root" "disk_inv env root"
    "disk_view env root" good_key
  for env root
proof (unfold_locales, goal_cases)
  case (1 h k)
  then show ?case by (auto simp: disk_view_iff)
next
  case (4 h k b)
  then show ?case by (simp add: Disk_get_stored)
next
  case (7 h ks)
  then show ?case by (simp add: Disk_keys_view)
next
  case (8 h k e)
  then show ?case using Disk_exists_view by simp
next
  case (11 h k)
  then show ?case using Disk_del_present by simp
qed (auto dest: Disk_put_view Disk_setnx_view Disk_remove_key)

section \<open>Sessions\<close>

definition temp_names :: "string \<Rightarrow> string list" where
  "temp_names k = butlast (key_names k) @ [last (key_names k) @ ''.tmp'']"

definition disk_uploads :: "os_env \<Rightarrow> fs_path \<Rightarrow> disk_write \<Rightarrow> string \<Rightarrow> bytes \<Rightarrow> host \<Rightarrow> bool" where
  "disk_uploads env root w k b h \<longleftrightarrow>
     good_key k \<and> dw_tempPath w = root @ temp_names k \<and> dw_finalPath w = root @ key_names k \<and>
     (if ofs_good (dw_file w)
      then (\<exists>i. node_at h (disk_base env root @ temp_names k) = Some (File i) \<and>
             ofs_holds (dw_file w) i b h)
      else ofs_file (dw_file w) = None)"

definition disk_downloads :: "ifstream \<Rightarrow> bytes \<Rightarrow> host \<Rightarrow> bool" where
  "disk_downloads r b h \<longleftrightarrow> (if ifs_good r then ifs_rest r h = b else b = [])"

lemma temp_extension: "n \<noteq> [] \<Longrightarrow> name_extension (n @ ''.tmp'') = ''.tmp''"
proof -
  have "takeWhile (\<lambda>c. c \<noteq> CHR ''.'') (rev (n @ ''.tmp'')) = ''pmt''" by simp
  moreover assume "n \<noteq> []"
  moreover from this have "n @ ''.tmp'' \<noteq> ''.''" "n @ ''.tmp'' \<noteq> ''..''" "4 < length (n @ ''.tmp'')"
    by (auto simp: append_eq_Cons_conv)
  ultimately show ?thesis by (simp add: name_extension_def Let_def)
qed

lemma temp_plain: "good_key k \<Longrightarrow> \<forall>n\<in>set (temp_names k). plain_name n"
proof
  fix n
  assume k: "good_key k" and n: "n \<in> set (temp_names k)"
  have plain: "\<forall>n\<in>set (key_names k). plain_name n" by (rule good_key_plain [OF k])
  have "plain_name (m @ ''.tmp'')" if "plain_name m" for m
    using that unfolding plain_name_def by (auto simp: append_eq_Cons_conv)
  then show "plain_name n"
    using n plain by (auto simp: temp_names_def dest: in_set_butlastD)
qed

lemma temp_names_ne [simp]: "temp_names k \<noteq> []"
  by (simp add: temp_names_def)

lemma temp_not_key: "good_key k \<Longrightarrow> good_key k' \<Longrightarrow> temp_names k \<noteq> key_names k'"
proof
  assume k: "good_key k" "good_key k'" "temp_names k = key_names k'"
  then have "last (key_names k') = last (key_names k) @ ''.tmp''" by (simp flip: k(3) add: temp_names_def)
  moreover have "last (key_names k) \<noteq> []" using good_key_plain [OF k(1)] by simp
  ultimately have "name_extension (last (key_names k')) = ''.tmp''" by (simp add: temp_extension)
  with k(2) show False by (simp add: good_key_def)
qed

lemma path_concat_key: "path_concat (root @ key_names k) ''.tmp'' = root @ temp_names k"
  by (simp add: path_concat_def temp_names_def butlast_append)

text \<open>What happens at the temporary name does not show.\<close>

lemma temp_frame:
  assumes inv: "disk_inv env root h" and k: "good_key k"
    and h': "fs_inv env root h'" "hs_room h' = None"
      "file_at h' = (file_at h)(disk_base env root @ temp_names k := y)"
  shows "disk_inv env root h' \<and> disk_view env root h' = disk_view env root h"
proof
  have "\<not> prefix (disk_base env root @ temp_names k) (disk_base env root)" by (auto simp: prefix_def)
  then show "disk_inv env root h'" using inv h' by (auto simp: disk_inv_def)
  have "key_names j \<noteq> temp_names k" if "good_key j" for j using temp_not_key [OF k that] by simp
  then show "disk_view env root h' = disk_view env root h"
    by (auto simp: fun_eq_iff disk_view_def h'(3))
qed

lemma Disk_remove_temp:
  assumes inv: "disk_inv env root h" and k: "good_key k"
    and op: "fs_remove env (root @ temp_names k) h = (d, h')"
  shows "disk_inv env root h' \<and> disk_view env root h' = disk_view env root h"
proof (cases "\<exists>q. fs_resolve env (root @ temp_names k) h = WalkAt q")
  case True
  have ok: "root_ok root" and fs: "fs_inv env root h" using inv by (auto simp: disk_inv_def)
  let ?q = "disk_base env root @ temp_names k"
  from True have q: "fs_resolve env (root @ temp_names k) h = WalkAt ?q"
    using resolve_plain [OF ok fs temp_plain [OF k]] by blast
  have "length (disk_start env root) < length ?q" by (simp add: disk_base_def)
  then have "disk_start env root \<noteq> ?q" by auto
  from fs_remove_keeps [OF fs q this op] have "fs_inv env root h'" "hs_room h' = None"
    "file_at h' = (file_at h)(?q := (if d then None else file_at h ?q))"
    using inv by (auto simp: disk_inv_def split: if_splits)
  from temp_frame [OF inv k this] show ?thesis .
next
  case False
  then show ?thesis using fs_remove_none [of env "root @ temp_names k" h] op inv by auto
qed

lemma Disk_beginPut_view:
  assumes inv: "disk_inv env root h" and k: "good_key k"
    and op: "DiskObjectStorage_beginPut env root k n h = (res, h')"
  shows "disk_inv env root h' \<and> disk_view env root h' = disk_view env root h \<and>
    (bp_status res = PutOk \<longrightarrow> (\<exists>w. bp_session res = Some w \<and> disk_uploads env root w k [] h'))"
proof -
  have map: "mapPath root k = Some (root @ key_names k)" using mapPath_good [OF _ k] inv by (simp add: disk_inv_def)
  obtain d h1 where d: "fs_create_directories env (path_parent (root @ key_names k)) h = (d, h1)" by fastforce
  obtain f h2 where o: "ofs_open env (root @ temp_names k) h1 = (f, h2)" by fastforce
  from dirs_view [OF inv k d] have h1: "disk_inv env root h1" "disk_view env root h1 = disk_view env root h" by auto
  let ?w = "\<lparr>dw_tempPath = root @ temp_names k, dw_finalPath = root @ key_names k, dw_file = f,
    dw_finished = False\<rparr>"
  have h2: "disk_inv env root h2 \<and> disk_view env root h2 = disk_view env root h1 \<and>
      disk_uploads env root ?w k [] h2"
  proof (cases "ofs_good f")
    case True
    from open_below [OF h1(1) temp_plain [OF k] o True] obtain i where
      i: "node_at h2 (disk_base env root @ temp_names k) = Some (File i)" "ofs_holds f i [] h2"
      and h2: "fs_inv env root h2" "hs_room h2 = None"
        "file_at h2 = (file_at h1)(disk_base env root @ temp_names k \<mapsto> [])" by auto
    from temp_frame [OF h1(1) k h2] i k True show ?thesis by (simp add: disk_uploads_def)
  next
    case False
    with ofs_open_fails [OF o] h1 k show ?thesis by (simp add: disk_uploads_def)
  qed
  show ?thesis
    using op h1 h2
    by (auto simp: DiskObjectStorage_beginPut_def DiskWriteSession_new_def map d path_concat_key o
        split: if_splits)
qed

lemma Disk_writeChunk_view:
  assumes inv: "disk_inv env root h" and w: "disk_uploads env root w k b h"
    and op: "DiskWriteSession_writeChunk env w c h = (ok, w', h')"
  shows "disk_inv env root h' \<and> disk_view env root h' = disk_view env root h \<and>
    disk_uploads env root w' k (b @ c) h'"
proof (cases "ofs_good (dw_file w)")
  case False
  with op inv w show ?thesis by (auto simp: DiskWriteSession_writeChunk_def disk_uploads_def)
next
  case True
  let ?q = "disk_base env root @ temp_names k"
  from w True obtain i where i: "node_at h ?q = Some (File i)" "ofs_holds (dw_file w) i b h"
    and k: "good_key k" by (auto simp: disk_uploads_def)
  obtain f where f: "ofs_write env (dw_file w) c h = (f, h')" and w': "w' = w\<lparr>dw_file := f\<rparr>"
    using op True by (auto simp: DiskWriteSession_writeChunk_def split: prod.splits)
  have fs: "fs_inv env root h" and room: "hs_room h = None" using inv by (auto simp: disk_inv_def)
  from ofs_write_holds [OF i(2) room f] obtain x where
    x: "ofs_holds f i (b @ c) h'" "h' = h\<lparr>hs_data := (hs_data h)(i := x)\<rparr>" by auto
  have "file_at h' = (file_at h)(?q \<mapsto> x)"
    unfolding x(2) using fs_invD(6) [OF fs _ i(1)] by (intro file_at_data i(1))
  with temp_frame [OF inv k, of h'] fs room have "disk_inv env root h'"
    "disk_view env root h' = disk_view env root h" by (simp_all add: x(2))
  moreover have "disk_uploads env root w' k (b @ c) h'"
    using w i(1) x by (auto simp: disk_uploads_def w' ofs_holds_def)
  ultimately show ?thesis by simp
qed

lemma Disk_close_session:
  assumes inv: "disk_inv env root h" and w: "disk_uploads env root w k b h"
    and op: "ofs_close (dw_file w) h = (f, h1)"
  shows "disk_inv env root h1 \<and> disk_view env root h1 = disk_view env root h \<and>
    (ofs_good f \<longrightarrow> (\<exists>i. node_at h1 (disk_base env root @ temp_names k) = Some (File i) \<and>
      hs_data h1 i = b))"
proof (cases "ofs_good (dw_file w)")
  case False
  with w op inv show ?thesis by (auto simp: disk_uploads_def ofs_close_def)
next
  case True
  let ?q = "disk_base env root @ temp_names k"
  from w True obtain i where i: "node_at h ?q = Some (File i)" "ofs_holds (dw_file w) i b h"
    and k: "good_key k" by (auto simp: disk_uploads_def)
  have fs: "fs_inv env root h" and room: "hs_room h = None" using inv by (auto simp: disk_inv_def)
  have h1: "h1 = h\<lparr>hs_data := (hs_data h)(i := b)\<rparr>" using ofs_close_holds [OF i(2) room op] by simp
  have "file_at h1 = (file_at h)(?q \<mapsto> b)"
    unfolding h1 using fs_invD(6) [OF fs _ i(1)] by (intro file_at_data i(1))
  with temp_frame [OF inv k, of h1] fs room i(1) show ?thesis by (simp add: h1)
qed

lemma Disk_rename_temp:
  assumes inv: "disk_inv env root h" and k: "good_key k"
    and i: "node_at h (disk_base env root @ temp_names k) = Some (File i)"
    and op: "fs_rename env (root @ temp_names k) (root @ key_names k) h = (ok, h')"
  shows "disk_inv env root h' \<and> disk_view env root h' =
    (if ok then (disk_view env root h)(k \<mapsto> hs_data h i) else disk_view env root h)"
proof -
  let ?q = "disk_base env root @ temp_names k" and ?r = "disk_base env root @ key_names k"
  have ok: "root_ok root" and fs: "fs_inv env root h" and room: "hs_room h = None"
    and way: "\<forall>q. prefix q (disk_base env root) \<longrightarrow> file_at h q = None"
    using inv by (auto simp: disk_inv_def)
  have q: "fs_resolve env (root @ temp_names k) h = WalkAt ?q"
    using resolve_reaches [OF ok fs temp_plain [OF k]] i by simp
  show ?thesis
  proof (cases "\<exists>r. fs_resolve env (root @ key_names k) h = WalkAt r")
    case False
    then show ?thesis
      using op q inv by (cases "fs_resolve env (root @ key_names k) h") (auto simp: fs_rename_def)
  next
    case True
    then obtain r where "fs_resolve env (root @ key_names k) h = WalkAt r" by blast
    with resolve_plain [OF ok fs good_key_plain [OF k] this]
    have r: "fs_resolve env (root @ key_names k) h = WalkAt ?r" "\<not> env_refuses env ?r"
      "node_at h (butlast ?r) = Some Dir" by auto
    have "list_all plain_name (disk_base env root)"
      using fs_invD(2) [OF fs i] by simp
    then have plain: "list_all plain_name ?r"
      using good_key_plain [OF k] by (auto simp: list_all_iff)
    have neq: "?q \<noteq> ?r" using temp_not_key [OF k k] by simp
    from fs_rename_file [OF fs q i r(1) plain r(2,3) neq op]
    have h': "fs_inv env root h'" "hs_room h' = None"
      "if ok then file_at h' = (file_at h)(?q := None, ?r \<mapsto> hs_data h i) else h' = h"
      using room by (auto split: if_splits)
    have out: "\<not> prefix ?r (disk_base env root)" "\<not> prefix ?q (disk_base env root)"
      by (auto simp: prefix_def)
    have nt: "key_names j \<noteq> temp_names k" if "good_key j" for j using temp_not_key [OF k that] by simp
    show ?thesis
    proof (cases ok)
      case True
      with h'(3) have at: "file_at h' = (file_at h)(?q := None, ?r \<mapsto> hs_data h i)" by simp
      have "disk_inv env root h'" using h'(1,2) ok way out by (auto simp: disk_inv_def at)
      moreover have "disk_view env root h' = (disk_view env root h)(k \<mapsto> hs_data h i)"
        using k nt by (auto simp: fun_eq_iff disk_view_def at)
      ultimately show ?thesis using True by simp
    next
      case False
      with h'(3) inv show ?thesis by simp
    qed
  qed
qed

lemma Disk_finish_view:
  assumes inv: "disk_inv env root h" and w: "disk_uploads env root w k b h"
    and op: "DiskWriteSession_finish env w h = (r, w', h')"
  shows "disk_inv env root h' \<and>
    disk_view env root h' = (if r = PutOk then (disk_view env root h)(k \<mapsto> b) else disk_view env root h)"
proof -
  have k: "good_key k" and paths: "dw_tempPath w = root @ temp_names k" "dw_finalPath w = root @ key_names k"
    using w by (auto simp: disk_uploads_def)
  obtain f h1 where f: "ofs_close (dw_file w) h = (f, h1)" by (cases "ofs_close (dw_file w) h")
  note close = Disk_close_session [OF inv w f]
  obtain ok h2 where ren: "fs_rename env (root @ temp_names k) (root @ key_names k) h1 = (ok, h2)"
    by (cases "fs_rename env (root @ temp_names k) (root @ key_names k) h1")
  have remove: "disk_inv env root (snd (fs_remove env (root @ temp_names k) g)) \<and>
      disk_view env root (snd (fs_remove env (root @ temp_names k) g)) = disk_view env root g"
    if "disk_inv env root g" for g
    using Disk_remove_temp [OF that k] by (metis prod.collapse)
  show ?thesis
  proof (cases "ofs_good f")
    case False
    with op have "r = PutFailedToWrite" "h' = snd (fs_remove env (root @ temp_names k) h1)"
      by (auto simp: DiskWriteSession_finish_def f paths)
    with close remove [of h1] show ?thesis by simp
  next
    case True
    with close obtain i where i: "node_at h1 (disk_base env root @ temp_names k) = Some (File i)"
      "hs_data h1 i = b" and h1: "disk_inv env root h1" "disk_view env root h1 = disk_view env root h"
      by auto
    note rename = Disk_rename_temp [OF h1(1) k i(1) ren]
    show ?thesis
    proof (cases ok)
      case True
      with \<open>ofs_good f\<close> op have "r = PutOk" "h' = h2"
        by (auto simp: DiskWriteSession_finish_def f paths ren)
      with True rename h1(2) i(2) show ?thesis by simp
    next
      case False
      with \<open>ofs_good f\<close> op have "r = PutFailedToWrite" "h' = snd (fs_remove env (root @ temp_names k) h2)"
        by (auto simp: DiskWriteSession_finish_def f paths ren)
      with False rename h1(2) remove [of h2] show ?thesis by simp
    qed
  qed
qed

lemma Disk_abort_view:
  assumes inv: "disk_inv env root h" and w: "disk_uploads env root w k b h"
    and op: "DiskWriteSession_abort env w h = (w', h')"
  shows "disk_inv env root h' \<and> disk_view env root h' = disk_view env root h"
proof -
  have k: "good_key k" and path: "dw_tempPath w = root @ temp_names k"
    using w by (auto simp: disk_uploads_def)
  obtain f h1 where f: "ofs_close (dw_file w) h = (f, h1)" by (cases "ofs_close (dw_file w) h")
  obtain d h2 where d: "fs_remove env (root @ temp_names k) h1 = (d, h2)"
    by (cases "fs_remove env (root @ temp_names k) h1")
  have "h' = h2" using op by (simp add: DiskWriteSession_abort_def f path d)
  with Disk_close_session [OF inv w f] Disk_remove_temp [OF _ k d] show ?thesis by simp
qed

lemma Disk_beginGet_view:
  assumes inv: "disk_inv env root h" and k: "good_key k"
  shows "case disk_view env root h k of
      None \<Rightarrow> \<not> bg_found (DiskObjectStorage_beginGet env root k h)
    | Some b \<Rightarrow> \<exists>r. DiskObjectStorage_beginGet env root k h =
        \<lparr>bg_found = True, bg_size = of_nat (length b), bg_session = Some r\<rparr> \<and> disk_downloads r b h"
proof -
  have map: "mapPath root k = Some (root @ key_names k)"
    using inv k by (simp add: disk_inv_def mapPath_good)
  show ?thesis
  proof (cases "disk_view env root h k")
    case None
    then have "fs_status env (root @ key_names k) h \<noteq> StFile i" for i
      using status_key [OF inv k] k by (auto simp: disk_view_def dest: file_at_node(3))
    with None show ?thesis
      by (auto simp: DiskObjectStorage_beginGet_def map split: fs_status.split)
  next
    case (Some b)
    then obtain i where "fs_status env (root @ key_names k) h = StFile i" "b = hs_data h i"
      using status_key [OF inv k] by (auto simp: disk_view_iff)
    with Some show ?thesis
      by (simp add: DiskObjectStorage_beginGet_def map disk_downloads_def ifs_open_def ifs_rest_def)
  qed
qed

lemma Disk_readChunk_view:
  assumes "disk_downloads r b h" "0 < n"
  shows "if b = [] then fst (DiskReadSession_readChunk r n h) = None
    else \<exists>r'. DiskReadSession_readChunk r n h = (Some (take n b), r') \<and> disk_downloads r' (drop n b) h"
proof (cases "b = []")
  case True
  with assms show ?thesis
    by (auto simp: DiskReadSession_readChunk_def disk_downloads_def ifs_read_def split: if_splits)
next
  case False
  then have good: "ifs_good r" and rest: "ifs_rest r h = b"
    using assms(1) by (auto simp: disk_downloads_def split: if_splits)
  let ?r = "r\<lparr>ifs_pos := ifs_pos r + length (take n b), ifs_good := (length (take n b) = n)\<rparr>"
  have "DiskReadSession_readChunk r n h = (Some (take n b), ?r)"
    using False assms(2) good by (simp add: DiskReadSession_readChunk_def ifs_read_def rest)
  moreover have "ifs_rest ?r h = drop (length (take n b)) b"
    using rest by (auto simp: ifs_rest_def add.commute split: option.splits)
  then have "disk_downloads ?r (drop n b) h" by (auto simp: disk_downloads_def min_def)
  ultimately show ?thesis using False by simp
qed

interpretation disk_stream: streaming_store "DiskObjectStorage_vt env root" "disk_inv env root"
    "disk_view env root" good_key "DiskObjectStorage_svt env root" "disk_uploads env root" disk_downloads
  for env root
proof (unfold_locales, goal_cases)
  case (1 r h n)
  then show ?case using Disk_readChunk_view [of r "[]" h n] by simp
next
  case (2 r b h n)
  then show ?case using Disk_readChunk_view [of r b h n] by simp
next
  case (3 h k n res h')
  then show ?case using Disk_beginPut_view by simp
next
  case (4 h w k b c ok w' h')
  then show ?case using Disk_writeChunk_view by simp
next
  case (5 h w k b r w' h')
  then show ?case using Disk_finish_view by simp
next
  case (6 h w k b w' h')
  then show ?case using Disk_abort_view by simp
next
  case (7 h k)
  then show ?case using Disk_beginGet_view [of env root h k] by simp
next
  case (8 h k b)
  then show ?case using Disk_beginGet_view [of env root h k] by simp
qed

section \<open>Where the file system lets the storage work\<close>

text \<open>
  A key is accessible when the operating system refuses none of the locations on the way to it. What
  is stored is accessible; for accessible keys, below an accessible root, no operation throws.
\<close>

definition way_free :: "os_env \<Rightarrow> string list \<Rightarrow> bool" where
  "way_free env q \<longleftrightarrow> list_all (\<lambda>p. p \<noteq> [] \<longrightarrow> \<not> env_refuses env p) (prefixes q)"

definition accessible_key :: "os_env \<Rightarrow> fs_path \<Rightarrow> string \<Rightarrow> bool" where
  "accessible_key env root k \<longleftrightarrow> good_key k \<and> way_free env (disk_base env root @ key_names k)"

lemma way_freeD: "way_free env q \<Longrightarrow> prefix p q \<Longrightarrow> p \<noteq> [] \<Longrightarrow> \<not> env_refuses env p"
  by (simp add: way_free_def list_all_iff)

lemma stored_accessible:
  assumes fs: "fs_inv env root h" and "disk_view env root h k \<noteq> None"
  shows "accessible_key env root k"
proof -
  let ?q = "disk_base env root @ key_names k"
  from assms(2) have k: "good_key k" and q: "node_at h ?q \<noteq> None" by (auto simp: disk_view_iff)
  have "\<not> env_refuses env p" if p: "prefix p ?q" "p \<noteq> []" for p
  proof -
    have "on_way (disk_base env root) p" by (rule on_way_prefix [OF _ p(1)]) simp
    moreover obtain r where r: "?q = p @ r" using p(1) by (auto simp: prefix_def)
    have "node_at h p \<noteq> None"
      using q node_above [OF fs, of p r] unfolding r by (cases "r = []") auto
    ultimately show ?thesis using fs_invD(4) [OF fs] p(2) by blast
  qed
  then show ?thesis by (simp add: accessible_key_def way_free_def list_all_iff k)
qed

lemma walk_refused:
  "fs_walk_from env h cur cs = WalkRefused \<Longrightarrow> \<forall>c\<in>set cs. plain_name c \<Longrightarrow>
    \<exists>p. prefix p (cur @ cs) \<and> p \<noteq> [] \<and> env_refuses env p"
proof (induction cs arbitrary: cur)
  case (Cons c cs)
  show ?case
  proof (cases "env_refuses env (cur @ [c])")
    case True
    then show ?thesis by (intro exI [of _ "cur @ [c]"]) simp
  next
    case False
    with Cons.prems have "fs_walk_from env h (cur @ [c]) cs = WalkRefused"
      by (auto simp: Let_def split: if_splits)
    with Cons.IH Cons.prems(2) show ?thesis by fastforce
  qed
qed simp

lemma resolve_free:
  assumes ok: "root_ok root" and ns: "\<forall>n\<in>set ns. plain_name n" and free: "way_free env (disk_base env root @ ns)"
  shows "fs_resolve env (root @ ns) h \<noteq> WalkRefused"
proof
  assume "fs_resolve env (root @ ns) h = WalkRefused"
  then have "fs_walk_from env h (disk_start env root) (root_names root @ ns) = WalkRefused"
    using resolve_root [OF ok ns, of env "[]"] by simp
  from walk_refused [OF this] ns root_names_plain [OF ok] way_freeD [OF free] show False
    by (auto simp: disk_base_def)
qed

lemma status_free:
  assumes "root_ok root" "\<forall>n\<in>set ns. plain_name n" "way_free env (disk_base env root @ ns)"
  shows "\<exists>e. fs_exists env (root @ ns) h = Ret e" "\<exists>e. fs_is_regular_file env (root @ ns) h = Ret e"
  using resolve_free [OF assms, of h]
  by (auto simp: fs_exists_def fs_is_regular_file_def fs_status_def
      split: fs_walk.split option.split node.split)

lemma Disk_keys_total:
  assumes inv: "disk_inv env root h" and free: "way_free env (disk_base env root)"
  shows "\<exists>ks. DiskObjectStorage_keys env root h = Ret ks"
proof -
  have ok: "root_ok root" and fs: "fs_inv env root h" using inv by (auto simp: disk_inv_def)
  from status_free(1) [OF ok, of "[]" env h] free obtain e where e: "fs_exists env root h = Ret e" by auto
  show ?thesis
  proof (cases e)
    case False
    with e show ?thesis by (simp add: DiskObjectStorage_keys_def)
  next
    case True
    with e obtain base n where base: "fs_resolve env root h = WalkAt base" "node_at h base = Some n"
      by (auto simp: fs_exists_def fs_status_def split: fs_walk.splits option.splits fs_status.splits)
    then have base_eq: "base = disk_base env root"
      using resolve_plain [OF ok fs, of "[]" base] by simp
    have "file_at h base = None" using inv by (simp add: disk_inv_def base_eq)
    then have dir: "node_at h base = Some Dir" using base(2) by (cases n) auto
    have "\<not> env_refuses env (base @ q)" if "(q, m) \<in> set (tree_below base h)" for q m
      using that fs_invD(4) [OF fs, of "base @ q" m] by (auto simp: tree_below_iff [OF fs] base_eq on_way_def)
    then have "\<not> list_ex (\<lambda>(q, n). (n = Dir \<or> is_object_file (q, n)) \<and> env_refuses env (base @ q))
        (tree_below base h)" by (auto simp: list_ex_iff)
    with True e base(1) dir show ?thesis by (simp add: DiskObjectStorage_keys_def)
  qed
qed

interpretation disk_total: total_store "DiskObjectStorage_vt env root"
    "\<lambda>h. way_free env (disk_base env root) \<and> disk_inv env root h" "disk_view env root" "accessible_key env root"
    "DiskObjectStorage_svt env root" "disk_uploads env root" disk_downloads
  for env root
proof (intro total_store.intro total_store_axioms.intro, goal_cases)
  case 1
  have "accessible_key env root k" if "disk_inv env root h" "disk_view env root h k \<noteq> None" for h k
    using that by (auto simp: disk_inv_def intro: stored_accessible simp del: not_None_eq)
  moreover have "accessible_key env root k \<Longrightarrow> good_key k" for k by (simp add: accessible_key_def)
  ultimately show ?case by (rule disk_stream.restricted)
next
  case (2 h)
  then show ?case using Disk_keys_total by simp
next
  case (3 h k)
  then have "root_ok root" "good_key k" "way_free env (disk_base env root @ key_names k)"
    by (auto simp: disk_inv_def accessible_key_def)
  with status_free [OF this(1) good_key_plain [OF this(2)] this(3), of h] show ?case
    by (auto simp: DiskObjectStorage_exists_def mapPath_good split: bool.split)
next
  case (4 h k b)
  then have "root_ok root" "good_key k" "way_free env (disk_base env root @ key_names k)"
    by (auto simp: disk_inv_def accessible_key_def)
  with status_free(1) [OF this(1) good_key_plain [OF this(2)] this(3), of h] show ?case
    by (auto simp: DiskObjectStorage_setnx_def mapPath_good Let_def split: bool.split prod.split)
qed

interpretation disk_null: null_safe "DiskObjectStorage_vt env root" "DiskObjectStorage_svt env root"
  for env root
  by unfold_locales
    (auto simp: DiskObjectStorage_keys_def DiskObjectStorage_exists_def DiskObjectStorage_setnx_def
      DiskObjectStorage_beginPut_def DiskObjectStorage_beginGet_def fs_exists_def
      fs_is_regular_file_def Let_def
      split: option.splits outcome.splits bool.splits fs_walk.splits fs_status.splits prod.splits if_splits)

end
