(* ===== verification/Disk_Confinement.thy ===== *)
theory Disk_Confinement
  imports Disk_Contract
begin

text \<open>
  Nothing outside the root directory is touched: what every operation of
  \<open>Core/Storage/DiskObjectStorage.cpp\<close> and of a write session keeps, whatever key a client sends and
  whatever other clients have done to the tree below the root in the meantime. An operation is
  \<open>confined\<close> when it keeps the invariant of the host and everything outside the root; a write session
  is \<open>upload_inside\<close> when its paths are those of a key and its file is not linked outside.
\<close>

section \<open>What is kept outside of a directory\<close>

definition kept_outside :: "string list \<Rightarrow> host \<Rightarrow> host \<Rightarrow> bool" where
  "kept_outside base h h' \<longleftrightarrow>
     (\<forall>q. \<not> prefix base q \<longrightarrow>
        file_at h' q = file_at h q \<and> (node_at h q \<noteq> None \<longrightarrow> node_at h' q = node_at h q))"

lemma kept_refl [simp]: "kept_outside base h h"
  by (simp add: kept_outside_def)

lemma kept_trans: "kept_outside base h1 h2 \<Longrightarrow> kept_outside base h2 h3 \<Longrightarrow> kept_outside base h1 h3"
  unfolding kept_outside_def by metis

lemma kept_grown: "grown h h' \<Longrightarrow> kept_outside base h h'"
  by (simp add: kept_outside_def grown_file_at) (simp add: grown_def)

definition part_ok :: "string \<Rightarrow> bool" where
  "part_ok n \<longleftrightarrow> n = [] \<or> file_name n"

lemma part_ok_dots: "part_ok x \<Longrightarrow> x \<noteq> ''..''"
  unfolding part_ok_def file_name_def by auto

lemma part_ok_tmp: "part_ok x \<Longrightarrow> part_ok (x @ ''.tmp'')"
  unfolding part_ok_def file_name_def by (auto simp: append_eq_Cons_conv)

lemma mapPath_parts:
  assumes ok: "root_ok root" and m: "mapPath root k = Some t"
  obtains xs where "t = root @ xs" "\<forall>x\<in>set xs. part_ok x" "xs \<noteq> []"
proof -
  let ?req = "path_of k"
  have req: "k \<noteq> []" "\<not> path_is_absolute ?req" "''..'' \<notin> set ?req"
    using m by (auto simp: mapPath_def Let_def list_ex_iff split: if_splits)
  have t: "t = path_lexically_normal (path_append root ?req)"
    using m by (auto simp: mapPath_def Let_def split: if_splits)
  note parts = path_of_parts [OF req(2,3)]
  have "?req \<noteq> []"
  proof
    assume empty: "?req = []"
    then have "\<forall>n\<in>set (split_on CHR ''/'' k). n = []"
      by (auto simp: path_of_def Let_def filter_empty_conv split: if_splits)
    moreover have "k ! 0 \<noteq> CHR ''/''" using empty req(1) by (auto simp: path_of_def Let_def split: if_splits)
    ultimately show False
      using req(1) by (cases k) (auto split: if_splits list.splits)
  qed
  note ne = this
  then have t': "t = root @ filter file_name ?req @ trail ?req"
    using normal_root_append [OF ok _ req(2) parts] t by simp
  have "filter file_name ?req @ trail ?req \<noteq> []"
  proof (cases "file_name (last ?req)")
    case True
    then have "last ?req \<in> set (filter file_name ?req)" using ne by simp
    then show ?thesis by (metis append_is_Nil_conv empty_iff list.set(1))
  next
    case False
    then have "last ?req = [] \<or> last ?req = ''.''" using parts last_in_set [OF ne] by blast
    then have "trail ?req = [[]]" unfolding trail_def by (rule if_P)
    then show ?thesis by simp
  qed
  moreover have "\<forall>x\<in>set (filter file_name r). part_ok x" "\<forall>x\<in>set (trail r). part_ok x" for r
    by (simp_all add: part_ok_def trail_def)
  then have "\<forall>x\<in>set (filter file_name ?req @ trail ?req). part_ok x" by (metis Un_iff set_append)
  ultimately show ?thesis using that [OF t'] by blast
qed

lemma c_path_butlast: "c \<in> set (butlast (c_path xs)) \<Longrightarrow> c \<in> set xs"
  by (induction xs) (auto split: if_splits)

lemma walk_inside:
  assumes inv: "fs_inv env root h" and "prefix base cur" "node_at h cur = Some Dir"
    and "\<forall>c\<in>set (butlast cs). c \<noteq> ''..''" and "fs_walk_from env h cur cs = WalkAt q"
  shows "prefix base q \<or> cs \<noteq> [] \<and> last cs = ''..'' \<and> node_at h q = Some Dir"
  using assms(2-)
proof (induction cs arbitrary: cur)
  case (Cons c cs)
  show ?case
  proof (cases "cs = []")
    case True
    have "node_at h (butlast cur) = Some Dir" using fs_invD(3) [OF inv Cons.prems(2)] .
    then show ?thesis using True Cons.prems(1,4) by (auto simp: Let_def split: if_splits)
  next
    case False
    with Cons.prems(3) have c: "c \<noteq> ''..''" "\<forall>c\<in>set (butlast cs). c \<noteq> ''..''" by auto
    show ?thesis
    proof (cases "c = [] \<or> c = ''.''")
      case True
      with Cons.IH [OF Cons.prems(1,2) c(2)] Cons.prems(4) False show ?thesis by auto
    next
      case name: False
      with Cons.prems(4) c(1) False have "node_at h (cur @ [c]) = Some Dir"
        "fs_walk_from env h (cur @ [c]) cs = WalkAt q" by (auto simp: Let_def split: if_splits)
      with Cons.IH [of "cur @ [c]"] Cons.prems(1) c(2) False show ?thesis by auto
    qed
  qed
qed simp

lemma resolve_inside:
  assumes ok: "root_ok root" and inv: "fs_inv env root h" and xs: "\<forall>x\<in>set xs. part_ok x"
    and q: "fs_resolve env (root @ xs) h = WalkAt q"
  shows "prefix (disk_base env root) q \<or> last (c_path (root @ xs)) = ''..'' \<and> node_at h q = Some Dir"
proof -
  have walk: "fs_walk_from env h (disk_start env root) (root_names root @ c_path xs) = WalkAt q"
    using resolve_root [OF ok, of "[]"] q by simp
  have c: "c_path (root @ xs) = root @ c_path xs"
    using root_ok_facts(6) [OF ok] by (simp add: c_path_append)
  show ?thesis
  proof (cases "c_path xs = []")
    case True
    have ne: "root_names root \<noteq> []" using ok by (simp add: root_ok_def)
    from walk_plain [OF root_names_plain [OF ok] fs_invD(7) [OF inv] ne] walk True
    show ?thesis by (simp add: disk_base_def)
  next
    case False
    from walk_then [OF root_names_plain [OF ok] fs_invD(7) [OF inv] False walk]
    have dir: "node_at h (disk_base env root) = Some Dir"
      and w: "fs_walk_from env h (disk_base env root) (c_path xs) = WalkAt q"
      by (simp_all add: disk_base_def)
    have "c \<noteq> ''..''" if "c \<in> set (butlast (c_path xs))" for c
      using part_ok_dots [of c] c_path_butlast [OF that] xs by blast
    with walk_inside [OF inv _ dir _ w, of "disk_base env root"] False show ?thesis
      by (simp add: c)
  qed
qed

lemma part_ok_slash: "part_ok x \<Longrightarrow> CHR ''/'' \<notin> set x"
  unfolding part_ok_def file_name_def by auto

section \<open>Where mapped paths lead\<close>

lemma c_path_snoc:
  "c_path (p @ [n]) =
    (if \<exists>c\<in>set p. CHR 0x00 \<in> set c then c_path p else p @ [takeWhile (\<lambda>x. x \<noteq> CHR 0x00) n])"
  by (induction p) (auto intro!: takeWhile_eq_all_conv [THEN iffD2, symmetric])

text \<open>A path whose last component names something in the directory before it.\<close>

definition ends_proper :: "fs_path \<Rightarrow> bool" where
  "ends_proper p \<longleftrightarrow> last (c_path p) \<notin> {[], ''.'', ''..''}"

lemma walk_strictly_inside:
  "prefix base cur \<Longrightarrow> cs \<noteq> [] \<Longrightarrow> last cs \<notin> {[], ''.'', ''..''} \<Longrightarrow> \<forall>c\<in>set (butlast cs). c \<noteq> ''..'' \<Longrightarrow>
    fs_walk_from env h cur cs = WalkAt q \<Longrightarrow> strict_prefix base q"
proof (induction cs arbitrary: cur)
  case (Cons c cs)
  show ?case
  proof (cases "cs = []")
    case True
    with Cons.prems have "q = cur @ [c]" by (auto simp: Let_def split: if_splits)
    with Cons.prems(1) show ?thesis by (auto simp: strict_prefix_def prefix_def)
  next
    case False
    with Cons.prems(4) have c: "c \<noteq> ''..''" by simp
    with Cons.prems(5) False have "fs_walk_from env h cur cs = WalkAt q \<or>
        fs_walk_from env h (cur @ [c]) cs = WalkAt q" by (auto simp: Let_def split: if_splits)
    then show ?thesis using Cons.IH [of cur] Cons.IH [of "cur @ [c]"] Cons.prems(1,3,4) False by auto
  qed
qed simp

lemma walk_improper:
  assumes "fs_inv env root h"
  shows "node_at h cur = Some Dir \<Longrightarrow> cs \<noteq> [] \<Longrightarrow> last cs \<in> {[], ''.'', ''..''} \<Longrightarrow>
    fs_walk_from env h cur cs = WalkAt q \<Longrightarrow> node_at h q = Some Dir"
proof (induction cs arbitrary: cur)
  case (Cons c cs)
  have up: "node_at h (butlast cur) = Some Dir" using fs_invD(3) [OF assms Cons.prems(1)] .
  show ?case
  proof (cases "cs = []")
    case True
    with Cons.prems up show ?thesis by (auto split: if_splits)
  next
    case False
    with Cons.prems(4) have "fs_walk_from env h cur cs = WalkAt q \<or>
        fs_walk_from env h (butlast cur) cs = WalkAt q \<or>
        node_at h (cur @ [c]) = Some Dir \<and> fs_walk_from env h (cur @ [c]) cs = WalkAt q"
      by (auto simp: Let_def split: if_splits)
    then show ?thesis using Cons.IH Cons.prems(1,3) up False by auto
  qed
qed simp

lemma resolve_below:
  assumes ok: "root_ok root" and inv: "fs_inv env root h"
    and xs: "\<forall>x\<in>set xs. part_ok x" "xs \<noteq> []" and q: "fs_resolve env (root @ xs) h = WalkAt q"
  shows "node_at h (disk_base env root) = Some Dir"
    and "ends_proper (root @ xs) \<Longrightarrow> strict_prefix (disk_base env root) q"
    and "\<not> ends_proper (root @ xs) \<Longrightarrow> node_at h q = Some Dir"
proof -
  have ne: "c_path xs \<noteq> []" using xs(2) by (cases xs) auto
  have c: "last (c_path (root @ xs)) = last (c_path xs)"
    using root_ok_facts(6) [OF ok] ne by (simp add: c_path_append)
  have "fs_walk_from env h (disk_start env root) (root_names root @ c_path xs) = WalkAt q"
    using resolve_root [OF ok, of "[]"] q by simp
  from walk_then [OF root_names_plain [OF ok] fs_invD(7) [OF inv] ne this]
  have dir: "node_at h (disk_base env root) = Some Dir"
    and w: "fs_walk_from env h (disk_base env root) (c_path xs) = WalkAt q"
    by (simp_all add: disk_base_def)
  have dots: "\<forall>d\<in>set (butlast (c_path xs)). d \<noteq> ''..''"
    using part_ok_dots c_path_butlast xs(1) by blast
  show "node_at h (disk_base env root) = Some Dir" by (rule dir)
  show "ends_proper (root @ xs) \<Longrightarrow> strict_prefix (disk_base env root) q"
    using walk_strictly_inside [OF _ ne _ dots w] by (simp add: ends_proper_def c)
  show "\<not> ends_proper (root @ xs) \<Longrightarrow> node_at h q = Some Dir"
    using walk_improper [OF inv dir ne _ w] by (simp add: ends_proper_def c)
qed

section \<open>Confined operations\<close>

definition host_kept :: "string list \<Rightarrow> host \<Rightarrow> host \<Rightarrow> bool" where
  "host_kept base h h' \<longleftrightarrow> kept_outside base h h' \<and> hs_next h \<le> hs_next h'"

lemma host_kept_refl [simp]: "host_kept base h h"
  by (simp add: host_kept_def)

lemma host_kept_trans: "host_kept base h1 h2 \<Longrightarrow> host_kept base h2 h3 \<Longrightarrow> host_kept base h1 h3"
  unfolding host_kept_def using kept_trans by (meson le_trans)

definition confined :: "os_env \<Rightarrow> fs_path \<Rightarrow> host \<Rightarrow> host \<Rightarrow> bool" where
  "confined env root h h' \<longleftrightarrow> fs_inv env root h' \<and> host_kept (disk_base env root) h h'"

lemma confined_refl: "fs_inv env root h \<Longrightarrow> confined env root h h"
  by (simp add: confined_def)

lemma confined_trans: "confined env root h1 h2 \<Longrightarrow> confined env root h2 h3 \<Longrightarrow> confined env root h1 h3"
  unfolding confined_def using host_kept_trans by blast

lemma confined_inv: "confined env root h h' \<Longrightarrow> fs_inv env root h'"
  by (simp add: confined_def)

lemma confinedI:
  assumes "fs_inv env root h'" "hs_next h \<le> hs_next h'"
    and "\<And>q. \<not> prefix (disk_base env root) q \<Longrightarrow>
      file_at h' q = file_at h q \<and> (node_at h q \<noteq> None \<longrightarrow> node_at h' q = node_at h q)"
  shows "confined env root h h'"
  using assms by (simp add: confined_def host_kept_def kept_outside_def)

text \<open>The file of a stream has no name outside the root.\<close>

definition stream_inside :: "string list \<Rightarrow> ofstream \<Rightarrow> host \<Rightarrow> bool" where
  "stream_inside base f h \<longleftrightarrow>
     (\<forall>i. ofs_file f = Some i \<longrightarrow> i < hs_next h \<and> (\<forall>q. node_at h q = Some (File i) \<longrightarrow> prefix base q))"

lemma stream_inside_none [simp]: "ofs_file f = None \<Longrightarrow> stream_inside base f h"
  by (simp add: stream_inside_def)

lemma stream_inside_cong: "ofs_file f' = ofs_file f \<Longrightarrow> stream_inside base f' h = stream_inside base f h"
  by (simp add: stream_inside_def)

lemma stream_inside_kept:
  assumes "stream_inside base f h" "host_kept base h h'"
  shows "stream_inside base f h'"
  unfolding stream_inside_def
proof (intro allI impI conjI)
  fix i assume i: "ofs_file f = Some i"
  with assms show "i < hs_next h'" by (auto simp: stream_inside_def host_kept_def)
  fix q assume q: "node_at h' q = Some (File i)"
  show "prefix base q"
  proof (rule ccontr)
    assume out: "\<not> prefix base q"
    with assms(2) have kept: "file_at h' q = file_at h q" "node_at h q \<noteq> None \<Longrightarrow> node_at h' q = node_at h q"
      by (auto simp: host_kept_def kept_outside_def)
    with q have "node_at h q = Some (File i)" by (cases "node_at h q") auto
    with assms(1) i out show False by (auto simp: stream_inside_def)
  qed
qed

lemma confined_data:
  assumes "fs_inv env root h" "stream_inside (disk_base env root) f h" "ofs_file f = Some i"
  shows "confined env root h (h\<lparr>hs_data := (hs_data h)(i := x), hs_room := r\<rparr>)" (is "confined _ _ _ ?h")
proof (rule confinedI)
  fix q assume "\<not> prefix (disk_base env root) q"
  with assms(2,3) have "node_at h q \<noteq> Some (File i)" by (auto simp: stream_inside_def)
  then have "file_at ?h q = file_at h q"
    by (cases "node_at h q") (simp_all add: file_at_def file_content_upd)
  then show "file_at ?h q = file_at h q \<and> (node_at h q \<noteq> None \<longrightarrow> node_at ?h q = node_at h q)" by simp
qed (use assms(1) in simp_all)

lemma confined_write:
  assumes "fs_inv env root h" "stream_inside (disk_base env root) f h" "ofs_write env f b h = (f', h')"
  shows "confined env root h h' \<and> stream_inside (disk_base env root) f' h'"
proof -
  have conf: "confined env root h h'"
  proof (cases "ofs_file f")
    case None
    with ofs_write_host [OF assms(3)] confined_refl [OF assms(1)] show ?thesis by simp
  next
    case (Some i)
    with ofs_write_host [OF assms(3)] obtain x r
      where "h' = h\<lparr>hs_data := (hs_data h)(i := x), hs_room := r\<rparr>" by auto
    with confined_data [OF assms(1,2) Some] show ?thesis by simp
  qed
  moreover have "ofs_file f' = ofs_file f" using ofs_write_host [OF assms(3)] by simp
  from stream_inside_cong [OF this]
  have "stream_inside (disk_base env root) f' h' = stream_inside (disk_base env root) f h'" .
  ultimately show ?thesis using stream_inside_kept [OF assms(2)] by (simp add: confined_def)
qed

lemma confined_close:
  assumes "fs_inv env root h" "stream_inside (disk_base env root) f h" "ofs_close f h = (f', h')"
  shows "confined env root h h' \<and> ofs_file f' = None"
proof (cases "ofs_file f")
  case None
  with ofs_close_host [OF assms(3)] confined_refl [OF assms(1)] show ?thesis by simp
next
  case (Some i)
  with ofs_close_host [OF assms(3)] obtain x r
    where "h' = h\<lparr>hs_data := (hs_data h)(i := x), hs_room := r\<rparr>" "ofs_file f' = None" by auto
  with confined_data [OF assms(1,2) Some] show ?thesis by simp
qed

lemma confined_open:
  assumes ok: "root_ok root" and inv: "fs_inv env root h" and xs: "\<forall>x\<in>set xs. part_ok x" "xs \<noteq> []"
    and op: "ofs_open env (root @ xs) h = (f, h')"
  shows "confined env root h h' \<and> stream_inside (disk_base env root) f h' \<and>
    (ofs_good f \<longrightarrow> ends_proper (root @ xs))"
proof (cases "ofs_good f")
  case False
  with ofs_open_fails [OF op] confined_refl [OF inv] show ?thesis by simp
next
  case True
  have path: "path_ok (root @ xs)" using xs by (auto intro!: path_ok_root [OF ok] simp: part_ok_slash)
  obtain q i where q: "fs_resolve env (root @ xs) h = WalkAt q" and f: "ofs_file f = Some i"
    and h': "fs_inv env root h'" "file_at h' = (file_at h)(q \<mapsto> [])"
      "node_at h' = (node_at h)(q \<mapsto> File i)" "node_at h q \<noteq> Some Dir"
    using ofs_open_keeps [OF inv anchored_root [OF inv ok] path op True] by auto
  have proper: "ends_proper (root @ xs)" using resolve_below(3) [OF ok inv xs q] h'(4) by blast
  have pre: "prefix (disk_base env root) q"
    using resolve_below(2) [OF ok inv xs q proper] by (simp add: strict_prefix_def)
  have nxt: "hs_next h \<le> hs_next h'"
    using op by (auto simp: ofs_open_def Let_def split: fs_walk.splits option.splits node.splits)
  have "confined env root h h'"
  proof (rule confinedI)
    fix p assume "\<not> prefix (disk_base env root) p"
    with pre have "p \<noteq> q" by blast
    then show "file_at h' p = file_at h p \<and> (node_at h p \<noteq> None \<longrightarrow> node_at h' p = node_at h p)"
      by (simp add: h'(2,3))
  qed (rule h'(1), rule nxt)
  moreover have i: "node_at h' q = Some (File i)" using h'(3) by simp
  then have "stream_inside (disk_base env root) f h'"
    using fs_invD(5) [OF h'(1) i] fs_invD(6) [OF h'(1) _ i] pre f
    unfolding stream_inside_def by (metis option.inject)
  ultimately show ?thesis using proper by simp
qed

lemma confined_dirs:
  assumes ok: "root_ok root" and inv: "fs_inv env root h" and xs: "\<forall>x\<in>set xs. part_ok x"
    and op: "fs_create_directories env (path_parent (root @ xs)) h = (d, h')"
  shows "confined env root h h'"
proof -
  have path: "path_ok (root @ xs)" using xs by (auto intro!: path_ok_root [OF ok] simp: part_ok_slash)
  have "path_ok (path_parent (root @ xs))"
    using path path_ok_prefix [of "butlast (root @ xs)" "[last (root @ xs)]"]
      root_ok_facts(1) [OF ok] by (auto simp: path_parent_def)
  moreover have "anchored env (path_parent (root @ xs)) h"
  proof -
    have "path_is_absolute root \<Longrightarrow> path_is_absolute (path_parent (root @ xs))"
      using ok root_ok_facts(1) [OF ok]
      by (cases root; cases "tl root @ xs")
        (auto simp: path_parent_def path_is_absolute_def root_ok_def root_names_def)
    moreover have "node_at h (env_cwd env) = Some Dir" if "\<not> path_is_absolute root"
      using fs_invD(7) [OF inv] that by (simp add: disk_start_def)
    ultimately show ?thesis by (auto simp: anchored_def)
  qed
  ultimately have "fs_inv env root h' \<and> grown h h'"
    using create_directories_grown [OF inv _ _ op] by blast
  then show ?thesis using kept_grown by (auto simp: confined_def host_kept_def grown_def)
qed

lemma base_below_start:
  assumes "root_ok root" "prefix (disk_base env root) q"
  shows "\<not> prefix q (disk_start env root)"
proof
  assume "prefix q (disk_start env root)"
  with assms(2) have "length (disk_base env root) \<le> length (disk_start env root)"
    by (meson le_trans prefix_length_le)
  then show False using assms(1) by (simp add: disk_base_def root_ok_def)
qed

lemma base_not_start: "root_ok root \<Longrightarrow> prefix (disk_base env root) q \<Longrightarrow> disk_start env root \<noteq> q"
  using base_below_start by blast

lemma confined_remove:
  assumes ok: "root_ok root" and inv: "fs_inv env root h" and xs: "\<forall>x\<in>set xs. part_ok x"
    and op: "fs_remove env (root @ xs) h = (d, h')"
  shows "confined env root h h'"
proof (cases "h' = h")
  case True
  then show ?thesis using confined_refl [OF inv] by simp
next
  case False
  with op obtain q where q: "fs_resolve env (root @ xs) h = WalkAt q"
    and dir: "node_at h q = Some Dir \<longrightarrow> last (c_path (root @ xs)) \<noteq> ''..''"
    by (auto simp: fs_remove_def split: fs_walk.splits option.splits node.splits if_splits)
  from resolve_inside [OF ok inv xs q] dir have pre: "prefix (disk_base env root) q" by blast
  from fs_remove_keeps [OF inv q base_not_start [OF ok pre] op] False
  have h': "fs_inv env root h'" "h' = remove_node q h" "q \<noteq> []" "file_at h' = (file_at h)(q := None)"
    by (auto split: if_splits)
  show ?thesis
  proof (rule confinedI)
    fix p assume "\<not> prefix (disk_base env root) p"
    with pre have "p \<noteq> q" by blast
    then show "file_at h' p = file_at h p \<and> (node_at h p \<noteq> None \<longrightarrow> node_at h' p = node_at h p)"
      using h'(3) by (simp add: h'(4)) (simp add: h'(2))
  qed (use h'(1) in \<open>simp_all add: h'(2)\<close>)
qed

section \<open>Renaming\<close>

text \<open>The names of a tree in which the directory \<open>q\<close> has become \<open>r\<close>.\<close>

definition moved_name :: "string list \<Rightarrow> string list \<Rightarrow> string list \<Rightarrow> string list" where
  "moved_name q r p = (if prefix q p then r @ drop (length q) p else p)"

definition move_tree :: "string list \<Rightarrow> string list \<Rightarrow> host \<Rightarrow> host" where
  "move_tree q r h =
     h\<lparr>hs_nodes := map (\<lambda>(p, n). (moved_name q r p, n)) (AList.delete r (hs_nodes h))\<rparr>"

definition movable :: "string list \<Rightarrow> string list \<Rightarrow> host \<Rightarrow> bool" where
  "movable q r h \<longleftrightarrow> q \<noteq> [] \<and> r \<noteq> [] \<and> \<not> prefix q r \<and> (\<forall>p n. node_at h p = Some n \<longrightarrow> \<not> strict_prefix r p)"

lemma moved_name_simps [simp]:
  "moved_name q r (q @ s) = r @ s" "\<not> prefix q p \<Longrightarrow> moved_name q r p = p"
  by (simp_all add: moved_name_def)

lemma moved_name_inj:
  assumes "moved_name q r p = moved_name q r p'" "\<not> prefix r p" "\<not> prefix r p'"
  shows "p = p'"
  using assms by (auto simp: moved_name_def prefix_def split: if_splits)

lemma movable_nodes:
  assumes "movable q r h" "(p, n) \<in> set (AList.delete r (hs_nodes h))" "distinct (map fst (hs_nodes h))"
  shows "\<not> prefix r p" "(p, n) \<in> set (hs_nodes h)"
proof -
  have p: "(p, n) \<in> set (hs_nodes h)" "p \<noteq> r" using assms(2) by (auto simp: AList.delete_eq)
  show "(p, n) \<in> set (hs_nodes h)" by (rule p(1))
  show "\<not> prefix r p"
  proof
    assume pre: "prefix r p"
    then have "p \<noteq> []" using assms(1) by (auto simp: movable_def)
    then have "node_at h p = Some n" using p(1) assms(3) by (simp add: node_at_def)
    then show False using assms(1) pre p(2) by (auto simp: movable_def strict_prefix_def)
  qed
qed

lemma move_tree_distinct:
  assumes "movable q r h" "distinct (map fst (hs_nodes h))"
  shows "distinct (map fst (hs_nodes (move_tree q r h)))"
proof -
  have out: "\<not> prefix r p" if "p \<in> set (map fst (AList.delete r (hs_nodes h)))" for p
    using that movable_nodes(1) [OF assms(1) _ assms(2)] by auto
  have "inj_on (moved_name q r) (set (map fst (AList.delete r (hs_nodes h))))"
    by (rule inj_onI) (rule moved_name_inj [OF _ out out])
  then have "distinct (map (moved_name q r) (map fst (AList.delete r (hs_nodes h))))"
    using distinct_delete [OF assms(2)] distinct_map by blast
  moreover have "map fst (hs_nodes (move_tree q r h)) =
      map (moved_name q r) (map fst (AList.delete r (hs_nodes h)))"
    by (simp add: move_tree_def split_def)
  ultimately show ?thesis by simp
qed

lemma move_tree_from:
  assumes "movable q r h" "distinct (map fst (hs_nodes h))" "node_at (move_tree q r h) p = Some n" "p \<noteq> []"
  obtains p0 where "p = moved_name q r p0" "node_at h p0 = Some n" "\<not> prefix r p0" "p0 \<noteq> []"
proof -
  have "(p, n) \<in> set (hs_nodes (move_tree q r h))"
    using assms(3,4) by (simp add: node_at_def map_of_SomeD)
  then obtain p0 where p0: "(p0, n) \<in> set (AList.delete r (hs_nodes h))" "p = moved_name q r p0"
    by (auto simp: move_tree_def)
  note in_h = movable_nodes [OF assms(1) p0(1) assms(2)]
  have "p0 \<noteq> []" using p0(2) assms(1,4) by (auto simp: movable_def moved_name_def)
  then have "node_at h p0 = Some n" using in_h(2) assms(2) by (simp add: node_at_def)
  from that [OF p0(2) this in_h(1) \<open>p0 \<noteq> []\<close>] show ?thesis .
qed

lemma move_tree_to:
  assumes "movable q r h" "distinct (map fst (hs_nodes h))" "node_at h p = Some n" "p \<noteq> r"
  shows "node_at (move_tree q r h) (moved_name q r p) = Some n"
proof (cases "p = []")
  case True
  then show ?thesis using assms(1,3) by (simp add: movable_def moved_name_def)
next
  case False
  then have "(p, n) \<in> set (AList.delete r (hs_nodes h))"
    using assms(3,4) by (simp add: node_at_def AList.delete_eq map_of_SomeD)
  then have "(moved_name q r p, n) \<in> set (hs_nodes (move_tree q r h))"
    by (force simp: move_tree_def)
  moreover have "moved_name q r p \<noteq> []" using False assms(1) by (auto simp: moved_name_def movable_def)
  ultimately show ?thesis using move_tree_distinct [OF assms(1,2)] by (simp add: node_at_def)
qed

text \<open>A name that is not moved keeps its node.\<close>

lemma move_tree_stays:
  assumes "movable q r h" "distinct (map fst (hs_nodes h))" "\<not> prefix q p" "\<not> prefix r p"
  shows "node_at (move_tree q r h) p = node_at h p"
proof (cases "p = []")
  case False
  have "p \<noteq> r" using assms(4) by auto
  show ?thesis
  proof (cases "node_at (move_tree q r h) p")
    case (Some n)
    from move_tree_from [OF assms(1,2) Some False] have "node_at h p = Some n"
      using assms(4) by (metis moved_name_def prefixI)
    with Some show ?thesis by simp
  next
    case None
    with move_tree_to [OF assms(1,2) _ \<open>p \<noteq> r\<close>] assms(3) show ?thesis by (cases "node_at h p") auto
  qed
qed simp

lemma move_tree_up:
  assumes inv: "fs_inv env root h" and mv: "movable q r h"
    and up: "list_all plain_name r" "node_at h (butlast r) = Some Dir"
    and p: "node_at (move_tree q r h) p = Some n"
  shows "list_all plain_name p \<and> node_at (move_tree q r h) (butlast p) = Some Dir"
proof (cases "p = []")
  case False
  note dist = fs_invD(1) [OF inv]
  have ne: "q \<noteq> []" "r \<noteq> []" "\<not> prefix q r" using mv by (auto simp: movable_def)
  have above: "\<not> prefix z (butlast y)" if "\<not> prefix z y" "y \<noteq> []" for y z :: "string list"
    using that by (metis append_butlast_last_id prefix_prefix)
  from move_tree_from [OF mv dist p False] obtain p0
    where p0: "p = moved_name q r p0" "node_at h p0 = Some n" "\<not> prefix r p0" "p0 \<noteq> []" .
  note old = fs_invD(2,3) [OF inv p0(2)]
  show ?thesis
  proof (cases "prefix q p0")
    case True
    then obtain s where s: "p0 = q @ s" "p = r @ s" using p0(1) by (auto simp: prefix_def)
    show ?thesis
    proof (cases "s = []")
      case True
      have "\<not> prefix r (butlast r)" using ne(2) by (cases r rule: rev_cases) (auto dest: prefix_length_le)
      then have "node_at (move_tree q r h) (butlast r) = Some Dir"
        using move_tree_stays [OF mv dist above [OF ne(3,2)]] up(2) by simp
      then show ?thesis using up(1) True s(2) by simp
    next
      case more: False
      then have "node_at h (q @ butlast s) = Some Dir" using old(2) s(1) by (simp add: butlast_append)
      moreover have "q @ butlast s \<noteq> r" using ne(3) by auto
      ultimately have "node_at (move_tree q r h) (r @ butlast s) = Some Dir"
        using move_tree_to [OF mv dist, of "q @ butlast s"] by simp
      then show ?thesis using old(1) up(1) more s by (simp add: butlast_append)
    qed
  next
    case False
    then have p: "p = p0" using p0(1) by simp
    have "node_at (move_tree q r h) (butlast p0) = Some Dir"
      using move_tree_stays [OF mv dist above [OF False p0(4)] above [OF p0(3,4)]] old(2) by simp
    then show ?thesis using old(1) p by simp
  qed
qed simp

lemma move_tree_inv:
  assumes ok: "root_ok root" and inv: "fs_inv env root h" and mv: "movable q r h"
    and base: "prefix (disk_base env root) q" "prefix (disk_base env root) r"
    and free: "\<And>p. prefix (disk_base env root) p \<Longrightarrow> \<not> env_refuses env p"
    and up: "list_all plain_name r" "node_at h (butlast r) = Some Dir"
  shows "fs_inv env root (move_tree q r h)"
proof (rule fs_invI)
  note dist = fs_invD(1) [OF inv]
  note came = move_tree_from [OF mv dist]
  show "distinct (map fst (hs_nodes (move_tree q r h)))" by (rule move_tree_distinct [OF mv dist])
  have "\<not> prefix q (disk_start env root)" "\<not> prefix r (disk_start env root)"
    using base_below_start [OF ok] base by blast+
  then show "node_at (move_tree q r h) (disk_start env root) = Some Dir"
    using move_tree_stays [OF mv dist] fs_invD(7) [OF inv] by simp
  show "list_all plain_name p \<and> node_at (move_tree q r h) (butlast p) = Some Dir"
    if "node_at (move_tree q r h) p = Some n" for p n
    by (rule move_tree_up [OF inv mv up that])
  show "\<not> env_refuses env p"
    if p: "node_at (move_tree q r h) p = Some n" "p \<noteq> []" "on_way (disk_base env root) p" for p n
  proof (cases "prefix (disk_base env root) p")
    case False
    then have "\<not> prefix q p" "\<not> prefix r p" using base prefix_order.trans by blast+
    with p(1) have "node_at h p = Some n" using move_tree_stays [OF mv dist] by simp
    then show ?thesis using fs_invD(4) [OF inv] p(2,3) by blast
  qed (rule free)
  fix p i
  assume p: "node_at (move_tree q r h) p = Some (File i)"
  then have "p \<noteq> []" by auto
  from came [OF p this] obtain p0 where p0: "p = moved_name q r p0" "node_at h p0 = Some (File i)" .
  then show "i < hs_next (move_tree q r h)" using fs_invD(5) [OF inv] by (simp add: move_tree_def)
  fix p'
  assume p': "node_at (move_tree q r h) p' = Some (File i)"
  then have "p' \<noteq> []" by auto
  from came [OF p' this] obtain p1 where "p' = moved_name q r p1" "node_at h p1 = Some (File i)" .
  then show "p = p'" using fs_invD(6) [OF inv p0(2)] p0(1) by simp
qed

lemma confined_move_tree:
  assumes "root_ok root" "fs_inv env root h" "movable q r h"
    and base: "prefix (disk_base env root) q" "prefix (disk_base env root) r"
    and "\<And>p. prefix (disk_base env root) p \<Longrightarrow> \<not> env_refuses env p"
    and "list_all plain_name r" "node_at h (butlast r) = Some Dir"
  shows "confined env root h (move_tree q r h)"
proof (rule confinedI)
  show "fs_inv env root (move_tree q r h)" by (rule move_tree_inv [OF assms])
  fix p assume "\<not> prefix (disk_base env root) p"
  then have "\<not> prefix q p" "\<not> prefix r p" using base prefix_order.trans by blast+
  from move_tree_stays [OF assms(3) fs_invD(1) [OF assms(2)] this]
  show "file_at (move_tree q r h) p = file_at h p \<and>
      (node_at h p \<noteq> None \<longrightarrow> node_at (move_tree q r h) p = node_at h p)"
    by (simp add: file_at_def move_tree_def)
qed (simp add: move_tree_def)

lemma resolved_place:
  assumes ok: "root_ok root" and inv: "fs_inv env root h" and xs: "\<forall>x\<in>set xs. part_ok x"
    and q: "fs_resolve env (root @ xs) h = WalkAt q"
  shows "node_at h q = Some Dir \<or>
    list_all plain_name q \<and> q \<noteq> [] \<and> node_at h (butlast q) = Some Dir \<and> \<not> env_refuses env q"
proof -
  have "path_ok (root @ xs)" using xs by (auto intro!: path_ok_root [OF ok] simp: part_ok_slash)
  from resolve_leads [OF inv _ this q] anchored_root [OF inv ok] show ?thesis by (simp add: anchored_def)
qed

lemma confined_rename_file:
  assumes inv: "fs_inv env root h" and i: "node_at h q = Some (File i)"
    and in_root: "prefix (disk_base env root) q" "prefix (disk_base env root) r"
    and r: "list_all plain_name r" "\<not> env_refuses env r" "node_at h (butlast r) = Some Dir" "node_at h r \<noteq> Some Dir"
    and p: "fs_resolve env p h = WalkAt q" "fs_resolve env p' h = WalkAt r" "q \<noteq> r"
    and op: "fs_rename env p p' h = (True, h')"
  shows "confined env root h h'"
proof -
  from fs_rename_file [OF inv p(1) i p(2) r(1-3) p(3) op]
  have h': "fs_inv env root h'" "file_at h' = (file_at h)(q := None, r \<mapsto> hs_data h i)" by simp_all
  have h'_eq: "h' = set_node r (File i) (remove_node q h)"
    using op p i r(4) by (auto simp: fs_rename_def split: option.splits node.splits if_splits)
  have ne: "q \<noteq> []" "r \<noteq> []" using i r(4) by auto
  show ?thesis
  proof (rule confinedI [OF h'(1)])
    fix l assume "\<not> prefix (disk_base env root) l"
    with in_root have "l \<noteq> q" "l \<noteq> r" by blast+
    then show "file_at h' l = file_at h l \<and> (node_at h l \<noteq> None \<longrightarrow> node_at h' l = node_at h l)"
      using ne by (simp add: h'(2)) (simp add: h'_eq)
  qed (simp add: h'_eq)
qed

lemma confined_rename:
  assumes ok: "root_ok root" and inv: "fs_inv env root h"
    and free: "\<And>p. prefix (disk_base env root) p \<Longrightarrow> \<not> env_refuses env p"
    and xs: "\<forall>x\<in>set xs. part_ok x" "xs \<noteq> []" "ends_proper (root @ xs)"
    and ys: "\<forall>y\<in>set ys. part_ok y" "ys \<noteq> []" "last (c_path (root @ ys)) \<noteq> ''..''"
    and op: "fs_rename env (root @ xs) (root @ ys) h = (d, h')"
  shows "confined env root h h'"
proof (cases "h' = h")
  case True
  then show ?thesis using confined_refl [OF inv] by simp
next
  case False
  with op obtain q r n where q: "fs_resolve env (root @ xs) h = WalkAt q" "node_at h q = Some n"
    and r: "fs_resolve env (root @ ys) h = WalkAt r" and d: "d"
    by (auto simp: fs_rename_def split: fs_walk.splits option.splits node.splits if_splits)
  have preq: "prefix (disk_base env root) q" "q \<noteq> []"
    using resolve_below(2) [OF ok inv xs(1,2) q(1) xs(3)] by (auto simp: strict_prefix_def)
  have prer: "prefix (disk_base env root) r" using resolve_inside [OF ok inv ys(1) r] ys(3) by blast
  note place = resolved_place [OF ok inv ys(1) r]
  show ?thesis
  proof (cases n)
    case (File i)
    with op False q r have "q \<noteq> r" "node_at h r \<noteq> Some Dir"
      by (auto simp: fs_rename_def split: option.splits node.splits if_splits)
    with place op d q r File show ?thesis
      by (intro confined_rename_file [OF inv _ preq(1) prer, of i]) auto
  next
    case Dir
    with op False q r have h': "h' = move_tree q r h" and mv: "\<not> prefix q r"
      "\<not> list_ex (\<lambda>(q', _). strict_prefix r q') (hs_nodes h)"
      by (auto simp: fs_rename_def move_tree_def moved_name_def split: option.splits node.splits if_splits)
    have none: "node_at h p = Some m \<Longrightarrow> \<not> strict_prefix r p" for p m
      using mv(2) by (auto simp: list_ex_iff node_at_def dest: map_of_SomeD split: if_splits)
    have "r \<noteq> []" using none [of q n] q(2) preq(2) by (auto simp: strict_prefix_def)
    with none mv(1) preq(2) have "movable q r h" by (simp add: movable_def)
    moreover have "list_all plain_name r \<and> node_at h (butlast r) = Some Dir"
      using place fs_invD(2,3) [OF inv] by blast
    ultimately show ?thesis using confined_move_tree [OF ok inv _ preq(1) prer free] h' by simp
  qed
qed

section \<open>The operations of the storage\<close>

lemma DiskObjectStorage_store_confined:
  assumes ok: "root_ok root" and inv: "fs_inv env root h"
  shows "DiskObjectStorage_put env root k b h = (q, h') \<Longrightarrow> confined env root h h'"
    and "DiskObjectStorage_setnx env root k b h = (x, h') \<Longrightarrow> confined env root h h'"
proof -
  have "confined env root h (snd (DiskObjectStorage_put env root k b h)) \<and>
    confined env root h (snd (DiskObjectStorage_setnx env root k b h))"
  proof (cases "mapPath root k")
    case None
    then show ?thesis
      using confined_refl [OF inv] by (simp add: DiskObjectStorage_put_def DiskObjectStorage_setnx_def)
  next
    case (Some t)
    then obtain xs where t: "t = root @ xs" and xs: "\<forall>x\<in>set xs. part_ok x" "xs \<noteq> []"
      using mapPath_parts [OF ok Some] by blast
    obtain d h1 where d: "fs_create_directories env (path_parent t) h = (d, h1)" by fastforce
    obtain f h2 where o: "ofs_open env t h1 = (f, h2)" by fastforce
    obtain f' h3 where w: "ofs_write env f b h2 = (f', h3)" by fastforce
    obtain f'' h4 where c: "ofs_close f' h3 = (f'', h4)" by fastforce
    have 1: "confined env root h h1" by (rule confined_dirs [OF ok inv xs(1) d [unfolded t]])
    note 2 = confined_open [OF ok confined_inv [OF 1] xs o [unfolded t]]
    note 3 = confined_write [OF confined_inv [OF conjunct1 [OF 2]] conjunct1 [OF conjunct2 [OF 2]] w]
    note 4 = confined_close [OF confined_inv [OF conjunct1 [OF 3]] conjunct2 [OF 3] c]
    from 2 3 4 have "confined env root h h2" "confined env root h h4"
      using 1 confined_trans by blast+
    with 1 confined_refl [OF inv] show ?thesis
      by (simp add: DiskObjectStorage_put_def DiskObjectStorage_setnx_def Some d o w c
          split: outcome.split bool.split)
  qed
  then show "DiskObjectStorage_put env root k b h = (q, h') \<Longrightarrow> confined env root h h'"
    "DiskObjectStorage_setnx env root k b h = (x, h') \<Longrightarrow> confined env root h h'" by simp_all
qed

lemma DiskObjectStorage_del_confined:
  assumes "root_ok root" "fs_inv env root h" "DiskObjectStorage_del env root k h = (d, h')"
  shows "confined env root h h'"
proof (cases "mapPath root k")
  case None
  with assms(3) confined_refl [OF assms(2)] show ?thesis by (simp add: DiskObjectStorage_del_def)
next
  case (Some t)
  from mapPath_parts [OF assms(1) Some] obtain xs where "t = root @ xs" "\<forall>x\<in>set xs. part_ok x" .
  with confined_remove [OF assms(1,2)] assms(3) Some show ?thesis by (simp add: DiskObjectStorage_del_def)
qed

section \<open>Write sessions\<close>

definition upload_inside :: "os_env \<Rightarrow> fs_path \<Rightarrow> disk_write \<Rightarrow> host \<Rightarrow> bool" where
  "upload_inside env root w h \<longleftrightarrow>
     (\<exists>zs. zs \<noteq> [] \<and> (\<forall>z\<in>set zs. part_ok z) \<and> dw_finalPath w = root @ zs \<and>
        dw_tempPath w = root @ butlast zs @ [last zs @ ''.tmp'']) \<and>
     (ofs_good (dw_file w) \<longrightarrow> ends_proper (dw_tempPath w)) \<and>
     stream_inside (disk_base env root) (dw_file w) h"

lemma upload_inside_kept:
  "upload_inside env root w h \<Longrightarrow> host_kept (disk_base env root) h h' \<Longrightarrow> upload_inside env root w h'"
  unfolding upload_inside_def using stream_inside_kept by blast

lemma temp_parts:
  assumes "\<forall>z\<in>set zs. part_ok z" "zs \<noteq> []"
  shows "\<forall>x\<in>set (butlast zs @ [last zs @ ''.tmp'']). part_ok x"
  using assms part_ok_tmp [of "last zs"] by (auto dest: in_set_butlastD)

lemma c_path_suffix: "c_path (p @ [z]) = c_path (p @ [z @ s]) \<or> last (c_path (p @ [z])) = z"
proof (cases "CHR 0x00 \<in> set z")
  case True
  then show ?thesis by (simp add: c_path_snoc takeWhile_append1 [OF True])
next
  case False
  then have "takeWhile (\<lambda>x. x \<noteq> CHR 0x00) z = z" by (auto simp: takeWhile_eq_all_conv)
  then show ?thesis by (simp add: c_path_snoc)
qed

lemma final_not_up:
  assumes "\<forall>z\<in>set zs. part_ok z" "zs \<noteq> []"
    and "ends_proper (root @ butlast zs @ [last zs @ ''.tmp''])"
  shows "last (c_path (root @ zs)) \<noteq> ''..''"
proof -
  have "c_path (root @ zs) = c_path (root @ butlast zs @ [last zs @ ''.tmp'']) \<or>
      last (c_path (root @ zs)) = last zs"
    using c_path_suffix [of "root @ butlast zs" "last zs" "''.tmp''"] assms(2) by simp
  moreover have "last zs \<noteq> ''..''" using part_ok_dots assms(1,2) by simp
  ultimately show ?thesis using assms(3) unfolding ends_proper_def by auto
qed

lemma DiskObjectStorage_beginPut_confined:
  assumes ok: "root_ok root" and inv: "fs_inv env root h"
    and op: "DiskObjectStorage_beginPut env root k n h = (res, h')"
  shows "confined env root h h' \<and> (\<forall>w. bp_session res = Some w \<longrightarrow> upload_inside env root w h')"
proof (cases "mapPath root k")
  case None
  with op confined_refl [OF inv] show ?thesis by (auto simp: DiskObjectStorage_beginPut_def)
next
  case (Some t)
  then obtain xs where t: "t = root @ xs" and xs: "\<forall>x\<in>set xs. part_ok x" "xs \<noteq> []"
    using mapPath_parts [OF ok Some] by blast
  let ?temp = "root @ butlast xs @ [last xs @ ''.tmp'']"
  have temp: "path_concat t ''.tmp'' = ?temp" using xs(2) by (simp add: t path_concat_def butlast_append)
  obtain d h1 where d: "fs_create_directories env (path_parent t) h = (d, h1)" by fastforce
  obtain f h2 where o: "ofs_open env ?temp h1 = (f, h2)" by fastforce
  have 1: "confined env root h h1" by (rule confined_dirs [OF ok inv xs(1) d [unfolded t]])
  note 2 = confined_open [OF ok confined_inv [OF 1] temp_parts [OF xs] _ o]
  have h2: "confined env root h h2" using 1 2 confined_trans by blast
  show ?thesis
  proof (cases d)
    case False
    with op Some d 1 show ?thesis by (auto simp: DiskObjectStorage_beginPut_def)
  next
    case True
    let ?w = "\<lparr>dw_tempPath = ?temp, dw_finalPath = t, dw_file = f, dw_finished = False\<rparr>"
    have "upload_inside env root ?w h2" using 2 xs t by (auto simp: upload_inside_def)
    moreover from True op Some d o have "res = \<lparr>bp_status = PutOk, bp_session = Some ?w\<rparr>" "h' = h2"
      by (auto simp: DiskObjectStorage_beginPut_def DiskWriteSession_new_def temp)
    ultimately show ?thesis using h2 by simp
  qed
qed

lemma DiskWriteSession_writeChunk_confined:
  assumes "fs_inv env root h" "upload_inside env root w h"
    and "DiskWriteSession_writeChunk env w c h = (r, w', h')"
  shows "confined env root h h' \<and> upload_inside env root w' h'"
proof (cases "ofs_good (dw_file w)")
  case False
  with assms confined_refl [OF assms(1)] show ?thesis by (simp add: DiskWriteSession_writeChunk_def)
next
  case True
  obtain f h1 where wr: "ofs_write env (dw_file w) c h = (f, h1)" by fastforce
  have "stream_inside (disk_base env root) (dw_file w) h" using assms(2) by (simp add: upload_inside_def)
  from confined_write [OF assms(1) this wr] assms(2,3) True wr show ?thesis
    by (auto simp: DiskWriteSession_writeChunk_def upload_inside_def)
qed

lemma DiskWriteSession_end_confined:
  assumes ok: "root_ok root" and inv: "fs_inv env root h" and up: "upload_inside env root w h"
  shows "DiskWriteSession_abort env w h = (w', h') \<Longrightarrow> confined env root h h'"
    and "(\<And>p. prefix (disk_base env root) p \<Longrightarrow> \<not> env_refuses env p) \<Longrightarrow>
      DiskWriteSession_finish env w h = (q, w', h') \<Longrightarrow> confined env root h h'"
proof -
  obtain zs where zs: "\<forall>z\<in>set zs. part_ok z" "zs \<noteq> []" "dw_finalPath w = root @ zs"
    "dw_tempPath w = root @ butlast zs @ [last zs @ ''.tmp'']"
    and proper: "ofs_good (dw_file w) \<Longrightarrow> ends_proper (dw_tempPath w)"
    and inside: "stream_inside (disk_base env root) (dw_file w) h"
    using up by (auto simp: upload_inside_def)
  note tmp = temp_parts [OF zs(1,2)]
  obtain f h1 where c: "ofs_close (dw_file w) h = (f, h1)" by fastforce
  have 1: "confined env root h h1" using confined_close [OF inv inside c] by simp
  have rm: "confined env root h (snd (fs_remove env (dw_tempPath w) t))" if "confined env root h t" for t
    using confined_remove [OF ok confined_inv [OF that] tmp] confined_trans [OF that]
    by (metis zs(4) prod.collapse)
  show "DiskWriteSession_abort env w h = (w', h') \<Longrightarrow> confined env root h h'"
    using rm [OF 1] by (auto simp: DiskWriteSession_abort_def c)
  assume free: "\<And>p. prefix (disk_base env root) p \<Longrightarrow> \<not> env_refuses env p"
    and fin: "DiskWriteSession_finish env w h = (q, w', h')"
  show "confined env root h h'"
  proof (cases "ofs_good f")
    case False
    with fin rm [OF 1] show ?thesis by (auto simp: DiskWriteSession_finish_def c)
  next
    case True
    then have "ends_proper (dw_tempPath w)"
      using c proper by (auto simp: ofs_close_def Let_def split: option.splits if_splits prod.splits)
    note pr = this [unfolded zs(4)]
    obtain d h2 where rn: "fs_rename env (dw_tempPath w) (dw_finalPath w) h1 = (d, h2)" by fastforce
    have "confined env root h1 h2"
      using confined_rename [OF ok confined_inv [OF 1] free tmp _ pr zs(1,2) final_not_up [OF zs(1,2) pr]]
        rn by (simp add: zs(3,4))
    with 1 have 2: "confined env root h h2" using confined_trans by blast
    with fin rm [OF 2] rn True show ?thesis
      by (auto simp: DiskWriteSession_finish_def c Let_def split: if_splits)
  qed
qed

end
