(* ===== verification/Object_Storage.thy ===== *)
theory Object_Storage
  imports Storage_Interface
begin

text \<open>
  \<open>Core/Storage/ObjectStorage.cpp\<close>: the in-memory storage, a \<open>std::unordered_map\<close> from paths to
  byte strings under a mutex. Each method holds the mutex for its whole body, so a call is one
  atomic step of the state.
\<close>

record object_storage =
  os_storage :: "(string \<times> bytes) list"

definition ObjectStorage_init :: object_storage where
  "ObjectStorage_init = \<lparr>os_storage = []\<rparr>"

definition ObjectStorage_put :: "string \<Rightarrow> bytes \<Rightarrow> object_storage \<Rightarrow> put_result \<times> object_storage" where
  "ObjectStorage_put path b s =
     (if path = [] then (PutInvalidPath, s)
      else (PutOk, s\<lparr>os_storage := AList.update path b (os_storage s)\<rparr>))"

definition ObjectStorage_get :: "string \<Rightarrow> object_storage \<Rightarrow> bytes option" where
  "ObjectStorage_get path s = map_of (os_storage s) path"

text \<open>\<open>erase\<close> returns the number of elements removed.\<close>

definition ObjectStorage_del :: "string \<Rightarrow> object_storage \<Rightarrow> bool \<times> object_storage" where
  "ObjectStorage_del path s =
     (let storage' = AList.delete path (os_storage s)
      in (length (os_storage s) - length storage' > 0, s\<lparr>os_storage := storage'\<rparr>))"

definition ObjectStorage_keys :: "object_storage \<Rightarrow> string list outcome" where
  "ObjectStorage_keys s = Ret (map fst (os_storage s))"

definition ObjectStorage_exists :: "string \<Rightarrow> object_storage \<Rightarrow> bool outcome" where
  "ObjectStorage_exists path s = Ret (map_of (os_storage s) path \<noteq> None)"

text \<open>\<open>try_emplace\<close> inserts only when the key is absent.\<close>

definition ObjectStorage_setnx ::
    "string \<Rightarrow> bytes \<Rightarrow> object_storage \<Rightarrow> setnx_result outcome \<times> object_storage" where
  "ObjectStorage_setnx path b s =
     (if path = [] then (Ret NxInvalidPath, s)
      else if map_of (os_storage s) path = None
      then (Ret NxInserted, s\<lparr>os_storage := AList.update path b (os_storage s)\<rparr>)
      else (Ret NxAlreadyExists, s))"

definition ObjectStorage_vt :: "object_storage object_vt" where
  "ObjectStorage_vt =
     \<lparr>vt_put = ObjectStorage_put, vt_get = ObjectStorage_get, vt_del = ObjectStorage_del,
      vt_keys = ObjectStorage_keys, vt_exists = ObjectStorage_exists,
      vt_setnx = ObjectStorage_setnx\<rparr>"

section \<open>Correctness\<close>

definition os_inv :: "object_storage \<Rightarrow> bool" where
  "os_inv s \<longleftrightarrow> alist_ok (os_storage s) \<and> [] \<notin> fst ` set (os_storage s)"

definition os_view :: "object_storage \<Rightarrow> string \<Rightarrow> bytes option" where
  "os_view s = map_of (os_storage s)"

lemmas ObjectStorage_defs [obsto_defs] =
  ObjectStorage_put_def ObjectStorage_get_def ObjectStorage_del_def ObjectStorage_keys_def
  ObjectStorage_exists_def ObjectStorage_setnx_def os_view_def

lemma ObjectStorage_vt_simps [simp, obsto_vt]:
  "vt_put ObjectStorage_vt = ObjectStorage_put" "vt_get ObjectStorage_vt = ObjectStorage_get"
  "vt_del ObjectStorage_vt = ObjectStorage_del" "vt_keys ObjectStorage_vt = ObjectStorage_keys"
  "vt_exists ObjectStorage_vt = ObjectStorage_exists"
  "vt_setnx ObjectStorage_vt = ObjectStorage_setnx"
  by (simp_all add: ObjectStorage_vt_def)

lemma ObjectStorage_del_iff: "fst (ObjectStorage_del p s) \<longleftrightarrow> os_view s p \<noteq> None"
proof (cases "p \<in> fst ` set (os_storage s)")
  case True
  with length_delete_less [OF True] map_of_eq_None_iff [of "os_storage s" p] show ?thesis
    by (auto simp: ObjectStorage_defs Let_def)
next
  case False
  then have "map_of (os_storage s) p = None" by (simp add: map_of_eq_None_iff)
  with False show ?thesis by (simp add: ObjectStorage_defs Let_def)
qed

lemma ObjectStorage_inv:
  assumes "os_inv s"
  shows "os_inv (snd (ObjectStorage_put p b s))" "os_inv (snd (ObjectStorage_del p s))"
    "os_inv (snd (ObjectStorage_setnx p b s))"
  using assms AList.dom_delete_subset [of p "os_storage s"]
  by (auto simp: os_inv_def ObjectStorage_defs Let_def AList.dom_update)

lemma ObjectStorage_init_inv [simp]: "os_inv ObjectStorage_init"
  by (simp add: os_inv_def ObjectStorage_init_def)

lemma os_view_Nil: "os_inv s \<Longrightarrow> os_view s [] = None"
  by (simp add: os_inv_def os_view_def map_of_eq_None_iff)

interpretation os: reliable_store ObjectStorage_vt os_inv os_view "\<lambda>p. p \<noteq> []"
proof
  fix s p
  assume "os_inv s" "os_view s p \<noteq> None"
  then show "p \<noteq> []" using os_view_Nil by metis
next
  fix s p b r s'
  assume "os_inv s" "vt_put ObjectStorage_vt p b s = (r, s')"
  then show "os_inv s'" using ObjectStorage_inv(1) [of s p b] by simp
next
  fix s p d s'
  assume "os_inv s" "vt_del ObjectStorage_vt p s = (d, s')"
  then show "os_inv s'" using ObjectStorage_inv(2) [of s p] by simp
next
  fix s p b n s'
  assume "os_inv s" "vt_setnx ObjectStorage_vt p b s = (n, s')"
  then show "os_inv s'" using ObjectStorage_inv(3) [of s p b] by simp
next
  fix s p d s'
  assume "vt_del ObjectStorage_vt p s = (d, s')"
  then show "os_view s' = (if d then (os_view s)(p := None) else os_view s)"
    using ObjectStorage_del_iff [of p s]
    by (auto simp: ObjectStorage_del_def os_view_def Let_def)
next
  fix s p
  show "fst (vt_del ObjectStorage_vt p s) \<longleftrightarrow> os_view s p \<noteq> None"
    by (simp add: ObjectStorage_del_iff)
  then show "os_view s p \<noteq> None \<Longrightarrow> fst (vt_del ObjectStorage_vt p s)" by simp
qed (auto simp: ObjectStorage_defs os_inv_def alist_ok_def dom_map_of_alist split: if_splits)

text \<open>C27.
  The in-memory storage refines a partial map: on every state it keeps well formed, each operation
  returns what the map would and changes exactly the entry it names.\<close>

theorem ObjectStorage_refines_map:
  assumes "os_inv s"
  shows "(path \<noteq> [] \<longrightarrow> fst (ObjectStorage_put path b s) = PutOk \<and>
      os_view (snd (ObjectStorage_put path b s)) = (os_view s)(path \<mapsto> b)) \<and>
    ObjectStorage_put [] b s = (PutInvalidPath, s) \<and>
    ObjectStorage_get path s = os_view s path \<and>
    (fst (ObjectStorage_del path s) \<longleftrightarrow> path \<in> dom (os_view s)) \<and>
    os_view (snd (ObjectStorage_del path s)) = (os_view s)(path := None) \<and>
    (\<exists>ks. ObjectStorage_keys s = Ret ks \<and> distinct ks \<and> set ks = dom (os_view s)) \<and>
    ObjectStorage_exists path s = Ret (path \<in> dom (os_view s)) \<and>
    (path \<noteq> [] \<longrightarrow> ObjectStorage_setnx path b s =
      (if path \<in> dom (os_view s) then (Ret NxAlreadyExists, s)
       else (Ret NxInserted, snd (ObjectStorage_put path b s))))"
  using assms ObjectStorage_del_iff [of path s]
  by (auto simp: ObjectStorage_defs os_inv_def alist_ok_def dom_map_of_alist Let_def
      simp del: not_None_eq)

theorem ObjectStorage_refines_map_witness:
  "ObjectStorage_get ''k'' (snd (ObjectStorage_put ''k'' ''v'' ObjectStorage_init)) = Some ''v''"
  using ObjectStorage_refines_map [OF ObjectStorage_init_inv, of "''k''" "''v''"]
    ObjectStorage_refines_map [of "snd (ObjectStorage_put ''k'' ''v'' ObjectStorage_init)" "''k''"]
    ObjectStorage_inv(1) [OF ObjectStorage_init_inv, of "''k''" "''v''"]
  by simp

end
