(* ===== verification/Size_Index.thy ===== *)
theory Size_Index
  imports Storage_Interface Fs_Path
begin

text \<open>
  The size accounting of \<open>Core/Storage/Persistency/StoragePersistency.cpp\<close>: a map from object paths
  to sizes and the running total of the sizes, both behind a mutex held for the whole of each method.
  The locale \<open>size_index\<close> is what the bounded storage relies on; the scan of the disk that fills the
  index is in \<open>Disk_Index\<close>.
\<close>

record storage_persistency =
  sp_rootDir :: fs_path
  sp_sizes :: "(string \<times> size_t) list"
  sp_totalBytes :: size_t

definition StoragePersistency_keys :: "storage_persistency \<Rightarrow> string list" where
  "StoragePersistency_keys sp = map fst (sp_sizes sp)"

definition StoragePersistency_entries :: "storage_persistency \<Rightarrow> (string \<times> size_t) list" where
  "StoragePersistency_entries sp = sp_sizes sp"

definition StoragePersistency_objectSize :: "string \<Rightarrow> storage_persistency \<Rightarrow> size_t option" where
  "StoragePersistency_objectSize path sp = map_of (sp_sizes sp) path"

definition StoragePersistency_totalBytes :: "storage_persistency \<Rightarrow> size_t" where
  "StoragePersistency_totalBytes sp = sp_totalBytes sp"

definition StoragePersistency_contains :: "string \<Rightarrow> storage_persistency \<Rightarrow> bool" where
  "StoragePersistency_contains path sp \<longleftrightarrow> map_of (sp_sizes sp) path \<noteq> None"

definition StoragePersistency_upsert ::
    "string \<Rightarrow> size_t \<Rightarrow> storage_persistency \<Rightarrow> storage_persistency" where
  "StoragePersistency_upsert path n sp =
     (let total = (case map_of (sp_sizes sp) path of
                     Some old \<Rightarrow> sp_totalBytes sp - old
                   | None \<Rightarrow> sp_totalBytes sp)
      in sp\<lparr>sp_sizes := AList.update path n (sp_sizes sp), sp_totalBytes := total + n\<rparr>)"

definition StoragePersistency_erase ::
    "string \<Rightarrow> storage_persistency \<Rightarrow> bool \<times> storage_persistency" where
  "StoragePersistency_erase path sp =
     (case map_of (sp_sizes sp) path of
        None \<Rightarrow> (False, sp)
      | Some old \<Rightarrow>
          (True, sp\<lparr>sp_totalBytes := sp_totalBytes sp - old,
                    sp_sizes := AList.delete path (sp_sizes sp)\<rparr>))"

definition StoragePersistency_rootDir :: "storage_persistency \<Rightarrow> fs_path" where
  "StoragePersistency_rootDir sp = sp_rootDir sp"

lemmas StoragePersistency_defs [obsto_defs] =
  StoragePersistency_keys_def StoragePersistency_entries_def StoragePersistency_objectSize_def
  StoragePersistency_totalBytes_def StoragePersistency_contains_def StoragePersistency_upsert_def
  StoragePersistency_erase_def StoragePersistency_rootDir_def

section \<open>The contract of a size index\<close>

text \<open>
  \<open>recorded\<close> is the map of the recorded sizes and \<open>total\<close> the running total. The last law is what makes
  the total meaningful: it is the sum of the recorded sizes, modulo \<open>2 ^ 64\<close>.
\<close>

locale size_index =
  fixes inv :: "'i \<Rightarrow> bool"
    and recorded :: "'i \<Rightarrow> string \<Rightarrow> size_t option"
    and total :: "'i \<Rightarrow> size_t"
    and upsert :: "string \<Rightarrow> size_t \<Rightarrow> 'i \<Rightarrow> 'i"
    and erase :: "string \<Rightarrow> 'i \<Rightarrow> 'i"
  assumes upsert_inv: "inv i \<Longrightarrow> inv (upsert p n i)"
    and erase_inv: "inv i \<Longrightarrow> inv (erase p i)"
    and upsert_recorded: "inv i \<Longrightarrow> recorded (upsert p n i) = (recorded i)(p \<mapsto> n)"
    and erase_recorded: "inv i \<Longrightarrow> recorded (erase p i) = (recorded i)(p := None)"
    and recorded_finite: "inv i \<Longrightarrow> finite (dom (recorded i))"
    and total_sum: "inv i \<Longrightarrow> total i = (\<Sum>p \<in> dom (recorded i). the (recorded i p))"
begin

abbreviation old :: "string \<Rightarrow> 'i \<Rightarrow> size_t" where
  "old p i \<equiv> (case recorded i p of None \<Rightarrow> 0 | Some n \<Rightarrow> n)"

text \<open>The bytes recorded, as a number that does not wrap.\<close>

definition bytes_of :: "'i \<Rightarrow> nat" where
  "bytes_of i = (\<Sum>p \<in> dom (recorded i). unat (the (recorded i p)))"

lemma total_bytes: "inv i \<Longrightarrow> total i = of_nat (bytes_of i)"
  by (simp add: total_sum bytes_of_def)

lemma bytes_upsert:
  assumes "inv i"
  shows "bytes_of (upsert p n i) + unat (old p i) = bytes_of i + unat n"
  using sum_dom_split [OF recorded_finite [OF assms], of unat p]
    sum_dom_update [OF recorded_finite [OF assms], of unat p n]
  by (simp add: bytes_of_def upsert_recorded [OF assms] split: option.splits)

lemma bytes_erase:
  assumes "inv i"
  shows "bytes_of (erase p i) + unat (old p i) = bytes_of i"
  using sum_dom_split [OF recorded_finite [OF assms], of unat p]
    sum_dom_delete [of unat "recorded i" p]
  by (simp add: bytes_of_def erase_recorded [OF assms] split: option.splits)

lemma total_upsert: "inv i \<Longrightarrow> total (upsert p n i) = total i - old p i + n"
  using arg_cong [OF bytes_upsert, of i "of_nat :: nat \<Rightarrow> size_t" p n]
  by (simp add: total_bytes upsert_inv algebra_simps)

lemma total_erase: "inv i \<Longrightarrow> total (erase p i) = total i - old p i"
  using arg_cong [OF bytes_erase, of i "of_nat :: nat \<Rightarrow> size_t" p]
  by (simp add: total_bytes erase_inv algebra_simps)

lemma old_le_bytes: "inv i \<Longrightarrow> unat (old p i) \<le> bytes_of i"
  using bytes_erase [of i p] by simp

text \<open>An insertion that is undone restores the record.\<close>

lemma upsert_undo_new:
  "inv i \<Longrightarrow> recorded i p = None \<Longrightarrow> recorded (erase p (upsert p n i)) = recorded i"
  by (simp add: erase_recorded upsert_inv upsert_recorded fun_upd_idem)

lemma upsert_undo_old:
  "inv i \<Longrightarrow> recorded i p = Some m \<Longrightarrow> recorded (upsert p m (upsert p n i)) = recorded i"
  by (simp add: upsert_inv upsert_recorded fun_upd_idem)

end

section \<open>The index keeps the contract\<close>

text \<open>An association list and a running total: the shape that the code has twice.\<close>

definition index_ok :: "(string \<times> size_t) list \<Rightarrow> size_t \<Rightarrow> bool" where
  "index_ok al t \<longleftrightarrow> alist_ok al \<and> t = total_of al"

lemma index_ok_update:
  "index_ok al t \<Longrightarrow> map_of al p = Some m \<Longrightarrow> index_ok (AList.update p n al) (t - m + n)"
  by (simp add: index_ok_def total_of_update)

lemma index_ok_insert:
  "index_ok al t \<Longrightarrow> map_of al p = None \<Longrightarrow> index_ok (AList.update p n al) (t + n)"
  by (simp add: index_ok_def total_of_update)

lemma index_ok_delete:
  "index_ok al t \<Longrightarrow> map_of al p = Some m \<Longrightarrow> index_ok (AList.delete p al) (t - m)"
  by (simp add: index_ok_def total_of_delete)

lemma total_of_sum:
  "alist_ok al \<Longrightarrow> total_of al = (\<Sum>p \<in> dom (map_of al). the (map_of al p))"
proof (induction al)
  case Nil
  then show ?case by simp
next
  case (Cons x al)
  obtain k v where x: "x = (k, v)" by (cases x)
  from Cons.prems x have ok: "alist_ok al" and k: "dom (map_of al) - {k} = dom (map_of al)"
    by (auto simp: alist_ok_def dom_map_of_alist)
  have m: "map_of (x # al) = (map_of al)(k \<mapsto> v)" by (simp add: x)
  have "(\<Sum>p \<in> dom (map_of (x # al)). the (map_of (x # al) p)) = v + total_of al"
    unfolding m
      sum_dom_update [OF finite_dom_map_of, where f = "\<lambda>v. v" and p = k and v = v] k
      Cons.IH [OF ok] ..
  then show ?case by (simp only: x total_of_Cons snd_conv)
qed

definition sp_inv :: "storage_persistency \<Rightarrow> bool" where
  "sp_inv sp \<longleftrightarrow> index_ok (sp_sizes sp) (sp_totalBytes sp)"

interpretation sp: size_index sp_inv "\<lambda>sp p. StoragePersistency_objectSize p sp"
  StoragePersistency_totalBytes StoragePersistency_upsert
  "\<lambda>p sp. snd (StoragePersistency_erase p sp)"
proof (unfold_locales, goal_cases)
  case (6 sp)
  then show ?case by (simp add: sp_inv_def index_ok_def total_of_sum StoragePersistency_defs)
qed (auto simp: sp_inv_def StoragePersistency_defs Let_def fun_eq_iff index_ok_update
    index_ok_insert index_ok_delete finite_dom_map_of split: option.splits)

text \<open>
  The total the index reports is always the sum of the recorded sizes modulo \<open>2 ^ 64\<close>: \<open>upsert\<close> and
  \<open>erase\<close> preserve it, record or remove exactly the size of the path they are given, and \<open>erase\<close>
  answers whether the path was there.\<close>

theorem StoragePersistency_accounting:
  assumes "sp_inv sp"
  shows "StoragePersistency_totalBytes sp = total_of (StoragePersistency_entries sp) \<and>
    sp_inv (StoragePersistency_upsert path n sp) \<and>
    sp_inv (snd (StoragePersistency_erase path sp)) \<and>
    (\<forall>q. StoragePersistency_objectSize q (StoragePersistency_upsert path n sp) =
      (if q = path then Some n else StoragePersistency_objectSize q sp)) \<and>
    (\<forall>q. StoragePersistency_objectSize q (snd (StoragePersistency_erase path sp)) =
      (if q = path then None else StoragePersistency_objectSize q sp)) \<and>
    (fst (StoragePersistency_erase path sp) \<longleftrightarrow> StoragePersistency_contains path sp)"
  using assms sp.upsert_inv [OF assms, of path n] sp.erase_inv [OF assms, of path]
    sp.upsert_recorded [OF assms, of path n] sp.erase_recorded [OF assms, of path]
  by (auto simp: fun_eq_iff sp_inv_def index_ok_def StoragePersistency_totalBytes_def
      StoragePersistency_entries_def StoragePersistency_erase_def StoragePersistency_contains_def
      split: option.splits)

theorem StoragePersistency_accounting_witness:
  "StoragePersistency_objectSize ''a''
     (StoragePersistency_upsert ''a'' 7 \<lparr>sp_rootDir = [''/'', ''d''], sp_sizes = [], sp_totalBytes = 0\<rparr>) =
   Some 7"
  using StoragePersistency_accounting
      [of "\<lparr>sp_rootDir = [''/'', ''d''], sp_sizes = [], sp_totalBytes = 0\<rparr>" "''a''" 7]
  by (simp add: sp_inv_def index_ok_def)

end
