(* ===== verification/Bounded_Storage.thy ===== *)
theory Bounded_Storage
  imports Object_Storage Size_Index
begin

text \<open>
  \<open>Core/Storage/BoundedObjectStorage.cpp\<close> and \<open>Streaming/BoundedWriteSession.cpp\<close>: the capacity
  limit in front of another storage. The inner storage is a method table and its state; the
  \<open>dynamic_cast\<close> to \<open>IStreamingObjectStorage\<close> is an optional second table. Sizes are recorded either
  in the shared \<open>StoragePersistency\<close> object (when one was given) or in the members \<open>m_sizes\<close> and
  \<open>m_currentBytes\<close>. All methods but the abort callback run under the object's mutex.
\<close>

record 's bounded_storage =
  b_inner :: 's
  b_persistency :: "storage_persistency option"
  b_maxBytes :: size_t
  b_currentBytes :: size_t
  b_sizes :: "(string \<times> size_t) list"

definition BoundedObjectStorage_new :: "'s \<Rightarrow> size_t \<Rightarrow> 's bounded_storage" where
  "BoundedObjectStorage_new inner maxBytes =
     \<lparr>b_inner = inner, b_persistency = None, b_maxBytes = maxBytes, b_currentBytes = 0,
      b_sizes = []\<rparr>"

definition BoundedObjectStorage_new_persistent ::
    "'s \<Rightarrow> storage_persistency \<Rightarrow> size_t \<Rightarrow> 's bounded_storage" where
  "BoundedObjectStorage_new_persistent inner persistency maxBytes =
     fold (\<lambda>(path, n) s. s\<lparr>b_sizes := AList.update path n (b_sizes s),
                            b_currentBytes := b_currentBytes s + n\<rparr>)
       (StoragePersistency_entries persistency)
       \<lparr>b_inner = inner, b_persistency = Some persistency, b_maxBytes = maxBytes,
        b_currentBytes = 0, b_sizes = []\<rparr>"

section \<open>The accounting\<close>

definition BoundedObjectStorage_totalBytes :: "'s bounded_storage \<Rightarrow> size_t" where
  "BoundedObjectStorage_totalBytes s =
     (case b_persistency s of
        Some sp \<Rightarrow> StoragePersistency_totalBytes sp
      | None \<Rightarrow> b_currentBytes s)"

definition BoundedObjectStorage_objectSize :: "string \<Rightarrow> 's bounded_storage \<Rightarrow> size_t option" where
  "BoundedObjectStorage_objectSize path s =
     (case b_persistency s of
        Some sp \<Rightarrow> StoragePersistency_objectSize path sp
      | None \<Rightarrow> map_of (b_sizes s) path)"

definition BoundedObjectStorage_contains :: "string \<Rightarrow> 's bounded_storage \<Rightarrow> bool" where
  "BoundedObjectStorage_contains path s =
     (case b_persistency s of
        Some sp \<Rightarrow> StoragePersistency_contains path sp
      | None \<Rightarrow> map_of (b_sizes s) path \<noteq> None)"

definition BoundedObjectStorage_upsert ::
    "string \<Rightarrow> size_t \<Rightarrow> 's bounded_storage \<Rightarrow> 's bounded_storage" where
  "BoundedObjectStorage_upsert path n s =
     (case b_persistency s of
        Some sp \<Rightarrow> s\<lparr>b_persistency := Some (StoragePersistency_upsert path n sp)\<rparr>
      | None \<Rightarrow>
          let current = (case map_of (b_sizes s) path of
                           Some old \<Rightarrow> b_currentBytes s - old
                         | None \<Rightarrow> b_currentBytes s)
          in s\<lparr>b_sizes := AList.update path n (b_sizes s), b_currentBytes := current + n\<rparr>)"

definition BoundedObjectStorage_erase :: "string \<Rightarrow> 's bounded_storage \<Rightarrow> 's bounded_storage" where
  "BoundedObjectStorage_erase path s =
     (case b_persistency s of
        Some sp \<Rightarrow> s\<lparr>b_persistency := Some (snd (StoragePersistency_erase path sp))\<rparr>
      | None \<Rightarrow>
          (case map_of (b_sizes s) path of
             None \<Rightarrow> s
           | Some old \<Rightarrow> s\<lparr>b_currentBytes := b_currentBytes s - old,
                            b_sizes := AList.delete path (b_sizes s)\<rparr>))"

definition BoundedObjectStorage_wouldFit :: "string \<Rightarrow> size_t \<Rightarrow> 's bounded_storage \<Rightarrow> bool" where
  "BoundedObjectStorage_wouldFit path incomingBytes s =
     (let existingSize = (case BoundedObjectStorage_objectSize path s of
                            None \<Rightarrow> 0 | Some n \<Rightarrow> n);
          newTotalBytes = BoundedObjectStorage_totalBytes s - existingSize + incomingBytes
      in newTotalBytes \<le> b_maxBytes s)"

section \<open>The methods of \<open>IObjectStorage\<close>\<close>

definition BoundedObjectStorage_put ::
    "'s object_vt \<Rightarrow> string \<Rightarrow> bytes \<Rightarrow> 's bounded_storage \<Rightarrow> put_result \<times> 's bounded_storage" where
  "BoundedObjectStorage_put ivt path b s =
     (if path = [] then (PutInvalidPath, s)
      else
        let incomingBytes = of_nat (length b)
        in if \<not> BoundedObjectStorage_wouldFit path incomingBytes s then (PutCapacityExceeded, s)
           else
             let (result, inner') = vt_put ivt path b (b_inner s); s' = s\<lparr>b_inner := inner'\<rparr>
             in if result = PutOk then (result, BoundedObjectStorage_upsert path incomingBytes s')
                else (result, s'))"

definition BoundedObjectStorage_get ::
    "'s object_vt \<Rightarrow> string \<Rightarrow> 's bounded_storage \<Rightarrow> bytes option" where
  "BoundedObjectStorage_get ivt path s = vt_get ivt path (b_inner s)"

definition BoundedObjectStorage_del ::
    "'s object_vt \<Rightarrow> string \<Rightarrow> 's bounded_storage \<Rightarrow> bool \<times> 's bounded_storage" where
  "BoundedObjectStorage_del ivt path s =
     (let (deleted, inner') = vt_del ivt path (b_inner s); s' = s\<lparr>b_inner := inner'\<rparr>
      in if \<not> deleted then (False, s') else (True, BoundedObjectStorage_erase path s'))"

definition BoundedObjectStorage_keys ::
    "'s object_vt \<Rightarrow> 's bounded_storage \<Rightarrow> string list outcome" where
  "BoundedObjectStorage_keys ivt s = vt_keys ivt (b_inner s)"

definition BoundedObjectStorage_exists ::
    "'s object_vt \<Rightarrow> string \<Rightarrow> 's bounded_storage \<Rightarrow> bool outcome" where
  "BoundedObjectStorage_exists ivt path s = vt_exists ivt path (b_inner s)"

definition BoundedObjectStorage_setnx ::
    "'s object_vt \<Rightarrow> string \<Rightarrow> bytes \<Rightarrow> 's bounded_storage
      \<Rightarrow> setnx_result outcome \<times> 's bounded_storage" where
  "BoundedObjectStorage_setnx ivt path b s =
     (if path = [] then (Ret NxInvalidPath, s)
      else if BoundedObjectStorage_contains path s then (Ret NxAlreadyExists, s)
      else
        let incomingBytes = of_nat (length b)
        in if \<not> BoundedObjectStorage_wouldFit path incomingBytes s
           then (Ret NxCapacityExceeded, s)
           else
             let (result, inner') = vt_setnx ivt path b (b_inner s); s' = s\<lparr>b_inner := inner'\<rparr>
             in if result = Ret NxInserted
                then (result, BoundedObjectStorage_upsert path incomingBytes s')
                else (result, s'))"

definition BoundedObjectStorage_vt :: "'s object_vt \<Rightarrow> 's bounded_storage object_vt" where
  "BoundedObjectStorage_vt ivt =
     \<lparr>vt_put = BoundedObjectStorage_put ivt, vt_get = BoundedObjectStorage_get ivt,
      vt_del = BoundedObjectStorage_del ivt, vt_keys = BoundedObjectStorage_keys ivt,
      vt_exists = BoundedObjectStorage_exists ivt, vt_setnx = BoundedObjectStorage_setnx ivt\<rparr>"

section \<open>Streaming\<close>

text \<open>
  A \<open>BoundedWriteSession\<close> with what its two callbacks capture: the path and the size the path had
  when the upload began. The commit callback does nothing. When the inner \<open>beginPut\<close> fails its
  result is passed on; the inner storages return a null session then.
\<close>

record 'w bounded_write =
  bw_inner :: 'w
  bw_finalized :: bool
  bw_bytesWritten :: size_t
  bw_path :: string
  bw_previousSize :: "size_t option"

definition BoundedObjectStorage_onAborted ::
    "string \<Rightarrow> size_t option \<Rightarrow> 's bounded_storage \<Rightarrow> 's bounded_storage" where
  "BoundedObjectStorage_onAborted path previousSize s =
     (case previousSize of
        Some n \<Rightarrow> BoundedObjectStorage_upsert path n s
      | None \<Rightarrow> BoundedObjectStorage_erase path s)"

text \<open>The two callbacks are the closures \<open>beginPut\<close> makes over the path and the previous size.\<close>

definition BoundedWriteSession_new :: "'w \<Rightarrow> string \<Rightarrow> size_t option \<Rightarrow> 'w bounded_write" where
  "BoundedWriteSession_new w path previousSize =
     \<lparr>bw_inner = w, bw_finalized = False, bw_bytesWritten = 0,
      bw_path = path, bw_previousSize = previousSize\<rparr>"

declare BoundedWriteSession_new_def [simp]

definition BoundedObjectStorage_beginPut ::
    "('s, 'w, 'r) streaming_vt option \<Rightarrow> string \<Rightarrow> size_t \<Rightarrow> 's bounded_storage
      \<Rightarrow> 'w bounded_write begin_put \<times> 's bounded_storage" where
  "BoundedObjectStorage_beginPut isvt path expectedSize s =
     (case isvt of
        None \<Rightarrow> (\<lparr>bp_status = PutInvalidPath, bp_session = None\<rparr>, s)
      | Some svt \<Rightarrow>
          if \<not> BoundedObjectStorage_wouldFit path expectedSize s
          then (\<lparr>bp_status = PutCapacityExceeded, bp_session = None\<rparr>, s)
          else
            let (innerResult, inner') = vt_beginPut svt path expectedSize (b_inner s);
                s' = s\<lparr>b_inner := inner'\<rparr>
            in if bp_status innerResult \<noteq> PutOk
               then (\<lparr>bp_status = bp_status innerResult, bp_session = None\<rparr>, s')
               else
                 let previousSize = BoundedObjectStorage_objectSize path s'
                 in (\<lparr>bp_status = PutOk,
                      bp_session = map_option
                        (\<lambda>w. BoundedWriteSession_new w path previousSize) (bp_session innerResult)\<rparr>,
                     BoundedObjectStorage_upsert path expectedSize s'))"

definition BoundedObjectStorage_beginGet ::
    "('s, 'w, 'r) streaming_vt option \<Rightarrow> string \<Rightarrow> 's bounded_storage \<Rightarrow> 'r begin_get" where
  "BoundedObjectStorage_beginGet isvt path s =
     (case isvt of
        None \<Rightarrow> \<lparr>bg_found = False, bg_size = 0, bg_session = None\<rparr>
      | Some svt \<Rightarrow> vt_beginGet svt path (b_inner s))"

definition BoundedWriteSession_writeChunk ::
    "('s, 'w, 'r) streaming_vt \<Rightarrow> 'w bounded_write \<Rightarrow> bytes \<Rightarrow> 's bounded_storage
      \<Rightarrow> bool \<times> 'w bounded_write \<times> 's bounded_storage" where
  "BoundedWriteSession_writeChunk svt w chunk s =
     (let (ok, inner', s') = vt_writeChunk svt (bw_inner w) chunk (b_inner s)
      in (ok, w\<lparr>bw_bytesWritten := bw_bytesWritten w + of_nat (length chunk), bw_inner := inner'\<rparr>,
          s\<lparr>b_inner := s'\<rparr>))"

definition BoundedWriteSession_finish ::
    "('s, 'w, 'r) streaming_vt \<Rightarrow> 'w bounded_write \<Rightarrow> 's bounded_storage
      \<Rightarrow> put_result \<times> 'w bounded_write \<times> 's bounded_storage" where
  "BoundedWriteSession_finish svt w s =
     (if bw_finalized w then (PutFailedToWrite, w, s)
      else
        let (result, inner', si) = vt_finish svt (bw_inner w) (b_inner s);
            w' = w\<lparr>bw_inner := inner', bw_finalized := True\<rparr>; s' = s\<lparr>b_inner := si\<rparr>
        in if result = PutOk then (result, w', s')
           else (result, w', BoundedObjectStorage_onAborted (bw_path w) (bw_previousSize w) s'))"

definition BoundedWriteSession_abort ::
    "('s, 'w, 'r) streaming_vt \<Rightarrow> 'w bounded_write \<Rightarrow> 's bounded_storage
      \<Rightarrow> 'w bounded_write \<times> 's bounded_storage" where
  "BoundedWriteSession_abort svt w s =
     (if bw_finalized w then (w, s)
      else
        let (inner', si) = vt_abort svt (bw_inner w) (b_inner s)
        in (w\<lparr>bw_finalized := True, bw_inner := inner'\<rparr>,
            BoundedObjectStorage_onAborted (bw_path w) (bw_previousSize w) (s\<lparr>b_inner := si\<rparr>)))"

text \<open>
  The class is always an \<open>IStreamingObjectStorage\<close>; its sessions are those of the inner storage,
  which exist only when the inner cast succeeded.
\<close>

definition BoundedObjectStorage_svt ::
    "('s, 'w, 'r) streaming_vt \<Rightarrow> ('s bounded_storage, 'w bounded_write, 'r) streaming_vt" where
  "BoundedObjectStorage_svt svt =
     \<lparr>vt_beginPut = BoundedObjectStorage_beginPut (Some svt),
      vt_beginGet = BoundedObjectStorage_beginGet (Some svt),
      vt_writeChunk = BoundedWriteSession_writeChunk svt,
      vt_finish = BoundedWriteSession_finish svt,
      vt_abort = BoundedWriteSession_abort svt,
      vt_readChunk = (\<lambda>r n s. vt_readChunk svt r n (b_inner s))\<rparr>"

lemma BoundedObjectStorage_vt_simps [simp, obsto_vt]:
  "vt_put (BoundedObjectStorage_vt ivt) = BoundedObjectStorage_put ivt"
  "vt_get (BoundedObjectStorage_vt ivt) = BoundedObjectStorage_get ivt"
  "vt_del (BoundedObjectStorage_vt ivt) = BoundedObjectStorage_del ivt"
  "vt_keys (BoundedObjectStorage_vt ivt) = BoundedObjectStorage_keys ivt"
  "vt_exists (BoundedObjectStorage_vt ivt) = BoundedObjectStorage_exists ivt"
  "vt_setnx (BoundedObjectStorage_vt ivt) = BoundedObjectStorage_setnx ivt"
  by (simp_all add: BoundedObjectStorage_vt_def)

section \<open>Correctness of the accounting\<close>

lemma unat_of_nat_size: "k < 2 ^ 64 \<Longrightarrow> unat (of_nat k :: size_t) = k"
  by (simp add: unat_of_nat take_bit_nat_eq_self)

text \<open>Both ways of recording sizes keep the contract of an index.\<close>

definition b_index_ok :: "'s bounded_storage \<Rightarrow> bool" where
  "b_index_ok s \<longleftrightarrow>
     (case b_persistency s of Some sp \<Rightarrow> sp_inv sp | None \<Rightarrow> index_ok (b_sizes s) (b_currentBytes s))"

lemmas Bounded_index_defs [obsto_defs] =
  BoundedObjectStorage_totalBytes_def BoundedObjectStorage_objectSize_def
  BoundedObjectStorage_contains_def BoundedObjectStorage_upsert_def BoundedObjectStorage_erase_def

interpretation bidx: size_index b_index_ok "\<lambda>s p. BoundedObjectStorage_objectSize p s"
  BoundedObjectStorage_totalBytes BoundedObjectStorage_upsert BoundedObjectStorage_erase
proof (unfold_locales, goal_cases)
  case (1 s p n)
  then show ?case
    using sp.upsert_inv index_ok_update index_ok_insert
    by (auto simp: b_index_ok_def Bounded_index_defs Let_def split: option.splits)
next
  case (2 s p)
  then show ?case
    using sp.erase_inv index_ok_delete
    by (auto simp: b_index_ok_def Bounded_index_defs split: option.splits)
next
  case (3 s p n)
  then show ?case
    using sp.upsert_recorded
    by (auto simp: b_index_ok_def Bounded_index_defs Let_def fun_eq_iff split: option.splits)
next
  case (4 s p)
  then show ?case
    using sp.erase_recorded
    by (auto simp: b_index_ok_def Bounded_index_defs fun_eq_iff split: option.splits)
next
  case (5 s)
  then show ?case
    using sp.recorded_finite
    by (auto simp: b_index_ok_def Bounded_index_defs finite_dom_map_of split: option.splits)
next
  case (6 s)
  then show ?case
    using sp.total_sum
    by (auto simp: b_index_ok_def index_ok_def Bounded_index_defs total_of_sum split: option.splits)
qed

lemma Bounded_upsert_size:
  "b_index_ok s \<Longrightarrow> BoundedObjectStorage_objectSize q (BoundedObjectStorage_upsert p n s) =
    (if q = p then Some n else BoundedObjectStorage_objectSize q s)"
  using fun_cong [OF bidx.upsert_recorded [where i = s and p = p and n = n], of q] by simp

lemma Bounded_erase_size:
  "b_index_ok s \<Longrightarrow> BoundedObjectStorage_objectSize q (BoundedObjectStorage_erase p s) =
    (if q = p then None else BoundedObjectStorage_objectSize q s)"
  using fun_cong [OF bidx.erase_recorded [where i = s and p = p], of q] by simp

lemma contains_iff: "BoundedObjectStorage_contains p s \<longleftrightarrow> BoundedObjectStorage_objectSize p s \<noteq> None"
  by (simp add: Bounded_index_defs StoragePersistency_contains_def
      StoragePersistency_objectSize_def split: option.splits)

text \<open>The accounting does not touch the inner storage or the limit, and the converse.\<close>

lemma Bounded_upsert_frame [simp]:
  "b_inner (BoundedObjectStorage_upsert p n s) = b_inner s"
  "b_maxBytes (BoundedObjectStorage_upsert p n s) = b_maxBytes s"
  "b_inner (BoundedObjectStorage_erase p s) = b_inner s"
  "b_maxBytes (BoundedObjectStorage_erase p s) = b_maxBytes s"
  by (auto simp: Bounded_index_defs Let_def split: option.splits)

lemma Bounded_inner_frame [simp]:
  "b_index_ok (s\<lparr>b_inner := i\<rparr>) = b_index_ok s"
  "BoundedObjectStorage_objectSize p (s\<lparr>b_inner := i\<rparr>) = BoundedObjectStorage_objectSize p s"
  "BoundedObjectStorage_totalBytes (s\<lparr>b_inner := i\<rparr>) = BoundedObjectStorage_totalBytes s"
  "BoundedObjectStorage_wouldFit p n (s\<lparr>b_inner := i\<rparr>) = BoundedObjectStorage_wouldFit p n s"
  "BoundedObjectStorage_contains p (s\<lparr>b_inner := i\<rparr>) = BoundedObjectStorage_contains p s"
  by (simp_all add: b_index_ok_def Bounded_index_defs BoundedObjectStorage_wouldFit_def
      split: option.split)

lemma bytes_inner_frame [simp]: "bidx.bytes_of (s\<lparr>b_inner := i\<rparr>) = bidx.bytes_of s"
  by (simp add: bidx.bytes_of_def)

text \<open>The fit test is exact as long as no sum reaches \<open>2 ^ 64\<close>.\<close>

lemma wouldFit_exact:
  assumes ok: "b_index_ok s" and b: "bidx.bytes_of s < 2 ^ 63" and n: "unat n < 2 ^ 63"
  shows "BoundedObjectStorage_wouldFit p n s \<longleftrightarrow>
    bidx.bytes_of (BoundedObjectStorage_upsert p n s) \<le> unat (b_maxBytes s)"
proof -
  let ?e = "case BoundedObjectStorage_objectSize p s of None \<Rightarrow> 0 | Some m \<Rightarrow> m"
  let ?k = "bidx.bytes_of (BoundedObjectStorage_upsert p n s)"
  have k: "?k + unat ?e = bidx.bytes_of s + unat n" by (rule bidx.bytes_upsert [OF ok])
  have e: "unat ?e \<le> bidx.bytes_of s" by (rule bidx.old_le_bytes [OF ok])
  have "BoundedObjectStorage_totalBytes s - ?e + n = of_nat ?k"
    using bidx.total_upsert [OF ok, of p n] bidx.total_bytes [OF bidx.upsert_inv [OF ok], of p n]
    by simp
  moreover have "?k < 2 ^ 64" using k e b n by simp
  ultimately have "unat (BoundedObjectStorage_totalBytes s - ?e + n) = ?k"
    by (simp add: unat_of_nat_size)
  then show ?thesis by (simp add: BoundedObjectStorage_wouldFit_def word_le_nat_alt)
qed

section \<open>A bounded storage is an object storage\<close>

text \<open>
  Between uploads the index records exactly the length of every stored object, and the recorded
  bytes are within the limit.
\<close>

definition bounded_inv ::
    "('s \<Rightarrow> bool) \<Rightarrow> ('s \<Rightarrow> string \<Rightarrow> bytes option) \<Rightarrow> 's bounded_storage \<Rightarrow> bool" where
  "bounded_inv iinv iview s \<longleftrightarrow>
     iinv (b_inner s) \<and> b_index_ok s \<and> unat (b_maxBytes s) < 2 ^ 63 \<and>
     bidx.bytes_of s \<le> unat (b_maxBytes s) \<and>
     (\<forall>p. BoundedObjectStorage_objectSize p s =
        map_option (\<lambda>b. of_nat (length b)) (iview (b_inner s) p)) \<and>
     (\<forall>p b. iview (b_inner s) p = Some b \<longrightarrow> str_ok b)"

definition bounded_view ::
    "('s \<Rightarrow> string \<Rightarrow> bytes option) \<Rightarrow> 's bounded_storage \<Rightarrow> string \<Rightarrow> bytes option" where
  "bounded_view iview s = iview (b_inner s)"

definition stored_bytes :: "(string \<Rightarrow> bytes option) \<Rightarrow> nat" where
  "stored_bytes m = (\<Sum>p \<in> dom m. length (the (m p)))"

lemma unat_length: "str_ok b \<Longrightarrow> unat (of_nat (length b) :: size_t) = length b"
  by (simp add: str_ok_def unat_of_nat_size)

lemma bounded_inv_bytes:
  assumes "bounded_inv iinv iview s"
  shows "bidx.bytes_of s = stored_bytes (iview (b_inner s))"
proof -
  have sz: "BoundedObjectStorage_objectSize p s =
      map_option (\<lambda>b. of_nat (length b)) (iview (b_inner s) p)"
    and ok: "iview (b_inner s) p = Some b \<Longrightarrow> str_ok b" for p b
    using assms by (auto simp: bounded_inv_def)
  have "dom (\<lambda>p. BoundedObjectStorage_objectSize p s) = dom (iview (b_inner s))"
    by (auto simp: sz dom_def)
  then show ?thesis
    unfolding bidx.bytes_of_def stored_bytes_def
    by (intro sum.cong) (auto simp: sz ok unat_length)
qed

text \<open>Recording a size that fits, or erasing one, keeps the invariant.\<close>

lemma bounded_inv_upsert:
  assumes inv: "bounded_inv iinv iview s" and i: "iinv i"
    and v: "iview i = (iview (b_inner s))(p \<mapsto> b)" and b: "str_ok b"
    and fit: "BoundedObjectStorage_wouldFit p (of_nat (length b)) s"
  shows "bounded_inv iinv iview (BoundedObjectStorage_upsert p (of_nat (length b)) (s\<lparr>b_inner := i\<rparr>))"
proof -
  let ?t = "s\<lparr>b_inner := i\<rparr>"
  have ok: "b_index_ok ?t" and b63: "bidx.bytes_of ?t < 2 ^ 63"
    using inv by (auto simp: bounded_inv_def)
  have "bidx.bytes_of (BoundedObjectStorage_upsert p (of_nat (length b)) ?t) \<le> unat (b_maxBytes ?t)"
    using wouldFit_exact [OF ok b63, of "of_nat (length b)" p] fit b
    by (simp add: unat_length [OF b]) (simp add: str_ok_def)
  then show ?thesis
    using inv i b bidx.upsert_inv [OF ok] by (auto simp: bounded_inv_def v Bounded_upsert_size)
qed

lemma bounded_inv_erase:
  assumes inv: "bounded_inv iinv iview s" and i: "iinv i"
    and v: "iview i = (iview (b_inner s))(p := None)"
  shows "bounded_inv iinv iview (BoundedObjectStorage_erase p (s\<lparr>b_inner := i\<rparr>))"
proof -
  let ?t = "s\<lparr>b_inner := i\<rparr>"
  have ok: "b_index_ok ?t" and "bidx.bytes_of ?t \<le> unat (b_maxBytes ?t)"
    using inv by (auto simp: bounded_inv_def)
  then have "bidx.bytes_of (BoundedObjectStorage_erase p ?t) \<le> unat (b_maxBytes ?t)"
    using bidx.bytes_erase [OF ok, of p] by simp
  then show ?thesis
    using inv i bidx.erase_inv [OF ok] by (auto simp: bounded_inv_def v Bounded_erase_size)
qed

lemma bounded_inv_inner:
  "bounded_inv iinv iview s \<Longrightarrow> iinv i \<Longrightarrow> iview i = iview (b_inner s) \<Longrightarrow>
    bounded_inv iinv iview (s\<lparr>b_inner := i\<rparr>)"
  by (simp add: bounded_inv_def)

locale bounded_store = inner: object_store ivt iinv iview good
  for ivt :: "'s object_vt" and iinv :: "'s \<Rightarrow> bool"
    and iview :: "'s \<Rightarrow> string \<Rightarrow> bytes option" and good :: "string \<Rightarrow> bool"
begin

lemma bput:
  assumes inv: "bounded_inv iinv iview s" and p: "good p" and b: "str_ok b"
    and put: "BoundedObjectStorage_put ivt p b s = (r, s')"
  shows "bounded_inv iinv iview s' \<and>
    bounded_view iview s' = (if r = PutOk then (bounded_view iview s)(p \<mapsto> b) else bounded_view iview s)"
proof (cases "p = [] \<or> \<not> BoundedObjectStorage_wouldFit p (of_nat (length b)) s")
  case True
  with put inv show ?thesis by (auto simp: BoundedObjectStorage_put_def split: if_splits)
next
  case False
  obtain q i where q: "vt_put ivt p b (b_inner s) = (q, i)" by (cases "vt_put ivt p b (b_inner s)")
  have ii: "iinv (b_inner s)" using inv by (simp add: bounded_inv_def)
  have "iinv i" and v: "iview i = (if q = PutOk then (iview (b_inner s))(p \<mapsto> b) else iview (b_inner s))"
    using inner.put_inv [OF ii p b q] inner.put_view [OF ii p b q] by simp_all
  with False put q inv b show ?thesis
    by (auto simp: BoundedObjectStorage_put_def bounded_view_def
        intro: bounded_inv_upsert bounded_inv_inner split: if_splits)
qed

lemma bsetnx:
  assumes inv: "bounded_inv iinv iview s" and p: "good p" and b: "str_ok b"
    and put: "BoundedObjectStorage_setnx ivt p b s = (n, s')"
  shows "bounded_inv iinv iview s' \<and>
    bounded_view iview s' =
      (if n = Ret NxInserted then (bounded_view iview s)(p \<mapsto> b) else bounded_view iview s) \<and>
    (n = Ret NxInserted \<longrightarrow> bounded_view iview s p = None)"
proof (cases "p = [] \<or> BoundedObjectStorage_contains p s \<or>
    \<not> BoundedObjectStorage_wouldFit p (of_nat (length b)) s")
  case True
  moreover have "BoundedObjectStorage_contains p s \<longleftrightarrow> bounded_view iview s p \<noteq> None"
    using inv by (auto simp: contains_iff bounded_inv_def bounded_view_def)
  ultimately show ?thesis
    using put inv by (auto simp: BoundedObjectStorage_setnx_def split: if_splits)
next
  case False
  obtain q i where q: "vt_setnx ivt p b (b_inner s) = (q, i)"
    by (cases "vt_setnx ivt p b (b_inner s)")
  have ii: "iinv (b_inner s)" using inv by (simp add: bounded_inv_def)
  have "iinv i" and
    v: "iview i = (if q = Ret NxInserted then (iview (b_inner s))(p \<mapsto> b) else iview (b_inner s))"
    "q = Ret NxInserted \<longrightarrow> iview (b_inner s) p = None"
    using inner.setnx_inv [OF ii p b q] inner.setnx_view [OF ii p b q] by simp_all
  with False put q inv b show ?thesis
    by (auto simp: BoundedObjectStorage_setnx_def bounded_view_def
        intro: bounded_inv_upsert bounded_inv_inner split: if_splits)
qed

lemma bdel:
  assumes inv: "bounded_inv iinv iview s" and p: "good p"
    and del: "BoundedObjectStorage_del ivt p s = (d, s')"
  shows "bounded_inv iinv iview s' \<and>
    bounded_view iview s' = (if d then (bounded_view iview s)(p := None) else bounded_view iview s)"
proof -
  obtain q i where q: "vt_del ivt p (b_inner s) = (q, i)" by (cases "vt_del ivt p (b_inner s)")
  have ii: "iinv (b_inner s)" using inv by (simp add: bounded_inv_def)
  have "iinv i" and
    v: "iview i = (if q then (iview (b_inner s))(p := None) else iview (b_inner s))"
    using inner.del_inv [OF ii p q] inner.del_view [OF ii p q] by simp_all
  with del q inv show ?thesis
    by (auto simp: BoundedObjectStorage_del_def bounded_view_def
        intro: bounded_inv_erase bounded_inv_inner split: if_splits)
qed

lemma bounded_object_store:
  "object_store (BoundedObjectStorage_vt ivt) (bounded_inv iinv iview) (bounded_view iview) good"
proof (unfold_locales, goal_cases)
  case (1 s p)
  then show ?case using inner.view_good by (auto simp: bounded_inv_def bounded_view_def)
next
  case (4 s p)
  then show ?case
    by (simp add: BoundedObjectStorage_get_def bounded_view_def bounded_inv_def inner.get_stored)
next
  case (7 s ks)
  then show ?case
    using inner.keys_view by (auto simp: BoundedObjectStorage_keys_def bounded_view_def bounded_inv_def)
next
  case (8 s p e)
  then show ?case
    using inner.exists_view
    by (auto simp: BoundedObjectStorage_exists_def bounded_view_def bounded_inv_def)
next
  case (2 s p b r s')
  then show ?case using bput by simp
next
  case (3 s p b r s')
  then show ?case using bput by simp
next
  case (5 s p d s')
  then show ?case using bdel by simp
next
  case (6 s p d s')
  then show ?case using bdel by simp
next
  case (9 s p b n s')
  then show ?case using bsetnx by simp
next
  case (10 s p b n s')
  then show ?case using bsetnx by simp
next
  case (11 s p)
  then have "fst (vt_del ivt p (b_inner s))"
    using inner.del_present by (simp add: bounded_inv_def bounded_view_def)
  then show ?case by (auto simp: BoundedObjectStorage_del_def split: prod.split)
qed

end

sublocale bounded_store \<subseteq> outer:
  object_store "BoundedObjectStorage_vt ivt" "bounded_inv iinv iview" "bounded_view iview" good
  by (rule bounded_object_store)

interpretation bmem: bounded_store ObjectStorage_vt os_inv os_view "\<lambda>p. p \<noteq> []"
  by unfold_locales

section \<open>Properties\<close>

text \<open>A client's calls, and a run of them.\<close>

datatype store_op = OpPut string bytes | OpDel string | OpSetnx string bytes

fun op_ok :: "(string \<Rightarrow> bool) \<Rightarrow> store_op \<Rightarrow> bool" where
  "op_ok good (OpPut p b) \<longleftrightarrow> good p \<and> str_ok b"
| "op_ok good (OpDel p) \<longleftrightarrow> good p"
| "op_ok good (OpSetnx p b) \<longleftrightarrow> good p \<and> str_ok b"

fun bounded_op :: "'s object_vt \<Rightarrow> store_op \<Rightarrow> 's bounded_storage \<Rightarrow> 's bounded_storage" where
  "bounded_op ivt (OpPut p b) s = snd (BoundedObjectStorage_put ivt p b s)"
| "bounded_op ivt (OpDel p) s = snd (BoundedObjectStorage_del ivt p s)"
| "bounded_op ivt (OpSetnx p b) s = snd (BoundedObjectStorage_setnx ivt p b s)"

context bounded_store
begin

lemma bounded_op_inv:
  assumes "bounded_inv iinv iview s" "op_ok good c"
  shows "bounded_inv iinv iview (bounded_op ivt c s)"
proof (cases c)
  case (OpPut p b)
  then show ?thesis
    using assms bput [of s p b] by (cases "BoundedObjectStorage_put ivt p b s") simp
next
  case (OpDel p)
  then show ?thesis
    using assms bdel [of s p] by (cases "BoundedObjectStorage_del ivt p s") simp
next
  case (OpSetnx p b)
  then show ?thesis
    using assms bsetnx [of s p b] by (cases "BoundedObjectStorage_setnx ivt p b s") simp
qed

lemma bounded_run_inv:
  "bounded_inv iinv iview s \<Longrightarrow> list_all (op_ok good) cs \<Longrightarrow>
    bounded_inv iinv iview (fold (bounded_op ivt) cs s)"
  by (induction cs arbitrary: s) (simp_all add: bounded_op_inv)

end

lemma b_maxBytes_op [simp]: "b_maxBytes (bounded_op ivt c s) = b_maxBytes s"
  by (cases c) (auto simp: BoundedObjectStorage_put_def BoundedObjectStorage_del_def
      BoundedObjectStorage_setnx_def Let_def split: prod.split)

lemma b_maxBytes_run [simp]: "b_maxBytes (fold (bounded_op ivt) cs s) = b_maxBytes s"
  by (induction cs arbitrary: s) simp_all

lemma bounded_inv_new:
  assumes "iinv i" "iview i = Map.empty" "unat m < 2 ^ 63"
  shows "bounded_inv iinv iview (BoundedObjectStorage_new i m)"
proof -
  have none: "BoundedObjectStorage_objectSize p (BoundedObjectStorage_new i m) = None" for p
    by (simp add: BoundedObjectStorage_new_def BoundedObjectStorage_objectSize_def)
  then have "bidx.bytes_of (BoundedObjectStorage_new i m) = 0" by (simp add: bidx.bytes_of_def)
  with none show ?thesis
    using assms
    by (simp add: bounded_inv_def) (simp add: BoundedObjectStorage_new_def b_index_ok_def index_ok_def)
qed

text \<open>C12.
  Capacity: however many \<open>put\<close>, \<open>del\<close> and \<open>setnx\<close> calls a client makes on a bounded storage that
  starts empty, over whatever inner storage keeps the contract of an object storage, the bytes
  actually stored never exceed the limit, and the recorded total is exactly their number.\<close>

theorem Bounded_capacity:
  assumes "object_store ivt iinv iview good"
    and "iinv i" "iview i = Map.empty" "unat m < 2 ^ 63" "list_all (op_ok good) cs"
  defines "s \<equiv> fold (bounded_op ivt) cs (BoundedObjectStorage_new i m)"
  shows "stored_bytes (bounded_view iview s) \<le> unat m \<and>
    unat (BoundedObjectStorage_totalBytes s) = stored_bytes (bounded_view iview s)"
proof -
  have "bounded_store ivt iinv iview good" using assms(1) by (simp add: bounded_store_def)
  then have inv: "bounded_inv iinv iview s"
    unfolding s_def by (rule bounded_store.bounded_run_inv) (use assms in \<open>auto intro: bounded_inv_new\<close>)
  then have bytes: "bidx.bytes_of s = stored_bytes (bounded_view iview s)"
    by (simp add: bounded_inv_bytes bounded_view_def)
  have m: "b_maxBytes s = m" by (simp add: s_def BoundedObjectStorage_new_def)
  with inv have le: "bidx.bytes_of s \<le> unat m" by (simp add: bounded_inv_def)
  with inv assms(4) show ?thesis
    by (simp add: bidx.total_bytes bounded_inv_def unat_of_nat_size flip: bytes)
qed

theorem Bounded_capacity_witness:
  "stored_bytes (bounded_view os_view (fold (bounded_op ObjectStorage_vt)
     [OpPut ''a'' ''123'', OpPut ''b'' ''123'', OpSetnx ''c'' ''1'', OpDel ''a'']
     (BoundedObjectStorage_new ObjectStorage_init 5))) \<le> 5"
  using Bounded_capacity [OF os.object_store_axioms ObjectStorage_init_inv,
      of 5 "[OpPut ''a'' ''123'', OpPut ''b'' ''123'', OpSetnx ''c'' ''1'', OpDel ''a'']"]
  by (simp add: os_view_def ObjectStorage_init_def str_ok_def)

lemma stored_bytes_update:
  "finite (dom m) \<Longrightarrow> stored_bytes (m(p \<mapsto> b)) + (case m p of None \<Rightarrow> 0 | Some c \<Rightarrow> length c) =
    stored_bytes m + length b"
  using sum_dom_split [of m length p] sum_dom_update [of m length p b]
  by (simp add: stored_bytes_def split: option.splits)

lemma Bounded_fit_stored:
  assumes inv: "bounded_inv iinv iview s" and b: "str_ok b"
  shows "BoundedObjectStorage_wouldFit p (of_nat (length b)) s \<longleftrightarrow>
    stored_bytes ((bounded_view iview s)(p \<mapsto> b)) \<le> unat (b_maxBytes s)"
proof -
  have ok: "b_index_ok s" and b63: "bidx.bytes_of s < 2 ^ 63"
    using inv by (auto simp: bounded_inv_def)
  have sz: "BoundedObjectStorage_objectSize p s =
      map_option (\<lambda>b. of_nat (length b)) (bounded_view iview s p)" for p
    using inv by (simp add: bounded_inv_def bounded_view_def)
  have strs: "bounded_view iview s p = Some c \<Longrightarrow> str_ok c" for p c
    using inv by (simp add: bounded_inv_def bounded_view_def)
  have "dom (bounded_view iview s) = dom (\<lambda>p. BoundedObjectStorage_objectSize p s)"
    by (auto simp: sz)
  then have fin: "finite (dom (bounded_view iview s))" using bidx.recorded_finite [OF ok] by simp
  have "bidx.bytes_of (BoundedObjectStorage_upsert p (of_nat (length b)) s) =
      stored_bytes ((bounded_view iview s)(p \<mapsto> b))"
    using bidx.bytes_upsert [OF ok, of p "of_nat (length b)"] stored_bytes_update [OF fin, of p b]
      bounded_inv_bytes [OF inv] b strs [of p]
    by (cases "bounded_view iview s p") (simp_all add: sz unat_length bounded_view_def)
  then show ?thesis
    using wouldFit_exact [OF ok b63, of "of_nat (length b)" p] b by (simp add: unat_length str_ok_def)
qed

text \<open>C21.
  The limit is enforced exactly: over the in-memory storage, a \<open>put\<close> of a non-empty path succeeds
  and stores the object if and only if the bytes stored afterwards are within the limit (an
  overwritten object counts with its new size only), and a rejected one changes nothing.\<close>

theorem Bounded_put_exact:
  assumes "bounded_inv os_inv os_view s" "path \<noteq> []" "str_ok b"
  shows "if stored_bytes ((bounded_view os_view s)(path \<mapsto> b)) \<le> unat (b_maxBytes s)
    then fst (BoundedObjectStorage_put ObjectStorage_vt path b s) = PutOk \<and>
      bounded_view os_view (snd (BoundedObjectStorage_put ObjectStorage_vt path b s)) =
        (bounded_view os_view s)(path \<mapsto> b)
    else BoundedObjectStorage_put ObjectStorage_vt path b s = (PutCapacityExceeded, s)"
  using Bounded_fit_stored [OF assms(1,3), of path] assms(2)
  by (simp add: BoundedObjectStorage_put_def ObjectStorage_put_def bounded_view_def os_view_def
      fun_eq_iff)

theorem Bounded_put_exact_witness:
  "BoundedObjectStorage_put ObjectStorage_vt ''k'' ''123456'' (BoundedObjectStorage_new ObjectStorage_init 5) =
   (PutCapacityExceeded, BoundedObjectStorage_new ObjectStorage_init 5)"
proof -
  let ?s = "BoundedObjectStorage_new ObjectStorage_init 5"
  have inv: "bounded_inv os_inv os_view ?s"
    by (rule bounded_inv_new) (simp_all add: os_view_def ObjectStorage_init_def os_inv_def)
  have "\<not> stored_bytes ((bounded_view os_view ?s)(''k'' \<mapsto> ''123456'')) \<le> unat (b_maxBytes ?s)"
    by (simp add: stored_bytes_def bounded_view_def BoundedObjectStorage_new_def os_view_def
        ObjectStorage_init_def)
  with Bounded_put_exact [OF inv, of "''k''" "''123456''"] show ?thesis by (simp add: str_ok_def)
qed

subsection \<open>The two ways of accounting\<close>

text \<open>
  The state with its accounting moved from the shared index to the members, which is what the code
  without a \<open>StoragePersistency\<close> works on.
\<close>

definition as_members :: "'s bounded_storage \<Rightarrow> 's bounded_storage" where
  "as_members s =
     (case b_persistency s of
        None \<Rightarrow> s
      | Some sp \<Rightarrow> s\<lparr>b_persistency := None, b_sizes := sp_sizes sp,
                     b_currentBytes := sp_totalBytes sp\<rparr>)"

lemma as_members_frame [simp]:
  "b_inner (as_members s) = b_inner s" "b_maxBytes (as_members s) = b_maxBytes s"
  "as_members (s\<lparr>b_inner := i\<rparr>) = (as_members s)\<lparr>b_inner := i\<rparr>"
  by (simp_all add: as_members_def split: option.split)

lemma as_members_index [simp]:
  "BoundedObjectStorage_objectSize p (as_members s) = BoundedObjectStorage_objectSize p s"
  "BoundedObjectStorage_totalBytes (as_members s) = BoundedObjectStorage_totalBytes s"
  "BoundedObjectStorage_contains p (as_members s) = BoundedObjectStorage_contains p s"
  "BoundedObjectStorage_wouldFit p n (as_members s) = BoundedObjectStorage_wouldFit p n s"
  by (simp_all add: as_members_def Bounded_index_defs StoragePersistency_defs
      BoundedObjectStorage_wouldFit_def split: option.split)

lemma as_members_update:
  "as_members (BoundedObjectStorage_upsert p n s) = BoundedObjectStorage_upsert p n (as_members s)"
  "as_members (BoundedObjectStorage_erase p s) = BoundedObjectStorage_erase p (as_members s)"
  by (auto simp: as_members_def Bounded_index_defs StoragePersistency_defs Let_def
      split: option.split)

text \<open>C20.
  The two accounting paths of the class (through the shared index, or through its own members)
  are equivalent: moving the index of a state to the members commutes with every operation and
  changes no result.\<close>

theorem Bounded_accounting_modes_agree:
  "BoundedObjectStorage_put ivt p b (as_members s) =
     map_prod id as_members (BoundedObjectStorage_put ivt p b s) \<and>
   BoundedObjectStorage_del ivt p (as_members s) =
     map_prod id as_members (BoundedObjectStorage_del ivt p s) \<and>
   BoundedObjectStorage_setnx ivt p b (as_members s) =
     map_prod id as_members (BoundedObjectStorage_setnx ivt p b s) \<and>
   BoundedObjectStorage_beginPut isvt p n (as_members s) =
     map_prod id as_members (BoundedObjectStorage_beginPut isvt p n s)"
  by (simp add: BoundedObjectStorage_put_def BoundedObjectStorage_del_def
      BoundedObjectStorage_setnx_def BoundedObjectStorage_beginPut_def Let_def as_members_update
      split: prod.split option.split)

subsection \<open>Uploads\<close>

text \<open>What a successful \<open>beginPut\<close> gives.\<close>

lemma beginPut_PutOk:
  assumes "BoundedObjectStorage_beginPut (Some svt) p n s = (r, s')"
    and "bp_status r = PutOk" "bp_session r = Some w"
  obtains wi i where "vt_beginPut svt p n (b_inner s) = (\<lparr>bp_status = PutOk, bp_session = Some wi\<rparr>, i)"
    "BoundedObjectStorage_wouldFit p n s"
    "w = \<lparr>bw_inner = wi, bw_finalized = False, bw_bytesWritten = 0, bw_path = p,
       bw_previousSize = BoundedObjectStorage_objectSize p s\<rparr>"
    "s' = BoundedObjectStorage_upsert p n (s\<lparr>b_inner := i\<rparr>)"
proof (cases "vt_beginPut svt p n (b_inner s)")
  case (Pair q i)
  with assms that show ?thesis
    by (cases q) (auto simp: BoundedObjectStorage_beginPut_def Let_def split: if_splits)
qed

lemma onAborted_restores:
  assumes ok: "b_index_ok s" and size: "BoundedObjectStorage_objectSize p s = old"
    and s': "\<forall>q. BoundedObjectStorage_objectSize q s' =
      BoundedObjectStorage_objectSize q (BoundedObjectStorage_upsert p n s)"
    and ok': "b_index_ok s'"
  shows "BoundedObjectStorage_objectSize q (BoundedObjectStorage_onAborted p old s') =
      BoundedObjectStorage_objectSize q s \<and>
    b_index_ok (BoundedObjectStorage_onAborted p old s')"
  using s' size Bounded_upsert_size [OF ok] Bounded_upsert_size [OF ok'] Bounded_erase_size [OF ok']
    bidx.upsert_inv [OF ok'] bidx.erase_inv [OF ok']
  by (auto simp: BoundedObjectStorage_onAborted_def split: option.split)

lemma index_total_eq:
  assumes "b_index_ok s" "b_index_ok s'"
    and "\<forall>q. BoundedObjectStorage_objectSize q s' = BoundedObjectStorage_objectSize q s"
  shows "BoundedObjectStorage_totalBytes s' = BoundedObjectStorage_totalBytes s"
  using bidx.total_sum [OF assms(1)] bidx.total_sum [OF assms(2)] assms(3) by simp

text \<open>C28.
  Aborting an upload gives its reservation back: if no other call touches the accounting between a
  successful \<open>beginPut\<close> and the \<open>abort\<close> of its session (the chunks written in between do not), then
  every recorded size and the recorded total are again what they were before, and a second \<open>abort\<close>
  or a \<open>finish\<close> of the session changes nothing.\<close>

theorem Bounded_abort_restores:
  assumes "b_index_ok s"
    and "BoundedObjectStorage_beginPut (Some svt) p n s = (r, s1)"
    and "bp_status r = PutOk" "bp_session r = Some w"
    and "BoundedWriteSession_writeChunk svt w chunk s1 = (c, w2, s2)"
    and "BoundedWriteSession_abort svt w2 s2 = (w3, s3)"
  shows "BoundedObjectStorage_objectSize q s3 = BoundedObjectStorage_objectSize q s \<and>
    BoundedObjectStorage_totalBytes s3 = BoundedObjectStorage_totalBytes s \<and>
    BoundedWriteSession_abort svt w3 s4 = (w3, s4) \<and>
    BoundedWriteSession_finish svt w3 s4 = (PutFailedToWrite, w3, s4)"
proof -
  obtain i where s1: "s1 = BoundedObjectStorage_upsert p n (s\<lparr>b_inner := i\<rparr>)"
    and w: "bw_finalized w = False" "bw_path w = p"
      "bw_previousSize w = BoundedObjectStorage_objectSize p s"
    using beginPut_PutOk [OF assms(2-4)] by (metis bounded_write.select_convs(2,4,5))
  let ?t = "s\<lparr>b_inner := i\<rparr>"
  have ok: "b_index_ok ?t" using assms(1) by simp
  obtain j where s2: "s2 = s1\<lparr>b_inner := j\<rparr>" and w2: "bw_finalized w2 = False" "bw_path w2 = p"
      "bw_previousSize w2 = BoundedObjectStorage_objectSize p ?t"
    using assms(5) w by (auto simp: BoundedWriteSession_writeChunk_def Let_def split: prod.splits)
  obtain k where s3: "s3 = BoundedObjectStorage_onAborted p (bw_previousSize w2) (s2\<lparr>b_inner := k\<rparr>)"
    and w3: "bw_finalized w3"
    using assms(6) w2 by (auto simp: BoundedWriteSession_abort_def Let_def split: prod.splits)
  have ok2: "b_index_ok (s2\<lparr>b_inner := k\<rparr>)" using bidx.upsert_inv [OF ok] by (simp add: s1 s2)
  have same: "\<forall>q. BoundedObjectStorage_objectSize q (s2\<lparr>b_inner := k\<rparr>) =
      BoundedObjectStorage_objectSize q (BoundedObjectStorage_upsert p n ?t)"
    by (simp add: s1 s2)
  have sizes: "BoundedObjectStorage_objectSize q s3 = BoundedObjectStorage_objectSize q ?t"
    and ok3: "b_index_ok s3" for q
    unfolding s3 using onAborted_restores [OF ok w2(3) [symmetric] same ok2] by blast+
  have "BoundedObjectStorage_totalBytes s3 = BoundedObjectStorage_totalBytes ?t"
    by (rule index_total_eq [OF ok ok3]) (simp add: sizes)
  with sizes w3 show ?thesis
    by (simp add: BoundedWriteSession_abort_def BoundedWriteSession_finish_def)
qed

text \<open>
  A streaming table for the examples below: its sessions accept every chunk and never publish.
\<close>

definition sink_svt :: "('s, bytes, unit) streaming_vt" where
  "sink_svt =
     \<lparr>vt_beginPut = (\<lambda>p n s. (\<lparr>bp_status = PutOk, bp_session = Some []\<rparr>, s)),
      vt_beginGet = (\<lambda>p s. \<lparr>bg_found = False, bg_size = 0, bg_session = None\<rparr>),
      vt_writeChunk = (\<lambda>w c s. (True, w @ c, s)),
      vt_finish = (\<lambda>w s. (PutFailedToWrite, w, s)),
      vt_abort = (\<lambda>w s. (w, s)),
      vt_readChunk = (\<lambda>r n s. (None, r))\<rparr>"

text \<open>A storage with a limit of 4 bytes whose object \<open>p\<close> has 4.\<close>

definition full_example :: "object_storage bounded_storage" where
  "full_example =
     snd (BoundedObjectStorage_put ObjectStorage_vt ''p'' ''1234''
       (BoundedObjectStorage_new ObjectStorage_init 4))"

lemmas Bounded_example_defs =
  full_example_def BoundedObjectStorage_put_def BoundedObjectStorage_new_def
  BoundedObjectStorage_beginPut_def BoundedObjectStorage_wouldFit_def Bounded_index_defs
  BoundedWriteSession_writeChunk_def BoundedWriteSession_abort_def BoundedWriteSession_finish_def
  BoundedObjectStorage_onAborted_def ObjectStorage_put_def ObjectStorage_init_def sink_svt_def

lemma full_example_ok: "b_index_ok full_example"
  by (simp add: Bounded_example_defs b_index_ok_def index_ok_def alist_ok_def)

theorem Bounded_abort_restores_witness:
  "\<exists>r w s1 c w2 s2 w3 s3.
     BoundedObjectStorage_beginPut (Some sink_svt) ''p'' 2 full_example = (r, s1) \<and>
     bp_status r = PutOk \<and> bp_session r = Some w \<and>
     BoundedObjectStorage_totalBytes s1 = 2 \<and>
     BoundedWriteSession_writeChunk sink_svt w ''x'' s1 = (c, w2, s2) \<and>
     BoundedWriteSession_abort sink_svt w2 s2 = (w3, s3) \<and>
     BoundedObjectStorage_totalBytes s3 = BoundedObjectStorage_totalBytes full_example"
proof -
  obtain r s1 where 1: "BoundedObjectStorage_beginPut (Some sink_svt) ''p'' 2 full_example = (r, s1)"
    by (cases "BoundedObjectStorage_beginPut (Some (sink_svt :: (object_storage, bytes, unit) streaming_vt))
        ''p'' 2 full_example")
  then obtain w where 2: "bp_status r = PutOk" "bp_session r = Some w"
    and t: "BoundedObjectStorage_totalBytes s1 = 2"
    by (auto simp: Bounded_example_defs)
  obtain c w2 s2 where 3: "BoundedWriteSession_writeChunk sink_svt w ''x'' s1 = (c, w2, s2)"
    by (rule prod_cases3)
  obtain w3 s3 where 4: "BoundedWriteSession_abort sink_svt w2 s2 = (w3, s3)"
    by fastforce
  show ?thesis using 1 2 t 3 4 Bounded_abort_restores [OF full_example_ok 1 2 3 4] by blast
qed

text \<open>C38.
  The capacity test wraps around: a client that announces a size of \<open>2 ^ 64 - j\<close> for a new path,
  with \<open>j\<close> between 1 and the recorded total, passes it on every storage that is within its limit,
  and the reservation then lowers the recorded total by \<open>j\<close>, making room for bytes over the limit.\<close>

theorem Bounded_fit_wraps:
  assumes "b_index_ok s" "BoundedObjectStorage_objectSize p s = None"
    and "BoundedObjectStorage_totalBytes s \<le> b_maxBytes s"
    and "0 < j" "j \<le> BoundedObjectStorage_totalBytes s"
  shows "BoundedObjectStorage_wouldFit p (- j) s \<and>
    unat (BoundedObjectStorage_totalBytes (BoundedObjectStorage_upsert p (- j) s)) =
      unat (BoundedObjectStorage_totalBytes s) - unat j"
proof -
  let ?t = "BoundedObjectStorage_totalBytes s"
  have "unat (?t - j) = unat ?t - unat j" using assms(5) by (simp add: unat_sub_if' word_le_nat_alt)
  moreover from this have "?t - j \<le> b_maxBytes s" using assms(3) by (simp add: word_le_nat_alt)
  ultimately show ?thesis
    using assms(2) bidx.total_upsert [OF assms(1), of p "- j"]
    by (simp add: BoundedObjectStorage_wouldFit_def)
qed

theorem Bounded_fit_wraps_witness:
  "BoundedObjectStorage_wouldFit ''q'' (- 3) full_example \<and>
   unat (BoundedObjectStorage_totalBytes (BoundedObjectStorage_upsert ''q'' (- 3) full_example)) = 1"
proof -
  have "BoundedObjectStorage_totalBytes full_example = 4" by (simp add: Bounded_example_defs)
  then show ?thesis
    using Bounded_fit_wraps [OF full_example_ok, of "''q''" 3] by (simp add: Bounded_example_defs)
qed

text \<open>
  The rollback of an upload is not re-checked against the limit: a storage limited to 4 bytes holds
  4, an upload that would shrink the object to 1 byte begins, another object of 3 bytes is accepted,
  and the abort of the upload then leaves 7 bytes recorded and 7 bytes stored.\<close>

theorem Bounded_abort_exceeds_limit:
  "let (r, s1) = BoundedObjectStorage_beginPut (Some sink_svt) ''p'' 1 full_example;
       (ok, s2) = BoundedObjectStorage_put ObjectStorage_vt ''q'' ''567'' s1;
       (w, s3) = BoundedWriteSession_abort sink_svt (the (bp_session r)) s2
   in ok = PutOk \<and> b_maxBytes s3 = 4 \<and> BoundedObjectStorage_totalBytes s3 = 7 \<and>
      map length (map snd (os_storage (b_inner s3))) = [4, 3]"
  by (simp add: Bounded_example_defs)

end
