(* ===== verification/Disk_Properties.thy ===== *)
theory Disk_Properties
  imports Disk_Confinement Bounded_Storage
begin

text \<open>
  The properties of the disk storage: no key reaches out of the root directory, canonical keys name
  objects of a map, uploads take effect at once when they finish, downloads give the stored bytes,
  and what goes wrong on a full device, for unusual roots and for other spellings of a key.
\<close>

section \<open>Confinement\<close>

text \<open>A host with the root directory \<open>/d\<close> and a file outside of it, for the examples.\<close>

definition plain_env :: os_env where
  "plain_env = \<lparr>env_cwd = [], env_refuses = (\<lambda>_. False), env_buffers = (\<lambda>n m. n + m < 8192),
     env_listens = (\<lambda>_. True)\<rparr>"

definition d_root :: fs_path where
  "d_root = [''/'', ''d'']"

definition d_host :: host where
  "d_host = \<lparr>hs_nodes = [([''d''], Dir), ([''etc''], Dir), ([''etc'', ''x''], File 0)],
     hs_data = (\<lambda>_. ''old''), hs_next = 1, hs_room = None\<rparr>"

lemmas d_defs = plain_env_def d_root_def d_host_def

lemma d_root_ok [simp]: "root_ok d_root"
  by (simp add: root_ok_def d_root_def root_names_def path_is_absolute_def plain_name_def)

lemma d_base [simp]: "disk_base plain_env d_root = [''d'']" "disk_start plain_env d_root = []"
  by (simp_all add: disk_base_def disk_start_def d_root_def path_is_absolute_def root_names_def)

lemma d_env [simp]: "\<not> env_refuses plain_env q"
  by (simp add: plain_env_def)

lemma d_host_fs_inv [simp]: "fs_inv plain_env d_root d_host"
  by (rule fs_invI)
    (auto simp: node_at_def d_host_def plain_name_def split: if_splits)

lemma d_host_inv [simp]: "disk_inv plain_env d_root d_host"
  by (auto simp: disk_inv_def prefix_def append_eq_Cons_conv)
    (auto simp: file_at_def node_at_def d_host_def append_eq_Cons_conv Cons_eq_append_conv)

text \<open>
  No key reaches out of the storage root: whatever bytes a client sends as a key (dots, slashes, NUL
  bytes, temporary names) and whatever the state of the tree below the root, storing, deleting or
  beginning an upload leaves every file outside the root directory, and its contents, as they
  were.\<close>

theorem Disk_confined:
  assumes "root_ok root" "fs_inv env root h" "\<not> prefix (disk_base env root) q"
    and "h' = snd (DiskObjectStorage_put env root k b h) \<or>
      h' = snd (DiskObjectStorage_setnx env root k b h) \<or>
      h' = snd (DiskObjectStorage_del env root k h) \<or>
      h' = snd (DiskObjectStorage_beginPut env root k n h)"
  shows "file_at h' q = file_at h q \<and> (node_at h q \<noteq> None \<longrightarrow> node_at h' q = node_at h q)"
proof -
  have "confined env root h h'"
    using assms(4) DiskObjectStorage_store_confined [OF assms(1,2)] DiskObjectStorage_del_confined [OF assms(1,2)]
      DiskObjectStorage_beginPut_confined [OF assms(1,2)]
    by (metis prod.collapse)
  then show ?thesis using assms(3) by (simp add: confined_def host_kept_def kept_outside_def)
qed

theorem Disk_confined_witness:
  "file_at (snd (DiskObjectStorage_put plain_env d_root (''..'' @ [CHR 0x00] @ ''/etc/x'') ''new'' d_host))
     [''etc'', ''x''] = Some ''old''"
proof -
  have "\<not> prefix (disk_base plain_env d_root) [''etc'', ''x'']" by simp
  from Disk_confined [OF d_root_ok d_host_fs_inv this disjI1 [OF refl]]
  have "file_at (snd (DiskObjectStorage_put plain_env d_root (''..'' @ [CHR 0x00] @ ''/etc/x'') ''new'' d_host))
     [''etc'', ''x''] = file_at d_host [''etc'', ''x'']" by blast
  also have "\<dots> = Some ''old''" by (simp add: file_at_def node_at_def d_host_def)
  finally show ?thesis .
qed

section \<open>Canonical keys name the objects of a map\<close>

text \<open>Nothing is in the way of the object \<open>k\<close>: no file where a directory is needed or the reverse.\<close>

definition clear_way :: "os_env \<Rightarrow> fs_path \<Rightarrow> string \<Rightarrow> host \<Rightarrow> bool" where
  "clear_way env root k h \<longleftrightarrow>
     (let q = disk_base env root @ key_names k
      in node_at h q \<noteq> Some Dir \<and>
         list_all (\<lambda>p. p = q \<or> file_at h p = None) (prefixes q) \<and>
         list_all (\<lambda>p. p \<noteq> [] \<longrightarrow> \<not> env_refuses env p) (prefixes q))"

lemma clear_wayD:
  assumes "clear_way env root k h"
  shows "node_at h (disk_base env root @ key_names k) \<noteq> Some Dir"
    and "strict_prefix p (disk_base env root @ key_names k) \<Longrightarrow> file_at h p = None"
    and "prefix p (disk_base env root @ key_names k) \<Longrightarrow> p \<noteq> [] \<Longrightarrow> \<not> env_refuses env p"
  using assms by (auto simp: clear_way_def Let_def list_all_iff strict_prefix_def)

lemma strict_prefix_butlast: "q \<noteq> [] \<Longrightarrow> strict_prefix p q \<longleftrightarrow> prefix p (butlast q)"
  by (cases q rule: rev_cases) (auto simp: strict_prefix_def dest: prefix_length_le)

lemma resolve_names:
  assumes "ns \<noteq> []" "\<forall>n\<in>set ns. plain_name n"
  shows "fs_resolve env ((if path_is_absolute root then [''/''] else []) @ ns) h =
    fs_walk_from env h (disk_start env root) ns"
proof -
  obtain n ms where ns: "ns = n # ms" "plain_name n" "\<forall>n\<in>set ms. plain_name n"
    using assms by (cases ns) auto
  then show ?thesis
    using c_path_plain [of ms] by (simp add: fs_resolve_def disk_start_def del: fs_walk_from.simps)
qed

text \<open>One directory of the way: it is found, or can be made.\<close>

lemma next_resolves:
  assumes "fs_inv env root h" "node_at h (disk_start env root @ ms) = Some Dir"
    and plain: "\<forall>n\<in>set (ms @ [n]). plain_name n"
    and free: "\<forall>p. prefix p (disk_start env root @ ms @ [n]) \<longrightarrow> p \<noteq> [] \<longrightarrow> \<not> env_refuses env p"
  shows "fs_resolve env ((if path_is_absolute root then [''/''] else []) @ ms @ [n]) h =
    WalkAt (disk_start env root @ ms @ [n])"
proof -
  let ?q = "disk_start env root @ ms @ [n]"
  have "node_at h p = Some Dir" if "strict_prefix p ?q" for p
  proof -
    have "prefix p (disk_start env root @ ms)"
      using that strict_prefix_butlast [of ?q p] by (simp add: butlast_append)
    then obtain r where "disk_start env root @ ms = p @ r" by (auto simp: prefix_def)
    then show ?thesis using assms(2) node_above [OF assms(1), of p r] by (cases "r = []") auto
  qed
  then have "fs_walk_from env h (disk_start env root) (ms @ [n]) = WalkAt (disk_start env root @ ms @ [n])"
    using free by (intro walk_reaches plain) blast+
  then show ?thesis using resolve_names [OF _ plain, of env root h] by simp
qed

lemma next_made:
  assumes "fs_inv env root h" "node_at h p = Some Dir" "plain_name n" "\<not> env_refuses env (p @ [n])"
    and "node_at h (p @ [n]) = None"
  shows "fs_inv env root (set_node (p @ [n]) Dir h) \<and> file_at (set_node (p @ [n]) Dir h) = file_at h"
proof
  have "list_all plain_name (p @ [n])" using fs_invD(2) [OF assms(1,2)] assms(3) by simp
  then show "fs_inv env root (set_node (p @ [n]) Dir h)"
    using assms(2,4,5) by (intro fs_inv_set [OF assms(1)]) auto
  show "file_at (set_node (p @ [n]) Dir h) = file_at h"
    using assms(5) by (intro grown_file_at) (auto simp: grown_def)
qed

lemma mkdirs_succeeds:
  assumes inv: "fs_inv env root h" and dir: "node_at h (disk_start env root @ ms) = Some Dir"
    and plain: "\<forall>n\<in>set (ms @ ns). plain_name n"
    and ok: "\<forall>p. prefix p (disk_start env root @ ms @ ns) \<longrightarrow> p \<noteq> [] \<longrightarrow>
      \<not> env_refuses env p \<and> file_at h p = None"
    and pre: "pre = (if path_is_absolute root then [''/''] else [])"
  shows "\<exists>h'. fs_mkdirs env (pre @ ms) ns h = (True, h') \<and>
    node_at h' (disk_start env root @ ms @ ns) = Some Dir \<and>
    (\<forall>p. node_at h' p \<noteq> node_at h p \<longrightarrow> prefix p (disk_start env root @ ms @ ns))"
  using assms(1-4)
proof (induction ns arbitrary: ms h)
  case (Cons n ns)
  let ?q = "disk_start env root @ ms @ [n]" and ?full = "disk_start env root @ ms @ n # ns"
  have full: "prefix p ?q \<Longrightarrow> prefix p ?full" for p
    by (metis append.assoc append_Cons append_Nil prefix_prefix)
  then have free: "\<forall>p. prefix p ?q \<longrightarrow> p \<noteq> [] \<longrightarrow> \<not> env_refuses env p" using Cons.prems(4) by blast
  have at: "fs_resolve env (pre @ ms @ [n]) h = WalkAt ?q"
    unfolding pre using Cons.prems(3) by (intro next_resolves [OF Cons.prems(1,2) _ free]) auto
  have ih: "\<exists>h'. fs_mkdirs env (pre @ ms @ [n]) ns h1 = (True, h') \<and>
      node_at h' ?full = Some Dir \<and> (\<forall>p. node_at h' p \<noteq> node_at h p \<longrightarrow> prefix p ?full)"
    if h1: "fs_inv env root h1" "node_at h1 ?q = Some Dir" "file_at h1 = file_at h"
      "\<forall>p. node_at h1 p \<noteq> node_at h p \<longrightarrow> p = ?q" for h1
  proof -
    obtain h' where h': "fs_mkdirs env (pre @ ms @ [n]) ns h1 = (True, h')"
      "node_at h' ?full = Some Dir" "\<forall>p. node_at h' p \<noteq> node_at h1 p \<longrightarrow> prefix p ?full"
      using Cons.IH [of h1 "ms @ [n]"] h1(1-3) Cons.prems(3,4) by auto
    moreover have "\<forall>p. node_at h' p \<noteq> node_at h p \<longrightarrow> prefix p ?full"
      using h'(3) h1(4) full [of ?q] by (metis prefix_order.order_refl)
    ultimately show ?thesis by blast
  qed
  show ?case
  proof (cases "node_at h ?q")
    case (Some m)
    moreover have "file_at h ?q = None" using Cons.prems(4) full [of ?q] by simp
    ultimately have "node_at h ?q = Some Dir" by (cases m) (auto simp: file_at_def)
    with ih [OF Cons.prems(1) this] show ?thesis by (simp add: fs_status_def at)
  next
    case None
    with next_made [OF Cons.prems(1,2), of n] Cons.prems(3) free ih [of "set_node ?q Dir h"]
    show ?thesis by (simp add: fs_status_def at)
  qed
qed simp

text \<open>The way to the object is made, and leads to a name that is free or a file.\<close>

lemma way_made:
  assumes ok: "root_ok root" and fs: "fs_inv env root h" and k: "good_key k" and way: "clear_way env root k h"
  obtains h1 where "fs_create_directories env (path_parent (root @ key_names k)) h = (True, h1)"
    and "node_at h1 (butlast (disk_base env root @ key_names k)) = Some Dir"
    and "node_at h1 (disk_base env root @ key_names k) \<noteq> Some Dir"
proof -
  let ?q = "disk_base env root @ key_names k"
  let ?pre = "if path_is_absolute root then [''/''] else []"
  let ?up = "root_names root @ butlast (key_names k)"
  have root: "root = ?pre @ root_names root"
    by (cases root) (simp_all add: root_names_def path_is_absolute_def)
  have up: "disk_start env root @ ?up = butlast ?q" by (simp add: disk_base_def butlast_append)
  have below: "strict_prefix p ?q \<longleftrightarrow> prefix p (butlast ?q)" for p
    by (rule strict_prefix_butlast) simp
  have ps: "\<forall>p. prefix p (disk_start env root @ [] @ ?up) \<longrightarrow> p \<noteq> [] \<longrightarrow>
      \<not> env_refuses env p \<and> file_at h p = None"
    using clear_wayD(2,3) [OF way] below up by (auto simp: strict_prefix_def)
  have pl: "\<forall>n\<in>set ([] @ ?up). plain_name n"
    using root_names_plain [OF ok] good_key_plain [OF k] by (auto dest: in_set_butlastD)
  obtain h1 where mk: "fs_mkdirs env ?pre ?up h = (True, h1)"
    and dir: "node_at h1 (butlast ?q) = Some Dir"
    and new: "\<forall>p. node_at h1 p \<noteq> node_at h p \<longrightarrow> prefix p (butlast ?q)"
    using mkdirs_succeeds [OF fs _ pl ps refl] fs_invD(7) [OF fs] up by auto
  have "fs_mkdirs env [] (?pre @ ?up) h = (True, h1)"
    using mk by (auto simp: fs_status_def fs_resolve_def)
  moreover have "path_parent (root @ key_names k) = ?pre @ ?up"
    using root by (simp add: path_parent_key [OF ok])
  ultimately have "fs_create_directories env (path_parent (root @ key_names k)) h = (True, h1)"
    using ok by (auto simp: fs_create_directories_def root_ok_def)
  moreover have "\<not> prefix ?q (butlast ?q)" using below [of ?q] by simp
  then have "node_at h1 ?q \<noteq> Some Dir" using new clear_wayD(1) [OF way] by metis
  ultimately show ?thesis using that dir by blast
qed

lemma way_leads:
  assumes ok: "root_ok root" and fs: "fs_inv env root h1" and k: "good_key k"
    and way: "clear_way env root k h"
    and dir: "node_at h1 (butlast (disk_base env root @ key_names k)) = Some Dir"
  shows "fs_resolve env (root @ key_names k) h1 = WalkAt (disk_base env root @ key_names k)"
proof -
  let ?q = "disk_base env root @ key_names k"
  have "fs_walk_from env h1 (disk_start env root) (root_names root @ key_names k) =
      WalkAt (disk_start env root @ root_names root @ key_names k)"
  proof (rule walk_reaches)
    show "\<forall>n\<in>set (root_names root @ key_names k). plain_name n"
      using good_key_plain [OF k] root_names_plain [OF ok] by auto
    show "\<forall>p. p \<noteq> [] \<longrightarrow> prefix p (disk_start env root @ root_names root @ key_names k) \<longrightarrow>
        \<not> env_refuses env p"
      using clear_wayD(3) [OF way] by (auto simp: disk_base_def)
    show "\<forall>p. strict_prefix p (disk_start env root @ root_names root @ key_names k) \<longrightarrow>
        node_at h1 p = Some Dir"
    proof (intro allI impI)
      fix p assume "strict_prefix p (disk_start env root @ root_names root @ key_names k)"
      then have "prefix p (butlast ?q)" using strict_prefix_butlast [of ?q p] by (simp add: disk_base_def)
      then obtain r where "butlast ?q = p @ r" by (auto simp: prefix_def)
      then show "node_at h1 p = Some Dir"
        using dir node_above [OF fs, of p r] by (cases "r = []") auto
    qed
  qed
  then show ?thesis using resolve_root [OF ok good_key_plain [OF k], of env "[]"]
    by (simp add: disk_base_def)
qed

lemma Disk_put_succeeds:
  assumes inv: "disk_inv env root h" and k: "good_key k" and way: "clear_way env root k h"
  shows "fst (DiskObjectStorage_put env root k b h) = PutOk"
proof -
  have ok: "root_ok root" and fs: "fs_inv env root h" using inv by (auto simp: disk_inv_def)
  obtain h1 where d: "fs_create_directories env (path_parent (root @ key_names k)) h = (True, h1)"
    and dir: "node_at h1 (butlast (disk_base env root @ key_names k)) = Some Dir"
    and target: "node_at h1 (disk_base env root @ key_names k) \<noteq> Some Dir"
    by (rule way_made [OF ok fs k way])
  have "path_ok (root @ butlast (key_names k))"
    using good_key_plain [OF k] by (auto intro!: path_ok_root [OF ok] dest: in_set_butlastD)
  then have "fs_inv env root h1"
    using create_directories_grown [OF fs anchored_root [OF fs ok]] d
    by (simp add: path_parent_key [OF ok])
  note at = way_leads [OF ok this k way dir]
  obtain f h2 where o: "ofs_open env (root @ key_names k) h1 = (f, h2)"
    by (cases "ofs_open env (root @ key_names k) h1")
  with target have good: "ofs_good f"
    by (auto simp: ofs_open_def at Let_def split: option.splits node.splits)
  obtain f' h3 where w: "ofs_write env f b h2 = (f', h3)" by (cases "ofs_write env f b h2")
  obtain f'' h4 where c: "ofs_close f' h3 = (f'', h4)" by (cases "ofs_close f' h3")
  show ?thesis
    using store_object [OF inv k d o, of b f' h3 f'' h4] good
    by (simp add: DiskObjectStorage_put_def mapPath_good [OF ok k] d o w c)
qed


lemma d_key [simp]: "good_key ''a/b''" "key_names ''a/b'' = [''a'', ''b'']"
  by (simp_all add: good_key_def key_names_def plain_name_def name_extension_def)

lemma d_clear [simp]: "clear_way plain_env d_root ''a/b'' d_host"
  by (simp add: clear_way_def file_at_def node_at_def) (simp add: d_host_def)


section \<open>Uploads and downloads\<close>

text \<open>C8.
  An upload takes effect at once when it finishes: however the object is cut into chunks, as long as
  the session is open the stored objects are what they were; a finish that answers Ok stores the
  chunks in order under the key, and a failed finish or an abort leaves every object as it was.\<close>

theorem Disk_upload_atomic:
  assumes "disk_inv env root h" "good_key k" "list_all str_ok cs"
    and "DiskObjectStorage_beginPut env root k n h = (res, h1)"
    and "bp_status res = PutOk" "bp_session res = Some w"
    and "vt_write_all (DiskObjectStorage_svt env root) w cs h1 = (ok, w2, h2)"
    and "DiskWriteSession_finish env w2 h2 = (q, w3, h3)"
    and "DiskWriteSession_abort env w2 h2 = (w4, h4)"
  shows "disk_view env root h1 = disk_view env root h \<and>
    disk_view env root h2 = disk_view env root h \<and>
    (ok \<longrightarrow> disk_view env root h3 =
      (if q = PutOk then (disk_view env root h)(k \<mapsto> concat cs) else disk_view env root h)) \<and>
    disk_view env root h4 = disk_view env root h"
proof -
  have h1: "disk_inv env root h1" "disk_view env root h1 = disk_view env root h"
    "disk_uploads env root w k [] h1"
    using disk_stream.beginPut [OF assms(1,2), of n res h1] assms(4-6) by auto
  obtain b where h2: "disk_inv env root h2" "disk_view env root h2 = disk_view env root h1"
    "disk_uploads env root w2 k b h2" "ok \<longrightarrow> b = concat cs"
    using disk_stream.write_all [OF assms(3) h1(1,3) assms(7)] by auto
  show ?thesis
    using h1(2) h2 disk_stream.finish [OF h2(1,3)] disk_stream.abort [OF h2(1,3)] assms(8,9) by simp
qed

lemma d_map [simp]: "mapPath d_root ''a/b'' = Some (d_root @ [''a'', ''b''])"
  using mapPath_good [OF d_root_ok d_key(1)] by simp

text \<open>The session and the host after the upload of \<open>a/b\<close> has begun.\<close>

definition d_session :: disk_write where
  "d_session = \<lparr>dw_tempPath = [''/'', ''d'', ''a'', ''b.tmp''], dw_finalPath = [''/'', ''d'', ''a'', ''b''],
     dw_file = \<lparr>ofs_file = Some 1, ofs_pos = 0, ofs_buf = [], ofs_good = True\<rparr>, dw_finished = False\<rparr>"

definition d_uploading :: host where
  "d_uploading = \<lparr>hs_nodes = [([''d''], Dir), ([''etc''], Dir), ([''etc'', ''x''], File 0),
       ([''d'', ''a''], Dir), ([''d'', ''a'', ''b.tmp''], File 1)],
     hs_data = (\<lambda>_. ''old'')(1 := []), hs_next = 2, hs_room = None\<rparr>"

lemmas d_eval = d_defs d_session_def d_uploading_def Let_def DiskWriteSession_new_def
  fs_create_directories_def path_parent_def path_concat_def fs_status_def fs_resolve_def node_at_def
  set_node_def remove_node_def ofs_open_def ofs_close_def fs_rename_def

theorem Disk_upload_atomic_witness:
  "disk_view plain_env d_root
     (snd (snd (DiskWriteSession_finish plain_env
        (the (bp_session (fst (DiskObjectStorage_beginPut plain_env d_root ''a/b'' 0 d_host))))
        (snd (DiskObjectStorage_beginPut plain_env d_root ''a/b'' 0 d_host))))) ''a/b'' = Some []"
proof -
  let ?b = "DiskObjectStorage_beginPut plain_env d_root ''a/b'' 0 d_host"
  let ?w = "the (bp_session (fst ?b))"
  let ?f = "DiskWriteSession_finish plain_env ?w (snd ?b)" and ?a = "DiskWriteSession_abort plain_env ?w (snd ?b)"
  have b: "?b = (\<lparr>bp_status = PutOk, bp_session = Some d_session\<rparr>, d_uploading)"
    by (simp add: DiskObjectStorage_beginPut_def d_map) (simp add: d_eval)
  have "fst ?f = PutOk" unfolding b by (simp add: DiskWriteSession_finish_def) (simp add: d_eval)
  with Disk_upload_atomic [OF d_host_inv d_key(1), of "[]" 0 "fst ?b" "snd ?b" ?w True ?w "snd ?b"
      "fst ?f" "fst (snd ?f)" "snd (snd ?f)" "fst ?a" "snd ?a"]
  show ?thesis by (simp add: b)
qed

text \<open>
  A download gives back the stored bytes: the announced size is the object's, and reading the
  session chunk by chunk ends and yields the object, in chunks that are not empty and no longer than
  asked for. What is not stored is not found.\<close>

theorem Disk_download_exact:
  assumes "disk_inv env root h" "good_key k" "0 < n"
  shows "case disk_view env root h k of
      None \<Rightarrow> \<not> bg_found (DiskObjectStorage_beginGet env root k h)
    | Some b \<Rightarrow> \<exists>r cs. DiskObjectStorage_beginGet env root k h =
          \<lparr>bg_found = True, bg_size = of_nat (length b), bg_session = Some r\<rparr> \<and>
        vt_read_all (DiskObjectStorage_svt env root) n (Suc (length b)) r h = Some cs \<and>
        concat cs = b \<and> (\<forall>c\<in>set cs. 0 < length c \<and> length c \<le> n)"
proof (cases "disk_view env root h k")
  case None
  then show ?thesis using disk_stream.beginGet_absent [OF assms(1,2)] by simp
next
  case (Some b)
  then obtain r where r: "DiskObjectStorage_beginGet env root k h =
      \<lparr>bg_found = True, bg_size = of_nat (length b), bg_session = Some r\<rparr>" "disk_downloads r b h"
    using disk_stream.beginGet_stored [OF assms(1,2)] by auto
  with disk_stream.read_all [OF assms(3) r(2), of "Suc (length b)"] Some show ?thesis by auto
qed

theorem Disk_download_exact_witness:
  "\<not> bg_found (DiskObjectStorage_beginGet plain_env d_root ''a/b'' d_host)"
proof -
  have "disk_view plain_env d_root d_host ''a/b'' = None"
    by (simp add: disk_view_def file_at_def node_at_def d_host_def)
  with Disk_download_exact [OF d_host_inv d_key(1), of 1] show ?thesis by simp
qed

section \<open>What goes wrong\<close>

lemma begun_upload:
  assumes "disk_inv env root h" "good_key k"
    and "DiskObjectStorage_beginPut env root k n h = (res, h')" "bp_session res = Some w"
  shows "disk_inv env root h' \<and> disk_view env root h' = disk_view env root h \<and> disk_uploads env root w k [] h'"
proof -
  have "bp_status res = PutOk"
    using assms(3,4) by (auto simp: DiskObjectStorage_beginPut_def Let_def split: option.splits prod.splits if_splits)
  with Disk_beginPut_view [OF assms(1-3)] assms(4) show ?thesis by auto
qed

text \<open>Beginning an upload again opens the temporary file of the first one, and empties it.\<close>

lemma second_upload:
  assumes inv: "disk_inv env root h" and w: "disk_uploads env root w k b h" "ofs_good (dw_file w)"
    and op: "DiskObjectStorage_beginPut env root k n h = (res, h')" "bp_session res = Some w'" "ofs_good (dw_file w')"
  obtains i where "node_at h' (disk_base env root @ temp_names k) = Some (File i)" "hs_data h' i = []"
    "ofs_file (dw_file w) = Some i" "dw_file w' = \<lparr>ofs_file = Some i, ofs_pos = 0, ofs_buf = [], ofs_good = True\<rparr>"
proof -
  let ?q = "disk_base env root @ temp_names k"
  have ok: "root_ok root" and fs: "fs_inv env root h" using inv by (auto simp: disk_inv_def)
  obtain i where k: "good_key k" and i: "node_at h ?q = Some (File i)" "ofs_file (dw_file w) = Some i"
    using w by (auto simp: disk_uploads_def ofs_holds_def)
  have map: "mapPath root k = Some (root @ key_names k)" by (rule mapPath_good [OF ok k])
  obtain d h1 where d: "fs_create_directories env (path_parent (root @ key_names k)) h = (d, h1)" by fastforce
  have parts: "\<forall>x\<in>set (key_names k). part_ok x" using good_key_plain [OF k] by (simp add: part_ok_def plain_file_name)
  have "fs_inv env root h1" by (rule confined_inv [OF confined_dirs [OF ok fs parts d]])
  moreover have "node_at h1 ?q = Some (File i)"
  proof -
    have "path_ok (root @ butlast (key_names k))"
      using good_key_plain [OF k] by (auto intro!: path_ok_root [OF ok] dest: in_set_butlastD)
    then have "grown h h1"
      using create_directories_grown [OF fs anchored_root [OF fs ok]] d by (simp add: path_parent_key [OF ok])
    then show ?thesis using i(1) by (rule grown_node)
  qed
  ultimately have q: "fs_resolve env (root @ temp_names k) h1 = WalkAt ?q" "node_at h1 ?q = Some (File i)"
    using resolve_reaches [OF ok _ temp_plain [OF k]] by simp_all
  have "ofs_open env (root @ temp_names k) h1 =
      (\<lparr>ofs_file = Some i, ofs_pos = 0, ofs_buf = [], ofs_good = True\<rparr>, h1\<lparr>hs_data := (hs_data h1)(i := [])\<rparr>)"
    using q by (simp add: ofs_open_def)
  with op have "dw_file w' = \<lparr>ofs_file = Some i, ofs_pos = 0, ofs_buf = [], ofs_good = True\<rparr>"
    "h' = h1\<lparr>hs_data := (hs_data h1)(i := [])\<rparr>"
    by (auto simp: DiskObjectStorage_beginPut_def DiskWriteSession_new_def map d path_concat_key split: if_splits)
  with q(2) i(2) that [of i] show ?thesis by simp
qed

lemma unbuffered_write:
  assumes "\<not> env_buffers env 0 (length c)" "hs_room h = None"
    and "dw_file w = \<lparr>ofs_file = Some i, ofs_pos = 0, ofs_buf = [], ofs_good = True\<rparr>"
    and "DiskWriteSession_writeChunk env w c h = (ok, w', h')"
  shows "h' = h\<lparr>hs_data := (hs_data h)(i := c @ drop (length c) (hs_data h i))\<rparr>"
    "w' = w\<lparr>dw_file := \<lparr>ofs_file = Some i, ofs_pos = length c, ofs_buf = [], ofs_good = True\<rparr>\<rparr>"
  using assms by (auto simp: DiskWriteSession_writeChunk_def ofs_write_def fs_write_def splice_def Let_def)

text \<open>C36.
  Two uploads of one object share one temporary file. When a second client begins to upload an object
  and the first goes on, each writes over what the other has written, and the first to finish is told
  that its object was stored, while what is stored is the end of its own chunk behind the chunk of the
  other.\<close>

theorem Disk_uploads_share_file:
  assumes "disk_inv env root h" "good_key k" "\<not> env_buffers env 0 (length a)" "\<not> env_buffers env 0 (length b)"
    and "DiskObjectStorage_beginPut env root k m h = (res1, h1)" "bp_session res1 = Some w1" "ofs_good (dw_file w1)"
    and "DiskObjectStorage_beginPut env root k n h1 = (res2, h2)" "bp_session res2 = Some w2" "ofs_good (dw_file w2)"
    and "DiskWriteSession_writeChunk env w1 a h2 = (ok1, w1', h3)" "DiskWriteSession_writeChunk env w2 b h3 = (ok2, w2', h4)"
    and "DiskWriteSession_finish env w1' h4 = (PutOk, w1'', h5)"
  shows "disk_view env root h5 = (disk_view env root h)(k \<mapsto> b @ drop (length b) a)"
proof -
  from begun_upload [OF assms(1,2,5,6)] have 1: "disk_inv env root h1" "disk_view env root h1 = disk_view env root h"
    and up1: "disk_uploads env root w1 k [] h1" by simp_all
  have 2: "disk_inv env root h2" "disk_view env root h2 = disk_view env root h"
    using Disk_beginPut_view [OF 1(1) assms(2,8)] 1(2) by auto
  from second_upload [OF 1(1) up1 assms(7-10)] obtain i where
    i: "node_at h2 (disk_base env root @ temp_names k) = Some (File i)" "hs_data h2 i = []" "ofs_file (dw_file w1) = Some i"
    and f2: "dw_file w2 = \<lparr>ofs_file = Some i, ofs_pos = 0, ofs_buf = [], ofs_good = True\<rparr>" .
  have f1: "dw_file w1 = \<lparr>ofs_file = Some i, ofs_pos = 0, ofs_buf = [], ofs_good = True\<rparr>"
    using up1 assms(7) i(3) by (cases "dw_file w1") (auto simp: disk_uploads_def ofs_holds_def)
  have room: "hs_room h2 = None" using 2(1) by (simp add: disk_inv_def)
  note h3 = unbuffered_write [OF assms(3) room f1 assms(11)]
  have room3: "hs_room h3 = None" using room by (simp add: h3)
  note h4 = unbuffered_write [OF assms(4) room3 f2 assms(12)]
  let ?c = "b @ drop (length b) a"
  have data: "h4 = h2\<lparr>hs_data := (hs_data h2)(i := ?c)\<rparr>" by (simp add: h4(1) h3(1) i(2))
  have fs: "fs_inv env root h2" using 2(1) by (simp add: disk_inv_def)
  have "file_at h4 = (file_at h2)(disk_base env root @ temp_names k \<mapsto> ?c)"
    unfolding data using fs_invD(6) [OF fs _ i(1)] by (intro file_at_data i(1))
  from temp_frame [OF 2(1) assms(2) _ _ this] fs room
  have h4_inv: "disk_inv env root h4" "disk_view env root h4 = disk_view env root h2" by (simp_all add: data)
  have paths: "dw_tempPath w1' = root @ temp_names k" "dw_finalPath w1' = root @ key_names k"
    using up1 by (auto simp: h3(2) disk_uploads_def)
  have "ofs_close (dw_file w1') h4 = (\<lparr>ofs_file = None, ofs_pos = length a, ofs_buf = [], ofs_good = True\<rparr>, h4)"
    by (simp add: h3(2) ofs_close_def)
  then have "fs_rename env (root @ temp_names k) (root @ key_names k) h4 = (True, h5)"
    using assms(13) by (auto simp: DiskWriteSession_finish_def paths Let_def split: prod.splits if_splits)
  from Disk_rename_temp [OF h4_inv(1) assms(2) _ this] i(1) h4_inv(2) 2(2) show ?thesis by (simp add: data)
qed

definition direct_env :: os_env where
  "direct_env = plain_env\<lparr>env_buffers := \<lambda>_ _. False\<rparr>"

lemma direct_inv: "disk_inv direct_env d_root d_host"
proof -
  have "disk_base direct_env d_root = disk_base plain_env d_root" "disk_start direct_env d_root = disk_start plain_env d_root"
    by (simp_all add: disk_base_def disk_start_def direct_env_def)
  then have "disk_inv direct_env d_root d_host = disk_inv plain_env d_root d_host"
    by (simp add: disk_inv_def fs_inv_def direct_env_def plain_env_def)
  then show ?thesis by simp
qed

text \<open>Two clients upload \<open>a/b\<close>, one as \<open>AAAA\<close>, the other as \<open>B\<close>.\<close>

definition shared_write :: "bytes \<Rightarrow> bytes \<Rightarrow> disk_write \<times> host" where
  "shared_write b old =
     (d_session\<lparr>dw_file := \<lparr>ofs_file = Some 1, ofs_pos = length b, ofs_buf = [], ofs_good = True\<rparr>\<rparr>,
      d_uploading\<lparr>hs_data := (hs_data d_uploading)(1 := b @ drop (length b) old)\<rparr>)"

lemma shared_steps:
  "DiskObjectStorage_beginPut direct_env d_root ''a/b'' m d_host = (\<lparr>bp_status = PutOk, bp_session = Some d_session\<rparr>, d_uploading)"
  "DiskObjectStorage_beginPut direct_env d_root ''a/b'' m d_uploading = (\<lparr>bp_status = PutOk, bp_session = Some d_session\<rparr>, d_uploading)"
  "DiskWriteSession_writeChunk direct_env d_session ''AAAA'' d_uploading =
     (True, fst (shared_write ''AAAA'' []), snd (shared_write ''AAAA'' []))"
  "DiskWriteSession_writeChunk direct_env d_session ''B'' (snd (shared_write ''AAAA'' [])) =
     (True, fst (shared_write ''B'' ''AAAA''), snd (shared_write ''B'' ''AAAA''))"
  by (simp_all add: DiskObjectStorage_beginPut_def d_map) (simp_all add: d_eval direct_env_def
      DiskWriteSession_writeChunk_def ofs_write_def fs_write_def splice_def shared_write_def)

theorem Disk_uploads_share_file_witness:
  "disk_view direct_env d_root (snd (snd (DiskWriteSession_finish direct_env
     (fst (shared_write ''AAAA'' [])) (snd (shared_write ''B'' ''AAAA''))))) ''a/b'' = Some ''BAAA''"
proof -
  let ?f = "DiskWriteSession_finish direct_env (fst (shared_write ''AAAA'' [])) (snd (shared_write ''B'' ''AAAA''))"
  have "fst ?f = PutOk"
    by (simp add: DiskWriteSession_finish_def shared_write_def) (simp add: d_eval direct_env_def)
  then have f: "?f = (PutOk, fst (snd ?f), snd (snd ?f))" by (metis prod.collapse)
  have "ofs_good (dw_file d_session)" by (simp add: d_session_def)
  from Disk_uploads_share_file [OF direct_inv d_key(1) _ _ shared_steps(1) _ this shared_steps(2) _ this shared_steps(3,4) f]
  show ?thesis by (simp add: direct_env_def)
qed

lemma stored_clear:
  assumes "root_ok root" "fs_inv env root h" "good_key k"
    and "node_at h (disk_base env root @ key_names k) = Some (File i)"
  shows "clear_way env root k h"
proof -
  let ?q = "disk_base env root @ key_names k"
  have above: "node_at h p = Some Dir" if "strict_prefix p ?q" for p
    using that assms(4) node_above [OF assms(2), of p] by (auto simp: strict_prefix_def prefix_def)
  have "\<not> env_refuses env p" if "prefix p ?q" "p \<noteq> []" for p
  proof -
    have "on_way (disk_base env root) p" using that(1) by (intro on_way_prefix) simp_all
    moreover have "node_at h p \<noteq> None"
      using that(1) above [of p] assms(4) by (cases "p = ?q") (auto simp: strict_prefix_def)
    ultimately show ?thesis using fs_invD(4) [OF assms(2)] that(2) by blast
  qed
  moreover have "p = ?q \<or> file_at h p = None" if "prefix p ?q" for p
  proof (cases "p = ?q")
    case False
    with above [of p] that have "node_at h p = Some Dir" by (simp add: strict_prefix_def)
    then show ?thesis by simp
  qed simp
  ultimately show ?thesis using assms(4) by (auto simp: clear_way_def Let_def list_all_iff)
qed

text \<open>C37.
  A put on a full device answers Ok and loses the object: when the device takes no more bytes, a new
  value that the file stream can buffer is accepted (the error at the closing of the stream is not
  looked at), although the file was truncated and stays empty, so that the old value is gone.\<close>

theorem Disk_full_put_loses:
  assumes "root_ok root" "fs_inv env root h" "good_key k" "hs_room h = Some 0"
    and "node_at h (disk_base env root @ key_names k) = Some (File i)"
    and "b \<noteq> []" "env_buffers env 0 (length b)"
  shows "fst (DiskObjectStorage_put env root k b h) = PutOk \<and>
    DiskObjectStorage_get env root k (snd (DiskObjectStorage_put env root k b h)) = Some []"
proof -
  let ?q = "disk_base env root @ key_names k"
  note ok = assms(1) and fs = assms(2) and k = assms(3)
  have map: "mapPath root k = Some (root @ key_names k)" by (rule mapPath_good [OF ok k])
  note way = stored_clear [OF ok fs k assms(5)]
  obtain h1 where d: "fs_create_directories env (path_parent (root @ key_names k)) h = (True, h1)"
    and dir: "node_at h1 (butlast ?q) = Some Dir" and target: "node_at h1 ?q \<noteq> Some Dir"
    by (rule way_made [OF ok fs k way])
  have path: "path_ok (root @ butlast (key_names k))" "path_ok (root @ key_names k)"
    using good_key_plain [OF k] by (auto intro!: path_ok_root [OF ok] dest: in_set_butlastD)
  have h1: "fs_inv env root h1" "grown h h1"
    using create_directories_grown [OF fs anchored_root [OF fs ok] path(1)] d
    by (simp_all add: path_parent_key [OF ok])
  note at = way_leads [OF ok h1(1) k way dir]
  obtain f h2 where o: "ofs_open env (root @ key_names k) h1 = (f, h2)"
    by (cases "ofs_open env (root @ key_names k) h1")
  with target have good: "ofs_good f"
    by (auto simp: ofs_open_def at Let_def split: option.splits node.splits)
  obtain j where f: "f = \<lparr>ofs_file = Some j, ofs_pos = 0, ofs_buf = [], ofs_good = True\<rparr>"
    and h2: "fs_inv env root h2" "file_at h2 = (file_at h1)(?q \<mapsto> [])" "hs_room h2 = Some 0"
      "node_at h2 = (node_at h1)(?q \<mapsto> File j)"
    using ofs_open_keeps [OF h1(1) anchored_root [OF h1(1) ok] path(2) o good] at h1(2) assms(4)
    by (auto simp: grown_def)
  have empty: "hs_data h2 j = []" using h2(2) file_at_node(3) [of h2 ?q j] by (simp add: h2(4))
  let ?h = "h2\<lparr>hs_data := (hs_data h2)(j := []), hs_room := Some 0\<rparr>"
  have put: "DiskObjectStorage_put env root k b h = (PutOk, ?h)"
    using assms(6,7) by (simp add: DiskObjectStorage_put_def map d o f ofs_write_def ofs_close_def
        fs_write_def h2(3) splice_def empty)
  have "fs_status env (root @ key_names k) ?h = StFile j"
    using status_location [OF ok _ k, of env ?h j] h2(1,4) by simp
  then show ?thesis
    by (simp add: put DiskObjectStorage_get_def map ifs_open_def ifs_rest_def)
qed

definition d_full :: host where
  "d_full = \<lparr>hs_nodes = [([''d''], Dir), ([''d'', ''a''], Dir), ([''d'', ''a'', ''b''], File 0)],
     hs_data = (\<lambda>_. ''old''), hs_next = 1, hs_room = Some 0\<rparr>"

lemma d_full_inv [simp]: "fs_inv plain_env d_root d_full"
  by (rule fs_invI)
    (auto simp: node_at_def d_full_def plain_name_def split: if_splits)

theorem Disk_full_put_loses_witness:
  "fst (DiskObjectStorage_put plain_env d_root ''a/b'' ''new'' d_full) = PutOk \<and>
   DiskObjectStorage_get plain_env d_root ''a/b''
     (snd (DiskObjectStorage_put plain_env d_root ''a/b'' ''new'' d_full)) = Some []"
  by (rule Disk_full_put_loses [OF d_root_ok d_full_inv d_key(1), of 0])
    (simp_all add: d_full_def node_at_def plain_env_def disk_base_def disk_start_def d_root_def
      root_names_def path_is_absolute_def)

text \<open>
  A storage root given with a trailing slash rejects every object: the root then ends in an empty
  element, the normalised target does not, and the test that the target is below the root fails.\<close>

theorem Disk_slash_root_rejects:
  assumes "root_ok root" "good_key k"
  shows "mapPath (root @ [[]]) k = None \<and>
    DiskObjectStorage_put env (root @ [[]]) k b h = (PutInvalidPath, h)"
proof -
  have plain: "\<forall>n\<in>set (key_names k). plain_name n" using good_key_plain [OF assms(2)] .
  then have first: "plain_name (key_names k ! 0)" and last: "plain_name (last (key_names k))"
    by (simp_all add: nth_mem)
  then have abs: "\<not> path_is_absolute (key_names k)" by (simp add: path_is_absolute_def)
  have "path_append (root @ [[]]) (key_names k) = path_append root (key_names k)"
    using abs root_ok_facts(4) [OF assms(1)] by (simp add: path_append_def path_has_filename_def)
  moreover have "path_lexically_normal (path_append root (key_names k)) = root @ key_names k"
    using normal_root_append [OF assms(1) key_names_ne abs] plain last
    by (simp add: plain_file_name trail_def)
  moreover have "\<not> prefix (root @ [[]]) (root @ key_names k)"
    using plain_name_simps(1) [OF first] by (cases "key_names k") auto
  ultimately have "mapPath (root @ [[]]) k = None"
    by (simp add: mapPath_def good_key_path [OF assms(2)] Let_def)
  then show ?thesis by (simp add: DiskObjectStorage_put_def)
qed

theorem Disk_slash_root_rejects_witness:
  "mapPath (path_of ''/d/'') ''a/b'' = None"
proof -
  have "path_of ''/d/'' = d_root @ [[]]" by (simp add: path_of_def d_root_def)
  then show ?thesis using Disk_slash_root_rejects [OF d_root_ok d_key(1)] by simp
qed

lemma d_alias:
  "mapPath d_root ''./a'' = Some [''/'', ''d'', ''a'']" "mapPath d_root ''a'' = Some [''/'', ''d'', ''a'']"
  by code_simp+

text \<open>
  Two spellings of one object are counted as two: on the disk storage \<open>./a\<close> and \<open>a\<close> name the same
  file, but the capacity accounting records sizes by the bytes of the key, so that after both have
  been put the recorded total is twice what is stored.\<close>

theorem Bounded_alias_counts_twice:
  "let vt = DiskObjectStorage_vt plain_env d_root;
       (r1, s1) = BoundedObjectStorage_put vt ''./a'' ''123'' (BoundedObjectStorage_new d_host 100);
       (r2, s2) = BoundedObjectStorage_put vt ''a'' ''123'' s1
   in r1 = PutOk \<and> r2 = PutOk \<and> BoundedObjectStorage_totalBytes s2 = 6 \<and>
      BoundedObjectStorage_keys vt s2 = Ret [''a''] \<and>
      BoundedObjectStorage_get vt ''a'' s2 = Some ''123''"
proof -
  let ?h = "\<lambda>d. \<lparr>hs_nodes = [([''d''], Dir), ([''etc''], Dir), ([''etc'', ''x''], File 0), ([''d'', ''a''], File 1)],
     hs_data = (d :: nat \<Rightarrow> bytes), hs_next = 2, hs_room = None\<rparr>"
  have 1: "DiskObjectStorage_put plain_env d_root ''./a'' ''123'' d_host =
      (PutOk, ?h ((\<lambda>_. ''old'')(1 := ''123'')))"
    by (simp add: DiskObjectStorage_put_def d_alias)
      (simp add: d_eval ofs_write_def fs_write_def splice_def)
  have 2: "DiskObjectStorage_put plain_env d_root ''a'' ''123'' (?h ((\<lambda>_. ''old'')(1 := ''123''))) =
      (PutOk, ?h ((\<lambda>_. ''old'')(1 := ''123'')))"
    by (simp add: DiskObjectStorage_put_def d_alias)
      (simp add: d_eval ofs_write_def fs_write_def splice_def)
  have 3: "DiskObjectStorage_keys plain_env d_root (?h ((\<lambda>_. ''old'')(1 := ''123''))) = Ret [''a'']"
    by (simp add: DiskObjectStorage_keys_def fs_exists_def tree_below_def is_object_file_def d_eval
        path_extension_def path_has_filename_def name_extension_def strict_prefix_def)
  have 4: "DiskObjectStorage_get plain_env d_root ''a'' (?h ((\<lambda>_. ''old'')(1 := ''123''))) = Some ''123''"
    by (simp add: DiskObjectStorage_get_def d_alias ifs_open_def) (simp add: d_eval ifs_rest_def)
  show ?thesis
    by (simp add: BoundedObjectStorage_put_def BoundedObjectStorage_new_def
        BoundedObjectStorage_wouldFit_def BoundedObjectStorage_totalBytes_def
        BoundedObjectStorage_objectSize_def BoundedObjectStorage_upsert_def
        BoundedObjectStorage_keys_def BoundedObjectStorage_get_def 1 2 3 4
        del: One_nat_def)
qed

end
