(* ===== verification/Bounded_Streaming.thy ===== *)
theory Bounded_Streaming
  imports Disk_Properties
begin

text \<open>
  A bounded storage over a streaming one is a streaming storage with the same objects: the
  accounting decides what is refused, not what is stored. The interpretations give the
  configuration \<open>main\<close> runs, a capacity limit in front of the disk.
\<close>

definition over_inner :: "('s \<Rightarrow> 'a) \<Rightarrow> 's bounded_storage \<Rightarrow> 'a" where
  "over_inner f s = f (b_inner s)"

definition bounded_uploads ::
    "('w \<Rightarrow> string \<Rightarrow> bytes \<Rightarrow> 's \<Rightarrow> bool) \<Rightarrow> 'w bounded_write \<Rightarrow> string \<Rightarrow> bytes
      \<Rightarrow> 's bounded_storage \<Rightarrow> bool" where
  "bounded_uploads iup w p b s \<longleftrightarrow> \<not> bw_finalized w \<and> iup (bw_inner w) p b (b_inner s)"

definition bounded_downloads ::
    "('r \<Rightarrow> bytes \<Rightarrow> 's \<Rightarrow> bool) \<Rightarrow> 'r \<Rightarrow> bytes \<Rightarrow> 's bounded_storage \<Rightarrow> bool" where
  "bounded_downloads idown r b s = idown r b (b_inner s)"

lemma b_inner_index [simp]:
  "b_inner (BoundedObjectStorage_upsert p n s) = b_inner s"
  "b_inner (BoundedObjectStorage_erase p s) = b_inner s"
  "b_inner (BoundedObjectStorage_onAborted p m s) = b_inner s"
  by (auto simp: BoundedObjectStorage_upsert_def BoundedObjectStorage_erase_def
      BoundedObjectStorage_onAborted_def Let_def split: option.split)

lemma BoundedObjectStorage_svt_simps [simp, obsto_vt]:
  "vt_beginPut (BoundedObjectStorage_svt svt) = BoundedObjectStorage_beginPut (Some svt)"
  "vt_beginGet (BoundedObjectStorage_svt svt) = BoundedObjectStorage_beginGet (Some svt)"
  "vt_writeChunk (BoundedObjectStorage_svt svt) = BoundedWriteSession_writeChunk svt"
  "vt_finish (BoundedObjectStorage_svt svt) = BoundedWriteSession_finish svt"
  "vt_abort (BoundedObjectStorage_svt svt) = BoundedWriteSession_abort svt"
  "vt_readChunk (BoundedObjectStorage_svt svt) = (\<lambda>r n s. vt_readChunk svt r n (b_inner s))"
  by (simp_all add: BoundedObjectStorage_svt_def)

lemmas bounded_stream_defs = over_inner_def bounded_uploads_def bounded_downloads_def

locale bounded_streaming = inner: streaming_store ivt iinv iview good isvt iup idown
  for ivt :: "'s object_vt" and iinv iview good
    and isvt :: "('s, 'w, 'r) streaming_vt" and iup idown
begin

lemma bounded_object_part:
  "object_store (BoundedObjectStorage_vt ivt) (over_inner iinv) (over_inner iview) good"
proof (unfold_locales, goal_cases)
  case (1 s p)
  then show ?case using inner.view_good by (simp add: over_inner_def)
next
  case (2 s p b r s')
  then show ?case
    using inner.put_inv
    by (auto simp: over_inner_def BoundedObjectStorage_put_def Let_def split: if_splits prod.splits)
next
  case (3 s p b r s')
  then show ?case
    using inner.put_view
    by (auto simp: over_inner_def BoundedObjectStorage_put_def Let_def split: if_splits prod.splits)
next
  case (4 s p b)
  then show ?case using inner.get_stored by (simp add: over_inner_def BoundedObjectStorage_get_def)
next
  case (5 s p d s')
  then show ?case
    using inner.del_inv
    by (auto simp: over_inner_def BoundedObjectStorage_del_def Let_def split: if_splits prod.splits)
next
  case (6 s p d s')
  then show ?case
    using inner.del_view
    by (auto simp: over_inner_def BoundedObjectStorage_del_def Let_def split: if_splits prod.splits)
next
  case (7 s ks)
  then show ?case using inner.keys_view by (simp add: over_inner_def BoundedObjectStorage_keys_def)
next
  case (8 s p e)
  then show ?case using inner.exists_view by (simp add: over_inner_def BoundedObjectStorage_exists_def)
next
  case (9 s p b n s')
  then show ?case
    using inner.setnx_inv
    by (auto simp: over_inner_def BoundedObjectStorage_setnx_def Let_def split: if_splits prod.splits)
next
  case (10 s p b n s')
  obtain q i where q: "vt_setnx ivt p b (b_inner s) = (q, i)" by fastforce
  from inner.setnx_view [OF _ _ _ q] 10 show ?case
    by (auto simp: over_inner_def BoundedObjectStorage_setnx_def q Let_def split: if_splits)
next
  case (11 s p)
  then have "fst (vt_del ivt p (b_inner s))" using inner.del_present by (simp add: over_inner_def)
  then show ?case by (auto simp: BoundedObjectStorage_del_def split: prod.split)
qed

lemma bounded_download_store:
  "download_store (BoundedObjectStorage_svt isvt) (bounded_downloads idown)"
  by unfold_locales (use inner.readChunk_end inner.readChunk in \<open>simp_all add: bounded_downloads_def\<close>)

lemma bounded_streaming_store:
  "streaming_store (BoundedObjectStorage_vt ivt) (over_inner iinv) (over_inner iview) good
     (BoundedObjectStorage_svt isvt) (bounded_uploads iup) (bounded_downloads idown)"
proof (intro streaming_store.intro bounded_object_part bounded_download_store streaming_store_axioms.intro, goal_cases)
  case (1 s p m res s')
  obtain q i where q: "vt_beginPut isvt p m (b_inner s) = (q, i)" by fastforce
  from inner.beginPut [OF _ _ q] 1 show ?case
    by (auto simp: bounded_stream_defs BoundedObjectStorage_beginPut_def q Let_def split: if_splits)
next
  case (2 s w p b c ok w' s')
  then show ?case
    using inner.writeChunk [of "b_inner s" "bw_inner w" p b c]
    by (auto simp: bounded_stream_defs BoundedWriteSession_writeChunk_def split: prod.splits)
next
  case (3 s w p b q w' s')
  then show ?case
    using inner.finish [of "b_inner s" "bw_inner w" p b]
    by (auto simp: bounded_stream_defs BoundedWriteSession_finish_def Let_def split: prod.splits if_splits)
next
  case (4 s w p b w' s')
  then show ?case
    using inner.abort [of "b_inner s" "bw_inner w" p b]
    by (auto simp: bounded_stream_defs BoundedWriteSession_abort_def Let_def split: prod.splits)
next
  case (5 s p)
  then show ?case
    using inner.beginGet_absent by (simp add: over_inner_def BoundedObjectStorage_beginGet_def)
next
  case (6 s p b)
  then show ?case
    using inner.beginGet_stored by (simp add: bounded_stream_defs BoundedObjectStorage_beginGet_def)
qed

end

sublocale bounded_streaming \<subseteq> outer:
  streaming_store "BoundedObjectStorage_vt ivt" "over_inner iinv" "over_inner iview" good
    "BoundedObjectStorage_svt isvt" "bounded_uploads iup" "bounded_downloads idown"
  by (rule bounded_streaming_store)

locale bounded_null_safe = inner: null_safe ivt isvt
  for ivt :: "'s object_vt" and isvt :: "('s, 'w, 'r) streaming_vt"

sublocale bounded_null_safe \<subseteq> outer: null_safe "BoundedObjectStorage_vt ivt" "BoundedObjectStorage_svt isvt"
proof (unfold_locales, goal_cases)
  case (1 s)
  then show ?case using inner.keys_defined by (simp add: BoundedObjectStorage_keys_def)
next
  case (2 p s)
  then show ?case using inner.exists_defined by (simp add: BoundedObjectStorage_exists_def)
next
  case (3 p b s)
  then show ?case
    using inner.setnx_defined [of p b "b_inner s"]
    by (auto simp: BoundedObjectStorage_setnx_def Let_def split: prod.splits)
next
  case (4 p n s)
  then show ?case
    using inner.beginPut_session [of p n "b_inner s"]
    by (auto simp: BoundedObjectStorage_beginPut_def Let_def split: prod.splits if_splits)
next
  case (5 p s)
  then show ?case using inner.beginGet_session by (simp add: BoundedObjectStorage_beginGet_def)
qed

interpretation bdisk: bounded_streaming "DiskObjectStorage_vt env root" "disk_inv env root"
    "disk_view env root" good_key "DiskObjectStorage_svt env root" "disk_uploads env root" disk_downloads
  for env root
  by unfold_locales

text \<open>The capacity limit throws nothing of its own.\<close>

locale bounded_total = inner: total_store ivt iinv iview good isvt iup idown
  for ivt :: "'s object_vt" and iinv iview good
    and isvt :: "('s, 'w, 'r) streaming_vt" and iup idown

sublocale bounded_total \<subseteq> bounded_streaming
  by unfold_locales

sublocale bounded_total \<subseteq> outer:
  total_store "BoundedObjectStorage_vt ivt" "over_inner iinv" "over_inner iview" good
    "BoundedObjectStorage_svt isvt" "bounded_uploads iup" "bounded_downloads idown"
proof (unfold_locales, goal_cases)
  case (1 s)
  then show ?case using inner.keys_total by (simp add: over_inner_def BoundedObjectStorage_keys_def)
next
  case (2 s p)
  then show ?case using inner.exists_total by (simp add: over_inner_def BoundedObjectStorage_exists_def)
next
  case (3 s p b)
  then show ?case
    using inner.setnx_total [of "b_inner s" p b]
    by (auto simp: over_inner_def BoundedObjectStorage_setnx_def Let_def split: prod.split)
qed

interpretation bdisk_total: bounded_total "DiskObjectStorage_vt env root"
    "\<lambda>h. way_free env (disk_base env root) \<and> disk_inv env root h" "disk_view env root" "accessible_key env root"
    "DiskObjectStorage_svt env root" "disk_uploads env root" disk_downloads
  for env root
  by unfold_locales

interpretation bdisk_null: bounded_null_safe "DiskObjectStorage_vt env root" "DiskObjectStorage_svt env root"
  for env root
  by unfold_locales

interpretation bdisk_capacity: bounded_store "DiskObjectStorage_vt env root" "disk_inv env root"
    "disk_view env root" good_key
  for env root
  by unfold_locales

end
