(* ===== verification/Storage_Guard.thy ===== *)
theory Storage_Guard
  imports Bounded_Streaming
begin

text \<open>
  What a storage keeps whatever its clients do: an invariant \<open>inv\<close> that holds in every state, a
  relation \<open>keeps\<close> between the states before and after, and a condition \<open>upload_ok\<close> on the write
  sessions that are open, which no operation of another client breaks. Unlike the contract of an
  object storage this is for any key. The protocol handlers, sessions and the server lift it to
  everything clients can do over the network.
\<close>

locale guarded_storage = null_safe vt svt
  for vt :: "'s object_vt" and svt :: "('s, 'w, 'r) streaming_vt" +
  fixes inv :: "'s \<Rightarrow> bool" and keeps :: "'s \<Rightarrow> 's \<Rightarrow> bool" and upload_ok :: "'w \<Rightarrow> 's \<Rightarrow> bool"
  assumes keeps_refl: "keeps s s"
    and keeps_trans: "keeps s t \<Longrightarrow> keeps t u \<Longrightarrow> keeps s u"
    and upload_kept: "inv s \<Longrightarrow> upload_ok w s \<Longrightarrow> keeps s t \<Longrightarrow> upload_ok w t"
    and put_guard: "inv s \<Longrightarrow> vt_put vt p b s = (q, t) \<Longrightarrow> inv t \<and> keeps s t"
    and del_guard: "inv s \<Longrightarrow> vt_del vt p s = (d, t) \<Longrightarrow> inv t \<and> keeps s t"
    and setnx_guard: "inv s \<Longrightarrow> vt_setnx vt p b s = (n, t) \<Longrightarrow> inv t \<and> keeps s t"
    and beginPut_guard: "inv s \<Longrightarrow> vt_beginPut svt p m s = (res, t) \<Longrightarrow>
      inv t \<and> keeps s t \<and> (\<forall>w. bp_session res = Some w \<longrightarrow> upload_ok w t)"
    and writeChunk_guard: "inv s \<Longrightarrow> upload_ok w s \<Longrightarrow> vt_writeChunk svt w c s = (ok, w', t) \<Longrightarrow>
      inv t \<and> keeps s t \<and> upload_ok w' t"
    and finish_guard: "inv s \<Longrightarrow> upload_ok w s \<Longrightarrow> vt_finish svt w s = (q, w', t) \<Longrightarrow> inv t \<and> keeps s t"
    and abort_guard: "inv s \<Longrightarrow> upload_ok w s \<Longrightarrow> vt_abort svt w s = (w', t) \<Longrightarrow> inv t \<and> keeps s t"

text \<open>
  What is shown of each function of a handler, called in the storage state \<open>s\<close>: no null session was
  used, and \<open>ok\<close> holds of the handler and the storage afterwards.
\<close>

definition safe_step ::
    "('s \<Rightarrow> bool) \<Rightarrow> ('s \<Rightarrow> 's \<Rightarrow> bool) \<Rightarrow> ('h \<Rightarrow> 's \<Rightarrow> bool) \<Rightarrow> 's \<Rightarrow> 'a outcome \<times> 'h \<times> 's \<Rightarrow> bool" where
  "safe_step iv keeps ok s x \<longleftrightarrow>
     fst x \<noteq> Crash \<and> iv (snd (snd x)) \<and> keeps s (snd (snd x)) \<and> ok (fst (snd x)) (snd (snd x))"

lemma safe_step_simps [simp]:
  "safe_step iv keeps ok s (Ret x, h, t) \<longleftrightarrow> iv t \<and> keeps s t \<and> ok h t"
  "safe_step iv keeps ok s (Throw, h, t) \<longleftrightarrow> iv t \<and> keeps s t \<and> ok h t"
  "\<not> safe_step iv keeps ok s (Crash, h, t)"
  by (simp_all add: safe_step_def)

lemma safe_stepI:
  "(r \<noteq> Crash \<Longrightarrow> iv t \<and> keeps s t \<and> ok h t) \<Longrightarrow> r \<noteq> Crash \<Longrightarrow> safe_step iv keeps ok s (r, h, t)"
  by (simp add: safe_step_def)

context guarded_storage
begin

abbreviation safe :: "('h \<Rightarrow> 's \<Rightarrow> bool) \<Rightarrow> 's \<Rightarrow> 'a outcome \<times> 'h \<times> 's \<Rightarrow> bool" where
  "safe \<equiv> safe_step inv keeps"

lemma safe_after: "keeps s t \<Longrightarrow> safe ok t x \<Longrightarrow> safe ok s x"
  using keeps_trans unfolding safe_step_def by blast

end

section \<open>The guard of a capacity limit\<close>

text \<open>
  Over a guarded storage a bounded one keeps its accounting, too: the total is the sum of the
  recorded sizes, and the limit does not change.
\<close>

definition bounded_guard_inv :: "('s \<Rightarrow> bool) \<Rightarrow> 's bounded_storage \<Rightarrow> bool" where
  "bounded_guard_inv iinv s \<longleftrightarrow> iinv (b_inner s) \<and> b_index_ok s"

definition bounded_guard_keeps :: "('s \<Rightarrow> 's \<Rightarrow> bool) \<Rightarrow> 's bounded_storage \<Rightarrow> 's bounded_storage \<Rightarrow> bool" where
  "bounded_guard_keeps ikeeps s t \<longleftrightarrow> ikeeps (b_inner s) (b_inner t) \<and> b_maxBytes t = b_maxBytes s"

definition bounded_guard_upload ::
    "('w \<Rightarrow> 's \<Rightarrow> bool) \<Rightarrow> 'w bounded_write \<Rightarrow> 's bounded_storage \<Rightarrow> bool" where
  "bounded_guard_upload iup w s \<longleftrightarrow> iup (bw_inner w) (b_inner s)"

lemmas bounded_guard_defs =
  bounded_guard_inv_def bounded_guard_keeps_def bounded_guard_upload_def

lemma b_maxBytes_aborted [simp]: "b_maxBytes (BoundedObjectStorage_onAborted p m s) = b_maxBytes s"
  by (simp add: BoundedObjectStorage_onAborted_def split: option.split)

lemma b_index_ok_changes:
  assumes "b_index_ok s"
  shows "b_index_ok (BoundedObjectStorage_upsert p n s)" "b_index_ok (BoundedObjectStorage_erase p s)"
    "b_index_ok (BoundedObjectStorage_onAborted p m s)"
  using assms bidx.upsert_inv bidx.erase_inv
  by (auto simp: BoundedObjectStorage_onAborted_def split: option.split)

locale bounded_guard = inner: guarded_storage ivt isvt iinv ikeeps iup
  for ivt :: "'s object_vt" and isvt :: "('s, 'w, 'r) streaming_vt" and iinv ikeeps iup

sublocale bounded_guard \<subseteq> safe: bounded_null_safe ivt isvt
  by unfold_locales

sublocale bounded_guard \<subseteq> outer: guarded_storage "BoundedObjectStorage_vt ivt" "BoundedObjectStorage_svt isvt"
    "bounded_guard_inv iinv" "bounded_guard_keeps ikeeps" "bounded_guard_upload iup"
proof (unfold_locales, goal_cases)
  case (1 s)
  then show ?case using inner.keeps_refl by (simp add: bounded_guard_defs)
next
  case (2 s t u)
  then show ?case using inner.keeps_trans [of "b_inner s" "b_inner t" "b_inner u"] by (simp add: bounded_guard_defs)
next
  case (3 s w t)
  then show ?case using inner.upload_kept [of "b_inner s" "bw_inner w" "b_inner t"] by (simp add: bounded_guard_defs)
next
  case (4 s p b q t)
  obtain x i where q: "vt_put ivt p b (b_inner s) = (x, i)" by fastforce
  from inner.put_guard [OF _ q] 4 inner.keeps_refl [of "b_inner s"] show ?case
    by (auto simp: bounded_guard_defs BoundedObjectStorage_put_def q Let_def
        split: if_splits intro!: b_index_ok_changes)
next
  case (5 s p d t)
  obtain x i where q: "vt_del ivt p (b_inner s) = (x, i)" by fastforce
  from inner.del_guard [OF _ q] 5 show ?case
    by (auto simp: bounded_guard_defs BoundedObjectStorage_del_def q Let_def
        split: if_splits intro!: b_index_ok_changes)
next
  case (6 s p b n t)
  obtain x i where q: "vt_setnx ivt p b (b_inner s) = (x, i)" by fastforce
  from inner.setnx_guard [OF _ q] 6 inner.keeps_refl [of "b_inner s"] show ?case
    by (auto simp: bounded_guard_defs BoundedObjectStorage_setnx_def q Let_def
        split: if_splits intro!: b_index_ok_changes)
next
  case (7 s p m res t)
  obtain x i where q: "vt_beginPut isvt p m (b_inner s) = (x, i)" by fastforce
  from inner.beginPut_guard [OF _ q] 7 inner.keeps_refl [of "b_inner s"] show ?case
    by (auto simp: bounded_guard_defs BoundedObjectStorage_beginPut_def q Let_def
        split: if_splits intro!: b_index_ok_changes)
next
  case (8 s w c ok w' t)
  obtain x v i where q: "vt_writeChunk isvt (bw_inner w) c (b_inner s) = (x, v, i)" by (rule prod_cases3)
  from inner.writeChunk_guard [OF _ _ q] 8 show ?case
    by (auto simp: bounded_guard_defs BoundedWriteSession_writeChunk_def q)
next
  case (9 s w q' w' t)
  obtain x v i where q: "vt_finish isvt (bw_inner w) (b_inner s) = (x, v, i)" by (rule prod_cases3)
  from inner.finish_guard [OF _ _ q] 9 inner.keeps_refl [of "b_inner s"] show ?case
    by (auto simp: bounded_guard_defs BoundedWriteSession_finish_def q Let_def
        split: if_splits intro!: b_index_ok_changes)
next
  case (10 s w w' t)
  obtain v i where q: "vt_abort isvt (bw_inner w) (b_inner s) = (v, i)" by fastforce
  from inner.abort_guard [OF _ _ q] 10 inner.keeps_refl [of "b_inner s"] show ?case
    by (auto simp: bounded_guard_defs BoundedWriteSession_abort_def q Let_def
        split: if_splits intro!: b_index_ok_changes)
qed

text \<open>
  Of the disk storage nothing is asked here but that its sessions are there when announced: any
  state of the host, the errors of a failing device included.
\<close>

interpretation disk_any: guarded_storage "DiskObjectStorage_vt env root" "DiskObjectStorage_svt env root"
    "\<lambda>_. True" "\<lambda>_ _. True" "\<lambda>_ _. True"
  for env root
  by unfold_locales auto

interpretation bdisk_any: bounded_guard "DiskObjectStorage_vt env root" "DiskObjectStorage_svt env root"
    "\<lambda>_. True" "\<lambda>_ _. True" "\<lambda>_ _. True"
  for env root
  by unfold_locales

text \<open>
  For a root without dots and nothing refused below it, the disk storage keeps its invariant and
  everything outside of the root.
\<close>

definition root_guard :: "os_env \<Rightarrow> fs_path \<Rightarrow> host \<Rightarrow> bool" where
  "root_guard env root h \<longleftrightarrow>
     root_ok root \<and> (\<forall>p. prefix (disk_base env root) p \<longrightarrow> \<not> env_refuses env p) \<and> fs_inv env root h"

lemma root_guard_confined:
  "root_guard env root h \<Longrightarrow> confined env root h h' \<Longrightarrow>
    root_guard env root h' \<and> host_kept (disk_base env root) h h'"
  by (simp add: root_guard_def confined_def)

lemma root_guardD:
  assumes "root_guard env root h"
  shows "root_ok root" "fs_inv env root h" "\<And>p. prefix (disk_base env root) p \<Longrightarrow> \<not> env_refuses env p"
  using assms by (auto simp: root_guard_def)

interpretation disk_root: guarded_storage "DiskObjectStorage_vt env root" "DiskObjectStorage_svt env root"
    "root_guard env root" "host_kept (disk_base env root)" "upload_inside env root"
  for env root
proof (unfold_locales, goal_cases)
  case (4 s p b q t)
  then show ?case
    using DiskObjectStorage_store_confined(1) [OF root_guardD(1,2) [OF 4(1)]] root_guard_confined [OF 4(1)]
    by (simp add: DiskObjectStorage_vt_def)
next
  case (5 s p d t)
  then show ?case
    using DiskObjectStorage_del_confined [OF root_guardD(1,2) [OF 5(1)]] root_guard_confined [OF 5(1)]
    by (simp add: DiskObjectStorage_vt_def)
next
  case (6 s p b n t)
  then show ?case
    using DiskObjectStorage_store_confined(2) [OF root_guardD(1,2) [OF 6(1)]] root_guard_confined [OF 6(1)]
    by (simp add: DiskObjectStorage_vt_def)
next
  case (7 s p m res t)
  then have op: "DiskObjectStorage_beginPut env root p m s = (res, t)" by (simp add: DiskObjectStorage_svt_def)
  show ?case
    using DiskObjectStorage_beginPut_confined [OF root_guardD(1,2) [OF 7(1)] op] root_guard_confined [OF 7(1)]
    by simp
next
  case (8 s w c ok w' t)
  then have op: "DiskWriteSession_writeChunk env w c s = (ok, w', t)" by (simp add: DiskObjectStorage_svt_def)
  show ?case
    using DiskWriteSession_writeChunk_confined [OF root_guardD(2) [OF 8(1)] 8(2) op] root_guard_confined [OF 8(1)]
    by simp
next
  case (9 s w q w' t)
  then have op: "DiskWriteSession_finish env w s = (q, w', t)" by (simp add: DiskObjectStorage_svt_def)
  show ?case
    using DiskWriteSession_end_confined(2) [OF root_guardD(1,2) [OF 9(1)] 9(2) root_guardD(3) [OF 9(1)] op]
      root_guard_confined [OF 9(1)] by simp
next
  case (10 s w w' t)
  then have op: "DiskWriteSession_abort env w s = (w', t)" by (simp add: DiskObjectStorage_svt_def)
  show ?case
    using DiskWriteSession_end_confined(1) [OF root_guardD(1,2) [OF 10(1)] 10(2) op]
      root_guard_confined [OF 10(1)] by simp
qed (use host_kept_trans upload_inside_kept in auto)

interpretation bdisk_root: bounded_guard "DiskObjectStorage_vt env root" "DiskObjectStorage_svt env root"
    "root_guard env root" "host_kept (disk_base env root)" "upload_inside env root"
  for env root
  by unfold_locales

end
