(* ===== verification/Resp_Safety.thy ===== *)
theory Resp_Safety
  imports Resp_Handler Storage_Guard
begin

text \<open>
  The RESP handler never uses a session that is not there, and over a guarded storage it keeps what
  the storage guards: the invariant, the relation between the states, and the condition on the
  upload it has open.
\<close>

definition resp_ok :: "('w \<Rightarrow> 's \<Rightarrow> bool) \<Rightarrow> ('w, 'r) resp_handler \<Rightarrow> 's \<Rightarrow> bool" where
  "resp_ok up h s \<longleftrightarrow>
     (rh_state h = StreamingValue \<longrightarrow> (\<exists>w. rh_activeSession h = Some w \<and> up w s)) \<and>
     (rh_streamingRead h \<longrightarrow> rh_activeReadSession h \<noteq> None)"

lemma resp_ok_parsing:
  "rh_state h \<noteq> StreamingValue \<Longrightarrow>
    resp_ok up h s \<longleftrightarrow> (rh_streamingRead h \<longrightarrow> rh_activeReadSession h \<noteq> None)"
  by (simp add: resp_ok_def)

lemma resp_ok_update [simp]:
  "resp_ok up (resp_queueResponse r h) s = resp_ok up h s"
  "resp_ok up (h\<lparr>rh_incomingBuffer := b\<rparr>) s = resp_ok up h s"
  "resp_ok up (h\<lparr>rh_outgoingBuffer := b\<rparr>) s = resp_ok up h s"
  by (simp_all add: resp_ok_def)

context guarded_storage
begin

lemma resp_ok_kept: "inv s \<Longrightarrow> keeps s t \<Longrightarrow> resp_ok upload_ok h s \<Longrightarrow> resp_ok upload_ok h t"
  using upload_kept unfolding resp_ok_def by blast

lemma resp_handleCommand_safe:
  assumes inv: "inv s" and ok: "resp_ok upload_ok h s"
  shows "safe (resp_ok upload_ok) s (resp_handleCommand vt (Some svt) c args h s)"
proof (cases "resp_commands (utils_toUpper c)")
  case None
  then show ?thesis using assms keeps_refl by (simp add: resp_handleCommand_def)
next
  case (Some f)
  note kept = resp_ok_kept [OF inv _ ok]
  show ?thesis
  proof (cases f)
    case FnPing
    then show ?thesis using assms keeps_refl by (simp add: resp_handleCommand_def Some)
  next
    case FnGet
    then show ?thesis
      using assms keeps_refl beginGet_session [of "args ! 0" s]
      by (auto simp: resp_handleCommand_def Some resp_handleGet_def Let_def resp_ok_def)
  next
    case FnSet
    obtain r t where r: "vt_put vt (args ! 0) (args ! 1) s = (r, t)" by fastforce
    from put_guard [OF inv r] kept [of t] assms keeps_refl FnSet show ?thesis
      by (simp add: resp_handleCommand_def Some resp_handleSet_def r del: One_nat_def)
  next
    case FnDel
    obtain r t where r: "vt_del vt (args ! 0) s = (r, t)" by fastforce
    from del_guard [OF inv r] kept [of t] assms keeps_refl FnDel show ?thesis
      by (simp add: resp_handleCommand_def Some resp_handleDel_def r)
  next
    case FnKeys
    then show ?thesis
      using assms keeps_refl keys_defined [of s]
      by (cases "vt_keys vt s") (simp_all add: resp_handleCommand_def Some resp_handleKeys_def)
  next
    case FnSetNx
    obtain r t where r: "vt_setnx vt (args ! 0) (args ! 1) s = (r, t)" by fastforce
    from setnx_guard [OF inv r] kept [of t] assms keeps_refl FnSetNx
      setnx_defined [of "args ! 0" "args ! 1" s] show ?thesis
      by (cases r) (simp_all add: resp_handleCommand_def Some resp_handleSetNx_def r del: One_nat_def)
  qed
qed

lemma resp_processCommands_safe:
  assumes "inv s" "resp_ok upload_ok h s"
  shows "safe (resp_ok upload_ok) s (resp_processCommands vt (Some svt) cs h s)"
proof (cases cs)
  case Nil
  with assms keeps_refl show ?thesis by (simp add: resp_processCommands_def)
next
  case (Cons c args)
  obtain r h' t where r: "resp_handleCommand vt (Some svt) c args h s = (r, h', t)" by (rule prod_cases3)
  from resp_handleCommand_safe [OF assms, of c args] show ?thesis
    by (cases r) (simp_all add: Cons resp_processCommands_def r)
qed

lemma resp_runBuffer_safe:
  assumes "inv s" "resp_ok upload_ok h s"
  shows "safe (resp_ok upload_ok) s (resp_runBuffer vt (Some svt) h s)"
proof -
  obtain q cs n where p: "RespParser_parse (rh_incomingBuffer h) = (q, cs, n)" by (rule prod_cases3)
  obtain r h' t where r: "resp_processCommands vt (Some svt) cs h s = (r, h', t)" by (rule prod_cases3)
  from resp_processCommands_safe [OF assms, of cs] assms keeps_refl show ?thesis
    by (cases q; cases r) (simp_all add: resp_runBuffer_def p r)
qed

text \<open>
  The streaming functions, for a recursive call that is safe in the parsing state; \<open>data\<close> and \<open>b\<close>
  bound what the call gets.
\<close>

definition resp_rec_safe ::
    "(bytes \<Rightarrow> ('w, 'x) resp_handler \<Rightarrow> 's \<Rightarrow> bool outcome \<times> ('w, 'x) resp_handler \<times> 's) \<Rightarrow> nat \<Rightarrow> bytes \<Rightarrow> bool" where
  "resp_rec_safe f n b \<longleftrightarrow>
     (\<forall>d k t. length d \<le> n \<longrightarrow> rh_incomingBuffer k = b \<longrightarrow> rh_state k = ParsingCommands \<longrightarrow> inv t \<longrightarrow>
        resp_ok upload_ok k t \<longrightarrow> safe (resp_ok upload_ok) t (f d k t))"

lemma resp_rec_safeD:
  "resp_rec_safe f n b \<Longrightarrow> length d \<le> n \<Longrightarrow> rh_incomingBuffer k = b \<Longrightarrow> rh_state k = ParsingCommands \<Longrightarrow>
    inv t \<Longrightarrow> resp_ok upload_ok k t \<Longrightarrow> safe (resp_ok upload_ok) t (f d k t)"
  by (simp add: resp_rec_safe_def)

lemma resp_rec_safe_less: "resp_rec_safe f n b \<Longrightarrow> m \<le> n \<Longrightarrow> resp_rec_safe f m b"
  by (simp add: resp_rec_safe_def)

lemma resp_endStreamingValue_safe:
  assumes rec: "resp_rec_safe f (length data) (rh_incomingBuffer h)"
    and inv: "inv s" and ok: "resp_ok upload_ok h s" and w: "rh_activeSession h = Some w" "upload_ok w s"
  shows "safe (resp_ok upload_ok) s (resp_endStreamingValue (Some svt) f data h s)"
proof -
  obtain k data' where skip: "resp_skipTrailing (rh_trailingCrlfRemaining h) data = (k, data')" by fastforce
  have len: "length data' \<le> length data" by (rule resp_skipTrailing_length [OF skip])
  obtain q w' t where fin: "vt_finish svt w s = (q, w', t)" by (rule prod_cases3)
  have t: "inv t" "keeps s t" using finish_guard [OF inv w(2) fin] by auto
  have read: "rh_streamingRead h \<longrightarrow> rh_activeReadSession h \<noteq> None" using ok by (simp add: resp_ok_def)
  note rec' = safe_after [OF t(2) resp_rec_safeD [OF rec len _ _ t(1)]]
  have "resp_ok upload_ok (h\<lparr>rh_trailingCrlfRemaining := n\<rparr>) s" for n
    using ok by (simp add: resp_ok_def)
  then show ?thesis
    using inv ok t read keeps_refl
    by (auto simp: resp_endStreamingValue_def skip resp_finishStreamingValue_def w fin Let_def resp_ok_parsing
        intro!: rec')
qed

lemma resp_continueStreamingValue_safe:
  assumes rec: "resp_rec_safe f (length data) (rh_incomingBuffer h)"
    and inv: "inv s" and ok: "resp_ok upload_ok h s" and w: "rh_activeSession h = Some w" "upload_ok w s"
  shows "safe (resp_ok upload_ok) s (resp_continueStreamingValue (Some svt) f data h s)"
proof -
  let ?n = "min (length data) (rh_valueBytesRemaining h)"
  obtain q w' t where wr: "vt_writeChunk svt w (take ?n data) s = (q, w', t)" by (rule prod_cases3)
  have t: "inv t" "keeps s t" "upload_ok w' t" using writeChunk_guard [OF inv w(2) wr] by auto
  obtain w'' u where ab: "vt_abort svt w' t = (w'', u)" by fastforce
  have u: "inv u" "keeps s u" using abort_guard [OF t(1,3) ab] keeps_trans [OF t(2)] by auto
  have read: "rh_streamingRead h \<longrightarrow> rh_activeReadSession h \<noteq> None" using ok by (simp add: resp_ok_def)
  let ?h = "h\<lparr>rh_activeSession := Some w', rh_valueBytesRemaining := rh_valueBytesRemaining h - ?n\<rparr>"
  have "safe (resp_ok upload_ok) t (resp_endStreamingValue (Some svt) f (drop ?n data) ?h t)"
    using read t resp_rec_safe_less [OF rec]
    by (intro resp_endStreamingValue_safe) (auto simp: resp_ok_def)
  from safe_after [OF t(2) this] resp_endStreamingValue_safe [OF rec inv ok w] u read
  show ?thesis
    by (auto simp: resp_continueStreamingValue_def w wr ab Let_def resp_ok_parsing)
qed

lemma resp_continueDiscardingValue_safe:
  assumes rec: "resp_rec_safe f (length data) (rh_incomingBuffer h)"
    and inv: "inv s" and ok: "resp_ok upload_ok h s" and "rh_state h \<noteq> StreamingValue"
  shows "safe (resp_ok upload_ok) s (resp_continueDiscardingValue f data h s)"
  using assms(2-) keeps_refl
  by (auto simp: resp_continueDiscardingValue_def Let_def resp_ok_parsing intro!: resp_rec_safeD [OF rec])

lemma resp_begin_safe:
  assumes rec: "resp_rec_safe f (length (sh_leftover hdr)) []"
    and inv: "inv s" and read: "rh_streamingRead h \<longrightarrow> rh_activeReadSession h \<noteq> None"
    and reject: "\<And>r t. inv t \<Longrightarrow> safe (resp_ok upload_ok) t (resp_rejectValue f r hdr h t)"
  shows "safe (resp_ok upload_ok) s (resp_beginStreamingSetValue svt f hdr h s)"
proof -
  obtain res t where b: "vt_beginPut svt (sh_key hdr) (of_nat (sh_expectedSize hdr)) s = (res, t)"
    by fastforce
  have t: "inv t" "keeps s t" "\<And>w. bp_session res = Some w \<Longrightarrow> upload_ok w t"
    using beginPut_guard [OF inv b] by auto
  show ?thesis
  proof (cases "bp_status res = PutOk")
    case False
    then show ?thesis
      using safe_after [OF t(2) reject [OF t(1)]] by (simp add: resp_beginStreamingSetValue_def b)
  next
    case True
    with beginPut_session [of "sh_key hdr" "of_nat (sh_expectedSize hdr)" s] b
    obtain w where w: "bp_session res = Some w" by auto
    note w_ok = t(3) [OF w]
    let ?h = "h\<lparr>rh_activeSession := bp_session res, rh_valueBytesRemaining := sh_expectedSize hdr,
      rh_trailingCrlfRemaining := 2, rh_isSetNx := sh_isSetNx hdr, rh_pendingKey := sh_key hdr,
      rh_state := StreamingValue, rh_incomingBuffer := []\<rparr>"
    have h: "resp_ok upload_ok ?h t" using read w w_ok by (simp add: resp_ok_def)
    have "safe (resp_ok upload_ok) t (resp_continueStreamingValue (Some svt) f (sh_leftover hdr) ?h t)"
      using rec w w_ok by (intro resp_continueStreamingValue_safe [OF _ t(1) h]) auto
    from safe_after [OF t(2) this] h t(1,2) True show ?thesis
      by (simp add: resp_beginStreamingSetValue_def b Let_def)
  qed
qed

lemma resp_tryBegin_safe:
  assumes rec: "\<And>n. n < length (rh_incomingBuffer h) \<Longrightarrow> resp_rec_safe f n []"
    and inv: "inv s" and ok: "resp_ok upload_ok h s" and state: "rh_state h = ParsingCommands"
  shows "safe (resp_ok upload_ok) s (resp_tryBeginStreamingSetValue vt svt f h s)"
proof (cases "resp_setHeader (rh_incomingBuffer h)")
  case None
  then show ?thesis using assms keeps_refl by (simp add: resp_tryBeginStreamingSetValue_def)
next
  case (Some hdr)
  note rec' = rec [OF resp_setHeader_leftover [OF Some]]
  have read: "rh_streamingRead h \<longrightarrow> rh_activeReadSession h \<noteq> None" using ok by (simp add: resp_ok_def)
  have reject: "safe (resp_ok upload_ok) t (resp_rejectValue f r hdr h t)" if "inv t" for r t
    using that read rec' keeps_refl
    by (auto simp: resp_rejectValue_def Let_def resp_ok_parsing
        intro!: resp_continueDiscardingValue_safe)
  show ?thesis
    using exists_defined [of "sh_key hdr" s] reject [OF inv] resp_begin_safe [OF rec' inv read reject] inv ok keeps_refl
    by (auto simp: resp_tryBeginStreamingSetValue_def Some split: outcome.split bool.split)
qed

lemma resp_onBytesReceived_safe:
  "inv s \<Longrightarrow> resp_ok upload_ok h s \<Longrightarrow>
    safe (resp_ok upload_ok) s (resp_onBytesReceived vt (Some svt) data h s)"
proof (induction "resp_measure data h" arbitrary: data h s rule: less_induct)
  case less
  let ?f = "\<lambda>data h s. resp_onBytesReceived vt (Some svt) data h s"
  have rec: "resp_rec_safe ?f n b"
    if "2 * (length b + n) < resp_measure data h" for n b
    using that less.hyps by (auto simp: resp_rec_safe_def resp_measure_def)
  show ?case
  proof (cases "rh_state h")
    case StreamingValue
    then obtain w where "rh_activeSession h = Some w" "upload_ok w s"
      using less.prems(2) by (auto simp: resp_ok_def)
    then have "safe (resp_ok upload_ok) s (resp_continueStreamingValue (Some svt) ?f data h s)"
      using StreamingValue less.prems
      by (intro resp_continueStreamingValue_safe rec) (auto simp: resp_measure_def)
    with StreamingValue show ?thesis by (subst resp_onBytesReceived.simps) (simp add: resp_receive_def)
  next
    case DiscardingRejectedValue
    then have "safe (resp_ok upload_ok) s (resp_continueDiscardingValue ?f data h s)"
      using less.prems by (intro resp_continueDiscardingValue_safe rec) (auto simp: resp_measure_def)
    with DiscardingRejectedValue show ?thesis
      by (subst resp_onBytesReceived.simps) (simp add: resp_receive_def)
  next
    case ParsingCommands
    let ?h = "h\<lparr>rh_incomingBuffer := rh_incomingBuffer h @ data\<rparr>"
    obtain r h' t where r: "resp_tryBeginStreamingSetValue vt svt ?f ?h s = (r, h', t)"
      by (rule prod_cases3)
    have "safe (resp_ok upload_ok) s (r, h', t)"
      unfolding r [symmetric] using ParsingCommands less.prems
      by (intro resp_tryBegin_safe rec) (auto simp: resp_measure_def)
    then have "safe (resp_ok upload_ok) s
        (case r of Ret False \<Rightarrow> resp_runBuffer vt (Some svt) h' t | _ \<Rightarrow> (r, h', t))"
      using resp_runBuffer_safe [of t h']
        safe_after [of s t "resp_ok upload_ok" "resp_runBuffer vt (Some svt) h' t"]
      by (cases r) (auto split: bool.split)
    with ParsingCommands show ?thesis
      by (subst resp_onBytesReceived.simps) (cases r; simp add: resp_receive_def r split: bool.splits)
  qed
qed

lemma resp_takeOutgoingBytes_safe:
  assumes "resp_ok upload_ok h s"
  shows "fst (resp_takeOutgoingBytes (Some svt) h s) \<noteq> Crash \<and>
    resp_ok upload_ok (snd (resp_takeOutgoingBytes (Some svt) h s)) s"
  using assms
  by (auto simp: resp_takeOutgoingBytes_def resp_pumpReadSession_def resp_ok_def
      split: option.splits prod.splits if_splits)

end

lemma resp_ok_new [simp]: "resp_ok up RespProtocolHandler_new s"
  by (simp add: resp_ok_def RespProtocolHandler_new_def)

end
