(* ===== verification/Http_Safety.thy ===== *)
theory Http_Safety
  imports Http_Handler Storage_Guard
begin

text \<open>
  The HTTP handler never uses a session that is not there, and over a guarded storage it keeps what
  the storage guards, as the RESP handler does.
\<close>

definition http_ok :: "('w \<Rightarrow> 's \<Rightarrow> bool) \<Rightarrow> ('w, 'r) http_handler \<Rightarrow> 's \<Rightarrow> bool" where
  "http_ok up h s \<longleftrightarrow>
     (hh_state h = StreamingBody \<longrightarrow> (\<exists>w. hh_activeSession h = Some w \<and> up w s)) \<and>
     (hh_streamingRead h \<longrightarrow> hh_activeReadSession h \<noteq> None)"

lemma http_ok_parsing:
  "hh_state h \<noteq> StreamingBody \<Longrightarrow>
    http_ok up h s \<longleftrightarrow> (hh_streamingRead h \<longrightarrow> hh_activeReadSession h \<noteq> None)"
  by (simp add: http_ok_def)

lemma http_ok_update [simp]:
  "http_ok up (http_queueResponse r h) s = http_ok up h s"
  "http_ok up (h\<lparr>hh_incomingBuffer := b\<rparr>) s = http_ok up h s"
  "http_ok up (h\<lparr>hh_outgoingBuffer := b\<rparr>) s = http_ok up h s"
  by (simp_all add: http_ok_def)

lemma http_ok_new [simp]: "http_ok up HttpProtocolHandler_new s"
  by (simp add: http_ok_def HttpProtocolHandler_new_def)

context guarded_storage
begin

lemma http_ok_kept: "inv s \<Longrightarrow> keeps s t \<Longrightarrow> http_ok upload_ok h s \<Longrightarrow> http_ok upload_ok h t"
  using upload_kept unfolding http_ok_def by blast

lemma http_handleGetPath_ok:
  assumes "http_ok upload_ok h s"
  shows "http_ok upload_ok (snd (http_handleGetPath vt (Some svt) path h s)) s"
  using assms beginGet_session [of "http_key path" s]
  by (auto simp: http_handleGetPath_def Let_def http_ok_def)

lemma http_handleRequest_safe:
  assumes inv: "inv s" and ok: "http_ok upload_ok h s"
  shows "safe (http_ok upload_ok) s (http_handleRequest vt (Some svt) req h s)"
proof -
  note kept = http_ok_kept [OF inv _ ok]
  have root: "http_handleGetRoot vt s \<noteq> Crash"
    using keys_defined [of s] by (simp add: http_handleGetRoot_def split: outcome.split)
  obtain q t where put: "vt_put vt (http_key (hr_path req)) (hr_body req) s = (q, t)" by fastforce
  obtain d u where del: "vt_del vt (http_key (hr_path req)) s = (d, u)" by fastforce
  have "safe (http_ok upload_ok) s
      (let (r, s') = http_handlePutPath vt (hr_path req) (hr_body req) s in (Ret r, h, s'))"
    using put_guard [OF inv put] kept [of t] by (simp add: http_handlePutPath_def put)
  moreover have "safe (http_ok upload_ok) s
      (let (r, s') = http_handleDeletePath vt (hr_path req) s in (r, h, s'))"
    using del_guard [OF inv del] kept [of u] inv ok keeps_refl
      exists_defined [of "http_key (hr_path req)" s]
    by (cases "vt_exists vt (http_key (hr_path req)) s")
      (auto simp: http_handleDeletePath_def Let_def del split: bool.split)
  moreover have "safe (http_ok upload_ok) s (http_handleGetRoot vt s, h, s)"
    using inv ok keeps_refl root by (intro safe_stepI) auto
  moreover have "safe (http_ok upload_ok) s
      (let (r, h') = http_handleGetPath vt (Some svt) (hr_path req) h s in (Ret r, h', s))"
    using inv keeps_refl http_handleGetPath_ok [OF ok, of "hr_path req"] by (simp add: case_prod_unfold Let_def)
  moreover have "safe (http_ok upload_ok) s (Ret r, h, s)" for r :: bytes
    using inv ok keeps_refl by simp
  ultimately show ?thesis unfolding http_handleRequest_def by (simp split del: if_split split: if_split)
qed

lemma http_processRequest_safe:
  assumes "inv s" "http_ok upload_ok h s"
  shows "safe (http_ok upload_ok) s (http_processRequest vt (Some svt) req h s)"
proof -
  obtain r h' t where r: "http_handleRequest vt (Some svt) req h s = (r, h', t)" by (rule prod_cases3)
  from http_handleRequest_safe [OF assms, of req] show ?thesis
    by (cases r) (simp_all add: http_processRequest_def r)
qed

lemma http_runBuffer_safe:
  assumes "inv s" "http_ok upload_ok h s"
  shows "safe (http_ok upload_ok) s (http_runBuffer vt (Some svt) h s)"
proof -
  obtain q req n where p: "HttpParser_parse (hh_incomingBuffer h) http_request_init = (q, req, n)"
    by (rule prod_cases3)
  obtain r h' t where r: "http_processRequest vt (Some svt) req h s = (r, h', t)" by (rule prod_cases3)
  from http_processRequest_safe [OF assms, of req] assms keeps_refl show ?thesis
    by (cases q; cases r) (simp_all add: http_runBuffer_def p r)
qed

definition http_rec_safe ::
    "(bytes \<Rightarrow> ('w, 'x) http_handler \<Rightarrow> 's \<Rightarrow> bool outcome \<times> ('w, 'x) http_handler \<times> 's) \<Rightarrow> nat \<Rightarrow> bytes \<Rightarrow> bool" where
  "http_rec_safe f n b \<longleftrightarrow>
     (\<forall>d k t. length d \<le> n \<longrightarrow> hh_incomingBuffer k = b \<longrightarrow> hh_state k = ParsingHeaders \<longrightarrow> inv t \<longrightarrow>
        http_ok upload_ok k t \<longrightarrow> safe (http_ok upload_ok) t (f d k t))"

lemma http_continueStreamingBody_safe:
  assumes rec: "http_rec_safe f (length data) (hh_incomingBuffer h)"
    and inv: "inv s" and ok: "http_ok upload_ok h s" and w: "hh_activeSession h = Some w" "upload_ok w s"
  shows "safe (http_ok upload_ok) s (http_continueStreamingBody (Some svt) f data h s)"
proof -
  let ?n = "min (length data) (hh_bodyBytesRemaining h)"
  obtain q w' t where wr: "vt_writeChunk svt w (take ?n data) s = (q, w', t)" by (rule prod_cases3)
  have t: "inv t" "keeps s t" "upload_ok w' t" using writeChunk_guard [OF inv w(2) wr] by auto
  obtain w2 u where ab: "vt_abort svt w' t = (w2, u)" by fastforce
  have u: "inv u" "keeps s u" using abort_guard [OF t(1,3) ab] keeps_trans [OF t(2)] by auto
  obtain p w3 v where fin: "vt_finish svt w' t = (p, w3, v)" by (rule prod_cases3)
  have v: "inv v" "keeps s v" using finish_guard [OF t(1,3) fin] keeps_trans [OF t(2)] by auto
  have read: "hh_streamingRead h \<longrightarrow> hh_activeReadSession h \<noteq> None" using ok by (simp add: http_ok_def)
  let ?h = "h\<lparr>hh_activeSession := Some w', hh_bodyBytesRemaining := hh_bodyBytesRemaining h - ?n\<rparr>"
  obtain k where finish: "http_finishStreamingBody (Some svt) ?h t = (Ret (), k, v)"
    and k: "hh_incomingBuffer k = hh_incomingBuffer h" "hh_streamingRead k = hh_streamingRead h"
      "hh_activeReadSession k = hh_activeReadSession h"
    by (cases p) (auto simp: http_finishStreamingBody_def fin)
  let ?k = "k\<lparr>hh_state := ParsingHeaders\<rparr>"
  have k_ok: "http_ok upload_ok ?k v" using k read by (simp add: http_ok_def)
  then have "safe (http_ok upload_ok) v (f d ?k v)" if "length d \<le> length data" for d
    using rec that k(1) v(1) by (simp add: http_rec_safe_def)
  note rec' = safe_after [OF v(2) this]
  have h_ok: "http_ok upload_ok ?h t" using read t(3) by (simp add: http_ok_def)
  show ?thesis
    using finish h_ok k_ok rec' t u v read
    by (auto simp: http_continueStreamingBody_def w wr ab Let_def http_ok_parsing)
qed

lemma http_beginStreamingBody_safe:
  assumes rec: "http_rec_safe f (length left) (hh_incomingBuffer h)"
    and inv: "inv s" and ok: "http_ok upload_ok h s"
  shows "safe (http_ok upload_ok) s (http_beginStreamingBody svt f req left h s)"
proof -
  have read: "hh_streamingRead h \<longrightarrow> hh_activeReadSession h \<noteq> None" using ok by (simp add: http_ok_def)
  have start: "safe (http_ok upload_ok) s
      (case vt_beginPut svt (http_key (hr_path req)) n s of
         (res, t) \<Rightarrow>
           (case bp_status res of
              PutCapacityExceeded \<Rightarrow> (Ret False, http_queueResponse r1 h, t)
            | PutInvalidPath \<Rightarrow> (Ret False, http_queueResponse r2 h, t)
            | PutFailedToWrite \<Rightarrow> (Ret False, http_queueResponse r3 h, t)
            | PutOk \<Rightarrow>
                let h' = h\<lparr>hh_activeSession := bp_session res, hh_bodyBytesRemaining := unat n,
                           hh_pendingPutKey := http_key (hr_path req), hh_state := StreamingBody\<rparr>
                in if left \<noteq> [] then http_continueStreamingBody (Some svt) f left h' t
                   else (Ret True, h', t)))" for n r1 r2 r3
  proof -
    obtain res t where b: "vt_beginPut svt (http_key (hr_path req)) n s = (res, t)" by fastforce
    have t: "inv t" "keeps s t" "\<And>w. bp_session res = Some w \<Longrightarrow> upload_ok w t"
      using beginPut_guard [OF inv b] by auto
    show ?thesis
    proof (cases "bp_status res = PutOk")
      case False
      with t http_ok_kept [OF inv t(2) ok] show ?thesis by (cases "bp_status res") (simp_all add: b)
    next
      case True
      with beginPut_session [of "http_key (hr_path req)" n s] b
      obtain w where w: "bp_session res = Some w" by auto
      note w_ok = t(3) [OF w]
      let ?h = "h\<lparr>hh_activeSession := bp_session res, hh_bodyBytesRemaining := unat n,
        hh_pendingPutKey := http_key (hr_path req), hh_state := StreamingBody\<rparr>"
      have h: "http_ok upload_ok ?h t" using read w w_ok by (simp add: http_ok_def)
      have "safe (http_ok upload_ok) t (http_continueStreamingBody (Some svt) f left ?h t)"
        using rec w w_ok by (intro http_continueStreamingBody_safe [OF _ t(1) h]) auto
      from safe_after [OF t(2) this] h t(1,2) True show ?thesis by (simp add: b Let_def)
    qed
  qed
  show ?thesis
    using start inv ok keeps_refl
    by (auto simp: http_beginStreamingBody_def Let_def split: option.split)
qed

lemma http_onBytesReceived_safe:
  "inv s \<Longrightarrow> http_ok upload_ok h s \<Longrightarrow>
    safe (http_ok upload_ok) s (http_onBytesReceived vt (Some svt) data h s)"
proof (induction "http_measure data h" arbitrary: data h s rule: less_induct)
  case less
  let ?f = "\<lambda>data h s. http_onBytesReceived vt (Some svt) data h s"
  have rec: "http_rec_safe ?f n b" if "2 * (length b + n) < http_measure data h" for n b
    using that less.hyps by (auto simp: http_rec_safe_def http_measure_def)
  show ?case
  proof (cases "hh_state h")
    case StreamingBody
    then obtain w where "hh_activeSession h = Some w" "upload_ok w s"
      using less.prems(2) by (auto simp: http_ok_def)
    then have "safe (http_ok upload_ok) s (http_continueStreamingBody (Some svt) ?f data h s)"
      using StreamingBody less.prems
      by (intro http_continueStreamingBody_safe rec) (auto simp: http_measure_def)
    with StreamingBody show ?thesis by (subst http_onBytesReceived.simps) (simp add: http_receive_def)
  next
    case ParsingHeaders
    let ?h = "h\<lparr>hh_incomingBuffer := hh_incomingBuffer h @ data\<rparr>"
    let ?b = "hh_incomingBuffer h @ data"
    have run: "safe (http_ok upload_ok) s (http_runBuffer vt (Some svt) ?h s)"
      using less.prems by (intro http_runBuffer_safe) auto
    have "safe (http_ok upload_ok) s
        (http_beginStreamingBody svt ?f req (drop n ?b) (?h\<lparr>hh_incomingBuffer := []\<rparr>) s)"
      if "http_wantsStreaming (Some svt) ?b = Some (req, n)" for req n
      using http_wantsStreaming_consumed [OF that] less.prems ParsingHeaders
      by (intro http_beginStreamingBody_safe rec) (auto simp: http_measure_def http_ok_def)
    with run ParsingHeaders show ?thesis
      by (subst http_onBytesReceived.simps) (auto simp: http_receive_def Let_def split: option.split)
  qed
qed

lemma http_takeOutgoingBytes_safe:
  assumes "http_ok upload_ok h s"
  shows "fst (http_takeOutgoingBytes (Some svt) h s) \<noteq> Crash \<and>
    http_ok upload_ok (snd (http_takeOutgoingBytes (Some svt) h s)) s"
  using assms
  by (auto simp: http_takeOutgoingBytes_def http_pumpReadSession_def http_ok_def
      split: option.splits prod.splits if_splits)

end

end
