(* ===== verification/Net_Safety.thy ===== *)
theory Net_Safety
  imports Net_Session Resp_Safety Http_Safety
begin

text \<open>
  From the handlers to the server: what every call of a handler keeps, every run of the server
  keeps, with any number of connections whose reads, writes and timers complete in any order.
\<close>

section \<open>A handler that keeps what the storage guards\<close>

locale guarded_handler =
  fixes hv :: "('h, 's) handler_vt" and handler :: 'h
    and iv :: "'s \<Rightarrow> bool" and keeps :: "'s \<Rightarrow> 's \<Rightarrow> bool" and ok :: "'h \<Rightarrow> 's \<Rightarrow> bool"
  assumes hkeeps_refl: "keeps s s"
    and hkeeps_trans: "keeps s t \<Longrightarrow> keeps t u \<Longrightarrow> keeps s u"
    and ok_new: "ok handler s"
    and ok_kept: "iv s \<Longrightarrow> keeps s t \<Longrightarrow> ok h s \<Longrightarrow> ok h t"
    and receive_safe: "iv s \<Longrightarrow> ok h s \<Longrightarrow> safe_step iv keeps ok s (hv_onBytesReceived hv d h s)"
    and take_safe: "ok h s \<Longrightarrow> fst (hv_takeOutgoingBytes hv h s) \<noteq> Crash \<and>
      ok (snd (hv_takeOutgoingBytes hv h s)) s"
begin

definition result_ok :: "'s \<Rightarrow> 'h session outcome \<Rightarrow> bool" where
  "result_ok s r \<longleftrightarrow> (\<exists>x. r = Ret x \<and> ok (ss_handler x) s)"

lemma doWrite_ok:
  assumes "ok (ss_handler x) s"
  shows "result_ok s (Session_doWrite hv keep x s)"
proof -
  obtain r h where r: "hv_takeOutgoingBytes hv (ss_handler x) s = (r, h)" by fastforce
  with take_safe [OF assms] show ?thesis
    by (cases r)
      (auto simp: Session_doWrite_def result_ok_def Session_closeSocket_def cancel_timer_def
        start_op_def Session_readOrDrain_def Session_doRead_def Session_drainAndClose_def Let_def)
qed

lemma session_step_ok:
  assumes "session_step hv x s r t" "iv s" "ok (ss_handler x) s"
  shows "iv t \<and> keeps s t \<and> result_ok t r"
  using assms
proof (induction rule: session_step.induct)
  case (read x data s r s')
  obtain k h t where c: "hv_onBytesReceived hv data (ss_handler x) s = (k, h, t)" by (rule prod_cases3)
  have safe: "safe_step iv keeps ok s (k, h, t)"
    using receive_safe [OF read.prems, of data] by (simp add: c)
  let ?x = "cancel_timer (end_op AsyncRead x)\<lparr>ss_handler := h\<rparr>"
  have "result_ok t (Session_doWrite hv b ?x t)" if "k = Ret b" for b
    using safe that by (intro doWrite_ok) simp
  with read.hyps(4) safe show ?case
    by (cases k) (auto simp: Session_onRead_def cancel_timer_def end_op_def c Session_closeSocket_def result_ok_def)
next
  case (written b k x s)
  have "result_ok s (Session_doWrite hv k (add_sent b (end_op (AsyncWrite b k) x)) s)"
    using written.prems by (intro doWrite_ok) (simp add: add_sent_def end_op_def)
  with written.prems hkeeps_refl show ?case
    by (auto simp: Session_onWritten_def result_ok_def Session_readOrDrain_def Session_doRead_def
        Session_drainAndClose_def start_op_def cancel_timer_def add_sent_def end_op_def)
next
  case (posted k x s)
  have "result_ok s (Session_doWrite hv k (end_op (AsyncPost k) x) s)"
    using posted.prems by (intro doWrite_ok) (simp add: end_op_def)
  with posted.prems hkeeps_refl show ?case by simp
qed (auto simp: hkeeps_refl result_ok_def Session_onRead_def Session_onWritten_def Session_onDrained_def
    Session_onTimer_def Session_drainAndClose_def Session_closeSocket_def cancel_timer_def start_op_def
    end_op_def end_wait_def add_sent_def)

definition server_ok :: "('h, 's) server \<Rightarrow> bool" where
  "server_ok v \<longleftrightarrow> iv (sv_storage v) \<and> (\<forall>x\<in>set (sv_sessions v). ok (ss_handler x) (sv_storage v))"

lemma server_step_ok:
  assumes "server_step hv handler v r" "server_ok v"
  shows "\<exists>v'. r = Some v' \<and> server_ok v' \<and> keeps (sv_storage v) (sv_storage v')"
  using assms
proof (induction rule: server_step.induct)
  case (accept v)
  then show ?case
    using hkeeps_refl ok_new
    by (auto simp: server_ok_def Server_accept_def Session_start_def Session_new_def Session_doRead_def
        Session_armIdleTimer_def cancel_timer_def start_op_def Let_def)
next
  case (accept_error v)
  then show ?case using hkeeps_refl by simp
next
  case (session i v x s)
  have iv: "iv (sv_storage v)" and all: "\<forall>y\<in>set (sv_sessions v). ok (ss_handler y) (sv_storage v)"
    using session.prems by (auto simp: server_ok_def)
  have "ok (ss_handler (sv_sessions v ! i)) (sv_storage v)" using all session.hyps(1) by simp
  from session_step_ok [OF session.hyps(2) iv this]
  have "iv s" "keeps (sv_storage v) s" "ok (ss_handler x) s" by (auto simp: result_ok_def)
  moreover from this have "\<forall>y\<in>set (sv_sessions v). ok (ss_handler y) s" using all ok_kept [OF iv] by blast
  ultimately show ?case by (auto simp: server_ok_def dest!: set_update_subset_insert [THEN subsetD])
next
  case (session_crash i v r s)
  then have "iv (sv_storage v)" "ok (ss_handler (sv_sessions v ! i)) (sv_storage v)"
    by (auto simp: server_ok_def)
  from session_step_ok [OF session_crash.hyps(2) this] session_crash.hyps(3) show ?case
    by (auto simp: result_ok_def)
qed

lemma server_run_ok:
  "server_run hv handler v r \<Longrightarrow> server_ok v \<Longrightarrow>
    \<exists>v'. r = Some v' \<and> server_ok v' \<and> keeps (sv_storage v) (sv_storage v')"
proof (induction rule: server_run.induct)
  case (run_refl v)
  then show ?case using hkeeps_refl by simp
next
  case (run_step v v' v'')
  then show ?case using server_step_ok hkeeps_trans by blast
qed

end

section \<open>The handler every connection starts with\<close>

fun proto_ok :: "('w \<Rightarrow> 's \<Rightarrow> bool) \<Rightarrow> ('w, 'r) protocol_handler \<Rightarrow> 's \<Rightarrow> bool" where
  "proto_ok up (RespProto h) s = resp_ok up h s"
| "proto_ok up (HttpProto h) s = http_ok up h s"

definition detector_ok :: "('w \<Rightarrow> 's \<Rightarrow> bool) \<Rightarrow> ('w, 'r) detector \<Rightarrow> 's \<Rightarrow> bool" where
  "detector_ok up d s \<longleftrightarrow> (case pd_delegate d of None \<Rightarrow> True | Some h \<Rightarrow> proto_ok up h s)"

lemma ProtocolDetectorHandler_hvt_simps [simp, obsto_vt]:
  "hv_onBytesReceived (ProtocolDetectorHandler_hvt ovt svt) = pd_onBytesReceived ovt svt"
  "hv_takeOutgoingBytes (ProtocolDetectorHandler_hvt ovt svt) = pd_takeOutgoingBytes svt"
  "hv_hasMoreToSend (ProtocolDetectorHandler_hvt ovt svt) = pd_hasMoreToSend"
  by (simp_all add: ProtocolDetectorHandler_hvt_def)

context guarded_storage
begin

lemma proto_receive_safe:
  assumes "inv s" "proto_ok upload_ok h s"
  shows "safe (proto_ok upload_ok) s (proto_onBytesReceived vt (Some svt) data h s)"
proof (cases h)
  case (RespProto x)
  with resp_onBytesReceived_safe [of s x data] assms show ?thesis
    by (auto simp: safe_step_def case_prod_unfold Let_def)
next
  case (HttpProto x)
  with http_onBytesReceived_safe [of s x data] assms show ?thesis
    by (auto simp: safe_step_def case_prod_unfold Let_def)
qed

lemma pd_forward_safe:
  assumes "inv s" "proto_ok upload_ok h s"
  shows "safe (detector_ok upload_ok) s (pd_forward vt (Some svt) data h d s)"
  using proto_receive_safe [OF assms, of data]
  by (auto simp: pd_forward_def safe_step_def detector_ok_def case_prod_unfold Let_def)

lemma pd_receive_safe:
  assumes "inv s" "detector_ok upload_ok d s"
  shows "safe (detector_ok upload_ok) s (pd_onBytesReceived vt (Some svt) data d s)"
proof (cases "pd_delegate d")
  case None
  have "proto_ok upload_ok (RespProto RespProtocolHandler_new) s"
    "proto_ok upload_ok (HttpProto HttpProtocolHandler_new) s" by simp_all
  then show ?thesis
    using assms None keeps_refl pd_forward_safe
    by (auto simp: pd_onBytesReceived_def split: list.split http_match.split)
next
  case (Some h)
  with assms show ?thesis
    using pd_forward_safe by (simp add: pd_onBytesReceived_def detector_ok_def)
qed

lemma pd_take_safe:
  assumes "detector_ok upload_ok d s"
  shows "fst (pd_takeOutgoingBytes (Some svt) d s) \<noteq> Crash \<and>
    detector_ok upload_ok (snd (pd_takeOutgoingBytes (Some svt) d s)) s"
proof (cases "pd_delegate d")
  case None
  with assms show ?thesis by (simp add: pd_takeOutgoingBytes_def)
next
  case (Some h)
  with assms resp_takeOutgoingBytes_safe http_takeOutgoingBytes_safe show ?thesis
    by (cases h) (auto simp: pd_takeOutgoingBytes_def detector_ok_def case_prod_unfold Let_def)
qed

lemma detector_ok_kept:
  "inv s \<Longrightarrow> keeps s t \<Longrightarrow> detector_ok upload_ok d s \<Longrightarrow> detector_ok upload_ok d t"
  using resp_ok_kept http_ok_kept
  by (auto simp: detector_ok_def split: option.splits elim!: proto_ok.elims)

end

sublocale guarded_storage \<subseteq> net: guarded_handler "ProtocolDetectorHandler_hvt vt (Some svt)"
    ProtocolDetectorHandler_new "inv" keeps "detector_ok upload_ok"
proof (unfold_locales, goal_cases)
  case (3 s)
  then show ?case by (simp add: detector_ok_def ProtocolDetectorHandler_new_def)
qed (use keeps_refl keeps_trans detector_ok_kept pd_receive_safe pd_take_safe in auto)

end
