(* ===== verification/Disk_Index.thy ===== *)
theory Disk_Index
  imports Bounded_Streaming
begin

text \<open>
  The rest of \<open>Core/Storage/Persistency/StoragePersistency.cpp\<close>: the scan of the directory tree that
  fills the size index when the server starts. The members \<open>m_sizes\<close> and \<open>m_totalBytes\<close> are the
  fields of the record \<open>storage_persistency\<close>.
\<close>

section \<open>The scan\<close>

definition isTempFile :: "fs_path \<Rightarrow> bool" where
  "isTempFile path \<longleftrightarrow> path_extension path = ''.tmp''"

text \<open>
  \<open>std::filesystem::relative\<close> of two locations: up from the base to the last common directory, and
  down from there.
\<close>

fun fs_relative :: "string list \<Rightarrow> string list \<Rightarrow> fs_path" where
  "fs_relative (q # qs) (b # bs) =
     (if q = b then fs_relative qs bs else replicate (length (b # bs)) ''..'' @ q # qs)"
| "fs_relative qs bs =
     (if qs = [] \<and> bs = [] then [''.''] else replicate (length bs) ''..'' @ qs)"

definition toRelativeKey :: "os_env \<Rightarrow> string list \<Rightarrow> string list \<Rightarrow> string option" where
  "toRelativeKey env rootDir filePath =
     (if env_refuses env filePath then None
      else
        let normalized = path_lexically_normal (fs_relative filePath rootDir)
        in if normalized = [] \<or> normalized = [''.''] then None
           else if list_ex (\<lambda>part. part = ''..'') normalized then None
           else Some (join_slash normalized))"

text \<open>One entry of the iteration, at the location \<open>base @ q\<close>.\<close>

definition rebuild_entry ::
    "os_env \<Rightarrow> string list \<Rightarrow> host \<Rightarrow> string list \<times> node \<Rightarrow> storage_persistency \<Rightarrow> storage_persistency" where
  "rebuild_entry env base h e sp =
     (case e of
        (q, Dir) \<Rightarrow> sp
      | (q, File i) \<Rightarrow>
          if isTempFile q then sp
          else
            (case toRelativeKey env base (base @ q) of
               None \<Rightarrow> sp
             | Some key \<Rightarrow>
                 if env_refuses env (base @ q) then sp
                 else
                   let fileSize = of_nat (length (hs_data h i))
                   in sp\<lparr>sp_sizes := (if map_of (sp_sizes sp) key = None
                                        then sp_sizes sp @ [(key, fileSize)] else sp_sizes sp),
                         sp_totalBytes := sp_totalBytes sp + fileSize\<rparr>))"

text \<open>
  The iteration has an error code: it ends at the first directory that cannot be opened, and has
  nothing to visit when the root is no directory.
\<close>

definition rebuildIndexUnlocked :: "os_env \<Rightarrow> host \<Rightarrow> storage_persistency \<Rightarrow> storage_persistency" where
  "rebuildIndexUnlocked env h sp =
     (let sp = sp\<lparr>sp_sizes := [], sp_totalBytes := 0\<rparr>
      in case fs_resolve env (sp_rootDir sp) h of
           WalkAt base \<Rightarrow>
             if node_at h base \<noteq> Some Dir then sp
             else
               fold (rebuild_entry env base h)
                 (takeWhile (\<lambda>(q, n). \<not> (n = Dir \<and> env_refuses env (base @ q))) (tree_below base h)) sp
         | _ \<Rightarrow> sp)"

definition StoragePersistency_refresh :: "os_env \<Rightarrow> host \<Rightarrow> storage_persistency \<Rightarrow> storage_persistency" where
  "StoragePersistency_refresh env h sp = rebuildIndexUnlocked env h sp"

definition StoragePersistency_new :: "os_env \<Rightarrow> fs_path \<Rightarrow> host \<Rightarrow> storage_persistency \<times> host" where
  "StoragePersistency_new env rootDir h =
     (let (ok, h') = fs_create_directories env rootDir h
      in (StoragePersistency_refresh env h'
            \<lparr>sp_rootDir = rootDir, sp_sizes = [], sp_totalBytes = 0\<rparr>, h'))"

section \<open>What the scan records\<close>

lemma fs_relative_below: "ns \<noteq> [] \<Longrightarrow> fs_relative (base @ ns) base = ns"
  by (induction base) (auto simp: neq_Nil_conv)

lemma normal_plain:
  assumes "\<forall>n\<in>set ns. plain_name n"
  shows "path_lexically_normal ns = ns"
proof (cases ns)
  case (Cons m ms)
  have m: "file_name m" "plain_name m" using assms Cons by (simp_all add: plain_file_name)
  have "path_has_filename [m]" using m(2) by (simp add: path_has_filename_def)
  moreover have "\<forall>n\<in>set ms. file_name n" using assms Cons by (simp add: plain_file_name)
  ultimately have "foldl normal_step [m] ms = [m] @ ms" by (rule normal_names)
  then have "foldl normal_step [] ns = ns" using Cons normal_step_name(3) [OF m(1)] by simp
  moreover have "last ns \<noteq> []" using assms Cons last_in_set [of ns] by auto
  ultimately show ?thesis using Cons by (simp add: path_lexically_normal_def Let_def)
qed (simp add: path_lexically_normal_def)

lemma toRelativeKey_below:
  assumes "ns \<noteq> []" "\<forall>n\<in>set ns. plain_name n" "\<not> env_refuses env (base @ ns)"
  shows "toRelativeKey env base (base @ ns) = Some (join_slash ns)"
proof -
  have "''.'' \<notin> set ns" "''..'' \<notin> set ns" using assms(2) plain_name_simps(2,3) by blast+
  then have "ns \<noteq> [''.'']" "\<not> list_ex (\<lambda>part. part = ''..'') ns" by (auto simp: list_ex_iff)
  then show ?thesis
    using assms by (simp add: toRelativeKey_def fs_relative_below normal_plain)
qed

definition entry_size :: "host \<Rightarrow> node \<Rightarrow> size_t" where
  "entry_size h n = (case n of Dir \<Rightarrow> 0 | File i \<Rightarrow> of_nat (length (hs_data h i)))"

definition entry_sizes :: "host \<Rightarrow> (string list \<times> node) list \<Rightarrow> (string \<times> size_t) list" where
  "entry_sizes h es = map (\<lambda>(q, n). (join_slash q, entry_size h n)) (filter is_object_file es)"

lemma rebuild_fold:
  assumes "\<forall>(q, n)\<in>set es. q \<noteq> [] \<and> (\<forall>c\<in>set q. plain_name c) \<and> \<not> env_refuses env (base @ q)"
    and "distinct (map fst (entry_sizes h es))"
    and "\<forall>k\<in>set (map fst (entry_sizes h es)). map_of (sp_sizes sp) k = None"
  shows "fold (rebuild_entry env base h) es sp =
    sp\<lparr>sp_sizes := sp_sizes sp @ entry_sizes h es,
       sp_totalBytes := sp_totalBytes sp + total_of (entry_sizes h es)\<rparr>"
  using assms
proof (induction es arbitrary: sp)
  case (Cons e es)
  obtain q n where e: "e = (q, n)" by (cases e)
  have q: "q \<noteq> []" "\<forall>c\<in>set q. plain_name c" "\<not> env_refuses env (base @ q)"
    using Cons.prems(1) e by auto
  note rest = Cons.IH [OF _ _ _, of "rebuild_entry env base h e sp"]
  show ?case
  proof (cases "is_object_file e")
    case False
    then have "rebuild_entry env base h e sp = sp" "entry_sizes h (e # es) = entry_sizes h es"
      by (auto simp: e rebuild_entry_def is_object_file_def isTempFile_def entry_sizes_def split: node.splits)
    with Cons show ?thesis by simp
  next
    case True
    then obtain i where n: "n = File i" "\<not> isTempFile q"
      by (auto simp: e is_object_file_def isTempFile_def split: node.splits)
    have cons: "entry_sizes h (e # es) = (join_slash q, entry_size h n) # entry_sizes h es"
      using True by (simp add: e entry_sizes_def)
    have new: "map_of (sp_sizes sp) (join_slash q) = None" using Cons.prems(3) cons by simp
    let ?sp = "sp\<lparr>sp_sizes := sp_sizes sp @ [(join_slash q, entry_size h n)],
      sp_totalBytes := sp_totalBytes sp + entry_size h n\<rparr>"
    have step: "rebuild_entry env base h e sp = ?sp"
      using q new n by (simp add: e rebuild_entry_def toRelativeKey_below entry_size_def Let_def)
    have "\<forall>k\<in>set (map fst (entry_sizes h es)). map_of (sp_sizes ?sp) k = None"
      using Cons.prems(2,3) cons by (auto simp: map_add_def rev_image_eqI)
    then have "fold (rebuild_entry env base h) es ?sp =
        ?sp\<lparr>sp_sizes := sp_sizes ?sp @ entry_sizes h es,
            sp_totalBytes := sp_totalBytes ?sp + total_of (entry_sizes h es)\<rparr>"
      using Cons.prems(1,2) cons by (intro Cons.IH) auto
    then show ?thesis by (simp add: step cons add.assoc)
  qed
qed (simp add: entry_sizes_def)

text \<open>The sizes of the objects the tree holds.\<close>

lemma entry_sizes_files:
  assumes fs: "fs_inv env root h"
  shows "distinct (map fst (entry_sizes h (tree_below (disk_base env root) h)))"
    and "map_of (entry_sizes h (tree_below (disk_base env root) h)) k =
      map_option (\<lambda>b. of_nat (length b)) (disk_view env root h k)"
proof -
  let ?es = "tree_below (disk_base env root) h"
  have "map fst (entry_sizes h ?es) = map (\<lambda>(q, n). join_slash q) (filter is_object_file ?es)"
    by (auto simp: entry_sizes_def)
  then have files: "distinct (map fst (entry_sizes h ?es))" "set (map fst (entry_sizes h ?es)) = dom (disk_view env root h)"
    using tree_below_files [OF fs] by metis+
  show "distinct (map fst (entry_sizes h ?es))" by (fact files)
  show "map_of (entry_sizes h ?es) k = map_option (\<lambda>b. of_nat (length b)) (disk_view env root h k)"
  proof (cases "disk_view env root h k")
    case None
    then have "k \<notin> set (map fst (entry_sizes h ?es))" using files(2) by auto
    with None show ?thesis by (simp add: map_of_eq_None_iff)
  next
    case (Some v)
    then obtain i where i: "good_key k" "node_at h (disk_base env root @ key_names k) = Some (File i)" "v = hs_data h i"
      by (auto simp: disk_view_iff)
    from entry_of_object [OF fs i(1,2)]
    have "(join_slash (key_names k), entry_size h (File i)) \<in> set (entry_sizes h ?es)"
      by (force simp: entry_sizes_def)
    then have "map_of (entry_sizes h ?es) k = Some (of_nat (length v))"
      using files(1) i(3) by (simp add: key_names_def join_split entry_size_def)
    with Some show ?thesis by simp
  qed
qed

lemma rebuild_exact:
  assumes ok: "root_ok root" and fs: "fs_inv env root h" and root: "sp_rootDir sp = root"
  shows "sp_inv (rebuildIndexUnlocked env h sp) \<and>
    StoragePersistency_objectSize k (rebuildIndexUnlocked env h sp) =
      map_option (\<lambda>b. of_nat (length b)) (disk_view env root h k)"
proof (cases "\<exists>base. fs_resolve env root h = WalkAt base \<and> node_at h base = Some Dir")
  case True
  then obtain base where base: "fs_resolve env root h = WalkAt base" "node_at h base = Some Dir" by blast
  have b: "base = disk_base env root" using resolve_plain [OF ok fs, of "[]" base] base(1) by simp
  let ?es = "tree_below base h"
  note files = entry_sizes_files [OF fs, folded b]
  have entry: "q \<noteq> [] \<and> (\<forall>c\<in>set q. plain_name c) \<and> \<not> env_refuses env (base @ q)"
    if "(q, n) \<in> set ?es" for q n
  proof -
    have at: "q \<noteq> []" "node_at h (base @ q) = Some n" using that tree_below_iff [OF fs] by auto
    have "list_all plain_name (base @ q)" "\<not> env_refuses env (base @ q)"
      using fs_invD(2) [OF fs at(2)] fs_invD(4) [OF fs at(2)] at(1) by (auto simp: b on_way_def)
    with at(1) show ?thesis by (simp add: list_all_iff)
  qed
  then have all: "takeWhile (\<lambda>(q, n). \<not> (n = Dir \<and> env_refuses env (base @ q))) ?es = ?es"
    by (auto simp: takeWhile_eq_all_conv)
  have "\<forall>(q, n)\<in>set ?es. q \<noteq> [] \<and> (\<forall>c\<in>set q. plain_name c) \<and> \<not> env_refuses env (base @ q)"
    using entry by blast
  from rebuild_fold [OF this files(1), of "sp\<lparr>sp_sizes := [], sp_totalBytes := 0\<rparr>"] base
  have "rebuildIndexUnlocked env h sp =
      sp\<lparr>sp_sizes := entry_sizes h ?es, sp_totalBytes := total_of (entry_sizes h ?es)\<rparr>"
    unfolding rebuildIndexUnlocked_def by (simp add: all root del: not_imp de_Morgan_conj)
  with files show ?thesis
    by (simp add: sp_inv_def index_ok_def alist_ok_def StoragePersistency_objectSize_def)
next
  case False
  then have "rebuildIndexUnlocked env h sp = sp\<lparr>sp_sizes := [], sp_totalBytes := 0\<rparr>"
    using root by (auto simp: rebuildIndexUnlocked_def Let_def split: fs_walk.splits)
  with no_root_no_objects [OF ok fs False] show ?thesis
    by (simp add: sp_inv_def index_ok_def StoragePersistency_objectSize_def)
qed

lemma root_created:
  assumes ok: "root_ok root" and fs: "fs_inv env root h" and op: "fs_create_directories env root h = (d, h')"
  shows "fs_inv env root h' \<and> grown h h'"
proof -
  have "anchored env root h" "path_ok root"
    using anchored_root [OF fs ok, of "[]"] path_ok_root [OF ok, of "[]"] by simp_all
  from create_directories_grown [OF fs this op] show ?thesis .
qed

lemma grown_disk_inv:
  "disk_inv env root h \<Longrightarrow> grown h h' \<Longrightarrow> fs_inv env root h' \<Longrightarrow>
    disk_inv env root h' \<and> disk_view env root h' = disk_view env root h"
  using grown_file_at [of h h'] by (auto simp: disk_inv_def disk_view_def fun_eq_iff grown_def)

lemma scan_new:
  assumes ok: "root_ok root" and fs: "fs_inv env root h" and new: "StoragePersistency_new env root h = (sp, h')"
  shows "fs_inv env root h' \<and> grown h h' \<and> sp_inv sp \<and>
    StoragePersistency_objectSize k sp = map_option (\<lambda>b. of_nat (length b)) (disk_view env root h k)"
proof -
  obtain d where d: "fs_create_directories env root h = (d, h')"
    and sp: "sp = rebuildIndexUnlocked env h' \<lparr>sp_rootDir = root, sp_sizes = [], sp_totalBytes = 0\<rparr>"
    using new by (auto simp: StoragePersistency_new_def StoragePersistency_refresh_def split: prod.splits)
  note h' = root_created [OF ok fs d]
  from h' rebuild_exact [OF ok, of env h' "\<lparr>sp_rootDir = root, sp_sizes = [], sp_totalBytes = 0\<rparr>" k]
  show ?thesis using grown_file_at [of h h'] by (simp add: sp disk_view_def)
qed

section \<open>Properties\<close>

text \<open>C18.
  The scan at the start records exactly the sizes of the objects in the tree: for every canonical key
  the size of its file, nothing for directories, temporary files or anything else, and the total is
  the sum of what is recorded. Scanning changes no file.\<close>

theorem StoragePersistency_scan_exact:
  assumes "root_ok root" "fs_inv env root h" "StoragePersistency_new env root h = (sp, h')"
  shows "StoragePersistency_objectSize k sp = map_option (\<lambda>b. of_nat (length b)) (disk_view env root h k) \<and>
    StoragePersistency_totalBytes sp = total_of (StoragePersistency_entries sp) \<and>
    file_at h' = file_at h"
  using scan_new [OF assms, of k] grown_file_at [of h h']
  by (simp add: sp_inv_def index_ok_def StoragePersistency_totalBytes_def StoragePersistency_entries_def)

text \<open>A host with two objects below the root, one of them the remains of an upload.\<close>

definition d_filled :: host where
  "d_filled = d_host
     \<lparr>hs_nodes := hs_nodes d_host @ [([''d'', ''a''], Dir), ([''d'', ''a'', ''b''], File 1),
        ([''d'', ''a'', ''c.tmp''], File 2)], hs_next := 3\<rparr>"

lemma d_filled_fs_inv [simp]: "fs_inv plain_env d_root d_filled"
  by (rule fs_invI) (auto simp: node_at_def d_filled_def d_host_def plain_name_def split: if_splits)

lemma d_filled_inv [simp]: "disk_inv plain_env d_root d_filled"
  by (auto simp: disk_inv_def prefix_def append_eq_Cons_conv)
    (auto simp: file_at_def node_at_def d_filled_def d_host_def append_eq_Cons_conv Cons_eq_append_conv)

lemma d_filled_view:
  "disk_view plain_env d_root d_filled = [''a/b'' \<mapsto> ''old'']"
proof
  fix k
  show "disk_view plain_env d_root d_filled k = [''a/b'' \<mapsto> ''old''] k"
  proof (cases "k = ''a/b''")
    case True
    then show ?thesis
      by (simp add: disk_view_def file_at_def node_at_def) (simp add: d_filled_def d_host_def)
  next
    case False
    have "key_names k \<noteq> [''a'', ''b'']" using False key_names_inj [of k "''a/b''"] d_key(2) by metis
    moreover have "good_key k \<Longrightarrow> key_names k \<noteq> [''a'', ''c.tmp'']"
      by (auto simp: good_key_def name_extension_def)
    ultimately show ?thesis
      using False by (auto simp: disk_view_def file_at_def node_at_def d_filled_def d_host_def)
  qed
qed

theorem StoragePersistency_scan_exact_witness:
  "StoragePersistency_objectSize ''a/b'' (fst (StoragePersistency_new plain_env d_root d_filled)) = Some 3 \<and>
   StoragePersistency_objectSize ''a/c.tmp'' (fst (StoragePersistency_new plain_env d_root d_filled)) = None"
  using StoragePersistency_scan_exact [OF d_root_ok d_filled_fs_inv prod.collapse [symmetric]]
  by (simp add: d_filled_view)

text \<open>The index a server starts with, under the capacity limit.\<close>

lemma bounded_persistent:
  "b_inner (BoundedObjectStorage_new_persistent i sp m) = i"
  "b_persistency (BoundedObjectStorage_new_persistent i sp m) = Some sp"
  "b_maxBytes (BoundedObjectStorage_new_persistent i sp m) = m"
proof -
  have "b_inner (fold (\<lambda>(path, n) s. s\<lparr>b_sizes := AList.update path n (b_sizes s),
        b_currentBytes := b_currentBytes s + n\<rparr>) es s) = b_inner s \<and>
      b_persistency (fold (\<lambda>(path, n) s. s\<lparr>b_sizes := AList.update path n (b_sizes s),
        b_currentBytes := b_currentBytes s + n\<rparr>) es s) = b_persistency s \<and>
      b_maxBytes (fold (\<lambda>(path, n) s. s\<lparr>b_sizes := AList.update path n (b_sizes s),
        b_currentBytes := b_currentBytes s + n\<rparr>) es s) = b_maxBytes s"
    for es :: "(string \<times> size_t) list" and s :: "'a bounded_storage"
    by (induction es arbitrary: s) auto
  then show "b_inner (BoundedObjectStorage_new_persistent i sp m) = i"
    "b_persistency (BoundedObjectStorage_new_persistent i sp m) = Some sp"
    "b_maxBytes (BoundedObjectStorage_new_persistent i sp m) = m"
    by (simp_all add: BoundedObjectStorage_new_persistent_def)
qed

lemma bounded_persistent_index:
  "BoundedObjectStorage_objectSize k (BoundedObjectStorage_new_persistent i sp m) = StoragePersistency_objectSize k sp"
  "b_index_ok (BoundedObjectStorage_new_persistent i sp m) = sp_inv sp"
  by (simp_all add: BoundedObjectStorage_objectSize_def b_index_ok_def bounded_persistent)

lemma restart_inv:
  assumes "disk_inv env root h" "StoragePersistency_new env root h = (sp, h')"
    and "\<forall>b\<in>ran (disk_view env root h). str_ok b"
    and "stored_bytes (disk_view env root h) \<le> unat m" "unat m < 2 ^ 63"
  shows "bounded_inv (disk_inv env root) (disk_view env root) (BoundedObjectStorage_new_persistent h' sp m)"
proof -
  let ?s = "BoundedObjectStorage_new_persistent h' sp m"
  have ok: "root_ok root" and fs: "fs_inv env root h" using assms(1) by (auto simp: disk_inv_def)
  note new = scan_new [OF ok fs assms(2)]
  have h': "disk_inv env root h'" "disk_view env root h' = disk_view env root h"
    using grown_disk_inv [OF assms(1)] new by blast+
  have sz: "BoundedObjectStorage_objectSize p ?s =
      map_option (\<lambda>b. of_nat (length b)) (disk_view env root h p)" for p
    using new by (simp add: bounded_persistent_index)
  have "bidx.bytes_of ?s = stored_bytes (disk_view env root h)"
  proof -
    have "dom (\<lambda>p. BoundedObjectStorage_objectSize p ?s) = dom (disk_view env root h)"
      by (auto simp: sz dom_def)
    then show ?thesis
      unfolding bidx.bytes_of_def stored_bytes_def
      using assms(3) by (intro sum.cong) (auto simp: sz unat_length ranI)
  qed
  then show ?thesis
    using assms(3-5) h' new sz
    by (auto simp: bounded_inv_def bounded_persistent bounded_persistent_index ranI)
qed



end
