(* ===== verification/App_Main.thy ===== *)
theory App_Main
  imports Net_Safety Disk_Index
begin

text \<open>
  \<open>App/\<close>: the command line (\<open>ArgumentParser.cpp\<close>, \<open>ServerConfig.h\<close>) and what \<open>main.cpp\<close> builds from
  it: the disk storage, the size index, the capacity limit over both, and the factory of the
  connections' handlers. A call of \<open>exit(1)\<close> is the value \<open>None\<close>; what is printed to the standard
  output is returned.
\<close>

section \<open>The command line\<close>

record server_config =
  cf_storagePath :: string
  cf_port :: "16 word"
  cf_capacityMB :: size_t
  cf_showHelp :: bool

definition ServerConfig_default :: server_config where
  "ServerConfig_default =
     \<lparr>cf_storagePath = ''C:'' @ [CHR 0x5C] @ ''develop'' @ [CHR 0x5C] @ ''obsto'', cf_port = 8000,
      cf_capacityMB = 200, cf_showHelp = False\<rparr>"

text \<open>\<open>nextValue(index)\<close>: the value and the index moved on to it.\<close>

definition nextValue :: "string list \<Rightarrow> nat \<Rightarrow> (string \<times> nat) option" where
  "nextValue argv index =
     (if index + 1 \<ge> length argv then None else Some (argv ! (index + 1), index + 1))"

definition nextValueAsPort :: "string list \<Rightarrow> nat \<Rightarrow> (16 word \<times> nat) option" where
  "nextValueAsPort argv index =
     (case nextValue argv index of
        None \<Rightarrow> None
      | Some (val, index') \<Rightarrow>
          (case stoi val of
             None \<Rightarrow> None
           | Some parsed \<Rightarrow>
               if parsed < 0 \<or> parsed > 65535 then None else Some (word_of_int parsed, index')))"

text \<open>\<open>std::stoull\<close> reads what \<open>std::stoul\<close> reads.\<close>

definition nextValueAsSize :: "string list \<Rightarrow> nat \<Rightarrow> (size_t \<times> nat) option" where
  "nextValueAsSize argv index =
     (case nextValue argv index of
        None \<Rightarrow> None
      | Some (val, index') \<Rightarrow>
          (case stoul val of None \<Rightarrow> None | Some n \<Rightarrow> Some (n, index')))"

definition printHelp :: "string list \<Rightarrow> string" where
  "printHelp argv =
     [LF] @ ''Usage: '' @ argv ! 0 @ '' [options]'' @ [LF] @
     [LF] @ ''Options:'' @ [LF] @
     ''  --port, -p     Server port (default: 8000)'' @ [LF] @
     ''  --capacity, -c Storage capacity in MB (default: 200)'' @ [LF] @
     ''  --path, -P     Storage path (default: C:'' @ [CHR 0x5C] @ ''develop'' @ [CHR 0x5C] @ ''obsto)'' @ [LF] @
     ''  --help, -h     Show this help message'' @ [LF] @
     [LF] @ ''Example:'' @ [LF] @
     ''  '' @ argv ! 0 @ '' --port 8080 --capacity 500 --path /data/storage'' @ [LF] @
     ''  '' @ argv ! 0 @ '' -p 8080 -c 500 -P /data/storage'' @ [LF]"

lemma nextValue_index: "nextValue argv i = Some (v, j) \<Longrightarrow> j = Suc i \<and> Suc i < length argv"
  by (simp add: nextValue_def split: if_splits)

lemma nextValueAs_index:
  "nextValueAsPort argv i = Some (p, j) \<Longrightarrow> j = Suc i"
  "nextValueAsSize argv i = Some (n, j) \<Longrightarrow> j = Suc i"
  by (auto simp: nextValueAsPort_def nextValueAsSize_def split: option.splits if_splits
      dest: nextValue_index)

text \<open>The loop of \<open>parse\<close> at the index \<open>i\<close>, with the configuration and the output so far.\<close>

function parse_args ::
    "string list \<Rightarrow> nat \<Rightarrow> server_config \<Rightarrow> string \<Rightarrow> server_config option \<times> string" where
  "parse_args argv i config out =
     (if i \<ge> length argv then (Some config, out)
      else
        let arg = argv ! i
        in if arg = ''--port'' \<or> arg = ''-p'' then
             (case nextValueAsPort argv i of
                None \<Rightarrow> (None, out @ printHelp argv)
              | Some (p, j) \<Rightarrow> parse_args argv (j + 1) (config\<lparr>cf_port := p\<rparr>) out)
           else if arg = ''--capacity'' \<or> arg = ''-c'' then
             (case nextValueAsSize argv i of
                None \<Rightarrow> (None, out @ printHelp argv)
              | Some (n, j) \<Rightarrow> parse_args argv (j + 1) (config\<lparr>cf_capacityMB := n\<rparr>) out)
           else if arg = ''--path'' \<or> arg = ''-P'' then
             (case nextValue argv i of
                None \<Rightarrow> (None, out @ printHelp argv)
              | Some (v, j) \<Rightarrow> parse_args argv (j + 1) (config\<lparr>cf_storagePath := v\<rparr>) out)
           else if arg = ''--help'' \<or> arg = ''-h'' then
             parse_args argv (i + 1) (config\<lparr>cf_showHelp := True\<rparr>) (out @ printHelp argv)
           else (None, out @ printHelp argv))"
  by pat_completeness auto
termination
  by (relation "measure (\<lambda>(argv, i, config, out). length argv - i)")
    (auto dest: nextValueAs_index nextValue_index)

declare parse_args.simps [simp del]

definition ArgumentParser_parse :: "string list \<Rightarrow> server_config option \<times> string" where
  "ArgumentParser_parse argv = parse_args argv 1 ServerConfig_default []"

section \<open>main\<close>

text \<open>
  What is running when \<open>main\<close> reaches \<open>ioContext.run()\<close>, or the exit status: an exception on the way,
  of the storage directory or of the acceptor, is caught and gives 1. The endless loop of \<open>run\<close> is the
  step relation of the server. The banner is not modelled.
\<close>

text \<open>
  \<open>Core/Net/Server.cpp\<close>: the acceptor throws when the port cannot be bound; after that \<open>doAccept\<close>
  waits for the first connection, a step of the server.
\<close>

definition Server_new :: "os_env \<Rightarrow> 16 word \<Rightarrow> 's \<Rightarrow> ('h, 's) server outcome" where
  "Server_new env port s =
     (if env_listens env port then Ret \<lparr>sv_sessions = [], sv_storage = s\<rparr> else Throw)"

type_synonym obsto_storage = "host bounded_storage"
type_synonym obsto_handler = "(disk_write bounded_write, ifstream) detector"

record obsto =
  ob_root :: fs_path
  ob_port :: "16 word"
  ob_server :: "(obsto_handler, obsto_storage) server"

definition main_setup :: "os_env \<Rightarrow> string list \<Rightarrow> host \<Rightarrow> (nat + obsto) \<times> host" where
  "main_setup env argv h =
     (case fst (ArgumentParser_parse argv) of
        None \<Rightarrow> (Inl 1, h)
      | Some config \<Rightarrow>
          if cf_showHelp config then (Inl 0, h)
          else
            let root = path_of (cf_storagePath config);
                (made, h1) = DiskObjectStorage_new env root h
            in (case made of
                  Ret _ \<Rightarrow>
                    let (persistency, h2) = StoragePersistency_new env root h1;
                        storage = BoundedObjectStorage_new_persistent h2 persistency
                                    (cf_capacityMB config * 1024 * 1024)
                    in (case Server_new env (cf_port config) storage of
                          Ret server \<Rightarrow>
                            (Inr \<lparr>ob_root = root, ob_port = cf_port config, ob_server = server\<rparr>, h2)
                        | _ \<Rightarrow> (Inl 1, h2))
                | _ \<Rightarrow> (Inl 1, h1)))"

text \<open>The handler table of every connection of the program.\<close>

definition obsto_hvt :: "os_env \<Rightarrow> fs_path \<Rightarrow> (obsto_handler, obsto_storage) handler_vt" where
  "obsto_hvt env root =
     ProtocolDetectorHandler_hvt
       (BoundedObjectStorage_vt (DiskObjectStorage_vt env root))
       (Some (BoundedObjectStorage_svt (DiskObjectStorage_svt env root)))"

end
