(* ===== verification/App_Properties.thy ===== *)
theory App_Properties
  imports App_Main
begin

text \<open>
  The properties of the whole program: what \<open>main\<close> makes of the command line, and what holds of the
  server it starts whatever its clients do.
\<close>

section \<open>The command line\<close>

lemma nextValue_simps:
  "nextValue argv i = (if i + 1 < length argv then Some (argv ! (i + 1), i + 1) else None)"
  by (simp add: nextValue_def)

lemma parse_args_end: "length argv \<le> i \<Longrightarrow> parse_args argv i config out = (Some config, out)"
  by (simp add: parse_args.simps)

lemma parse_args_port:
  assumes "argv ! i = ''--port'' \<or> argv ! i = ''-p''" "i + 1 < length argv"
    and "argv ! (i + 1) = to_string p" "p < 2 ^ 16"
  shows "parse_args argv i config out = parse_args argv (i + 2) (config\<lparr>cf_port := of_nat p\<rparr>) out"
proof -
  have "stoi (argv ! (i + 1)) = Some (int p)" using assms(3,4) by (simp add: stoi_to_string)
  then have "nextValueAsPort argv i = Some (of_nat p, i + 1)"
    using assms(2,4) by (simp add: nextValueAsPort_def nextValue_simps del: One_nat_def)
  with assms(1,2) show ?thesis by (subst parse_args.simps) (simp add: Let_def)
qed

lemma parse_args_capacity:
  assumes "argv ! i = ''--capacity'' \<or> argv ! i = ''-c''" "i + 1 < length argv"
    and "argv ! (i + 1) = to_string n" "n < 2 ^ 64"
  shows "parse_args argv i config out = parse_args argv (i + 2) (config\<lparr>cf_capacityMB := of_nat n\<rparr>) out"
proof -
  have "stoul (argv ! (i + 1)) = Some (of_nat n)" using assms(3,4) by (simp add: stoul_to_string)
  then have "nextValueAsSize argv i = Some (of_nat n, i + 1)"
    using assms(2) by (simp add: nextValueAsSize_def nextValue_simps del: One_nat_def)
  moreover have "argv ! i \<noteq> ''--port''" "argv ! i \<noteq> ''-p''" using assms(1) by auto
  ultimately show ?thesis using assms(1,2) by (subst parse_args.simps) (simp add: Let_def)
qed

lemma parse_args_path:
  assumes "argv ! i = ''--path'' \<or> argv ! i = ''-P''" "i + 1 < length argv"
  shows "parse_args argv i config out =
    parse_args argv (i + 2) (config\<lparr>cf_storagePath := argv ! (i + 1)\<rparr>) out"
proof -
  have "nextValue argv i = Some (argv ! (i + 1), i + 1)"
    using assms(2) by (simp add: nextValue_simps del: One_nat_def)
  moreover have "argv ! i \<noteq> ''--port''" "argv ! i \<noteq> ''-p''" "argv ! i \<noteq> ''--capacity''" "argv ! i \<noteq> ''-c''"
    using assms(1) by auto
  ultimately show ?thesis using assms by (subst parse_args.simps) (simp add: Let_def)
qed

text \<open>C31.
  The command line is read back: the three options, written with decimal numbers in their ranges,
  give exactly the configuration they describe and print nothing.\<close>

theorem ArgumentParser_roundtrip:
  assumes "p < 2 ^ 16" "n < 2 ^ 64"
  shows "ArgumentParser_parse
      [prog, ''--port'', to_string p, ''--capacity'', to_string n, ''--path'', path] =
    (Some \<lparr>cf_storagePath = path, cf_port = of_nat p, cf_capacityMB = of_nat n, cf_showHelp = False\<rparr>, [])"
proof -
  let ?a = "[prog, ''--port'', to_string p, ''--capacity'', to_string n, ''--path'', path]"
  have "parse_args ?a 1 c out = parse_args ?a 3 (c\<lparr>cf_port := of_nat p\<rparr>) out" for c out
    using parse_args_port [of ?a 1 p c out] assms(1) by (simp add: numeral_3_eq_3)
  moreover have "parse_args ?a 3 c out = parse_args ?a 5 (c\<lparr>cf_capacityMB := of_nat n\<rparr>) out" for c out
    using parse_args_capacity [of ?a 3 n c out] assms(2) by simp
  moreover have "parse_args ?a 5 c out = parse_args ?a 7 (c\<lparr>cf_storagePath := path\<rparr>) out" for c out
    using parse_args_path [of ?a 5 c out] by simp
  moreover have "parse_args ?a 7 c out = (Some c, out)" for c out by (rule parse_args_end) simp
  ultimately show ?thesis by (simp add: ArgumentParser_parse_def ServerConfig_default_def)
qed

theorem ArgumentParser_roundtrip_witness:
  "fst (ArgumentParser_parse
      [''obsto'', ''--port'', to_string 8080, ''--capacity'', to_string 500, ''--path'', ''/data'']) =
    Some \<lparr>cf_storagePath = ''/data'', cf_port = 8080, cf_capacityMB = 500, cf_showHelp = False\<rparr>"
  using ArgumentParser_roundtrip [of 8080 500 "''obsto''" "''/data''"] by simp

lemma parse_capacity_path:
  assumes "n < 2 ^ 64"
  shows "ArgumentParser_parse [prog, ''-c'', to_string n, ''-P'', path] =
    (Some (ServerConfig_default\<lparr>cf_capacityMB := of_nat n, cf_storagePath := path\<rparr>), [])"
proof -
  let ?a = "[prog, ''-c'', to_string n, ''-P'', path]"
  have "parse_args ?a 1 c out = parse_args ?a 3 (c\<lparr>cf_capacityMB := of_nat n\<rparr>) out" for c out
    using parse_args_capacity [of ?a 1 n c out] assms by (simp add: numeral_3_eq_3)
  moreover have "parse_args ?a 3 c out = parse_args ?a 5 (c\<lparr>cf_storagePath := path\<rparr>) out" for c out
    using parse_args_path [of ?a 3 c out] by simp
  moreover have "parse_args ?a 5 c out = (Some c, out)" for c out by (rule parse_args_end) simp
  ultimately show ?thesis by (simp add: ArgumentParser_parse_def)
qed

text \<open>What \<open>main\<close> builds for a root and a limit in bytes.\<close>

definition main_build :: "os_env \<Rightarrow> fs_path \<Rightarrow> size_t \<Rightarrow> host \<Rightarrow> (nat + obsto) \<times> host" where
  "main_build env root m h =
     (let (made, h1) = DiskObjectStorage_new env root h; (sp, h2) = StoragePersistency_new env root h1
      in if made \<noteq> Ret () then (Inl 1, h1)
         else if \<not> env_listens env 8000 then (Inl 1, h2)
         else (Inr \<lparr>ob_root = root, ob_port = 8000,
                 ob_server = \<lparr>sv_sessions = [],
                   sv_storage = BoundedObjectStorage_new_persistent h2 sp m\<rparr>\<rparr>, h2))"

lemma main_setup_build:
  assumes "n < 2 ^ 64"
  shows "main_setup env [prog, ''-c'', to_string n, ''-P'', path] h =
    main_build env (path_of path) (of_nat n * 1024 * 1024) h"
  by (auto simp: main_setup_def parse_capacity_path [OF assms] main_build_def ServerConfig_default_def
      Server_new_def Let_def split: prod.split outcome.split)

text \<open>
  The limit in bytes wraps: a capacity of \<open>n + 2 ^ 44\<close> megabytes starts the same server as one of
  \<open>n\<close> megabytes, and \<open>2 ^ 44\<close> itself one that can store nothing.\<close>

theorem Main_capacity_wraps:
  assumes "n + 2 ^ 44 < 2 ^ 64"
  shows "main_setup env [prog, ''-c'', to_string (n + 2 ^ 44), ''-P'', path] h =
    main_setup env [prog, ''-c'', to_string n, ''-P'', path] h"
proof -
  have "(of_nat (2 ^ 44) :: size_t) * 1024 * 1024 = 0" by simp
  then have wrap: "(of_nat (n + 2 ^ 44) :: size_t) * 1024 * 1024 = of_nat n * 1024 * 1024"
    by (simp only: of_nat_add distrib_right add_0_right)
  have "n < 2 ^ 64" using assms by simp
  then show ?thesis by (simp only: main_setup_build [OF assms] main_setup_build wrap)
qed

theorem Main_capacity_wraps_witness:
  "main_setup plain_env [''obsto'', ''-c'', to_string 17592186044416, ''-P'', ''/d''] d_host =
   main_setup plain_env [''obsto'', ''-c'', to_string 0, ''-P'', ''/d''] d_host"
  using Main_capacity_wraps [of 0] by simp

section \<open>The server\<close>

text \<open>
  Nothing at all is asked of the storage here: any state of the host and of the accounting.
\<close>

interpretation obsto_any: guarded_storage "BoundedObjectStorage_vt (DiskObjectStorage_vt env root)"
    "BoundedObjectStorage_svt (DiskObjectStorage_svt env root)" "\<lambda>_. True" "\<lambda>_ _. True" "\<lambda>_ _. True"
  for env root
  by (intro guarded_storage.intro bdisk_null.outer.null_safe_axioms) (unfold_locales, auto)

text \<open>C5.
  No input makes the server use a null session: with any number of connections, whatever bytes
  arrive in whatever pieces and order, whichever reads, writes and timers fail, and whatever the
  state of the disk, no handler ever dereferences a session that is not there, and no exception
  leaves a completion handler.\<close>

theorem Server_never_crashes:
  assumes "server_run (obsto_hvt env root) ProtocolDetectorHandler_new v r" "sv_sessions v = []"
  shows "r \<noteq> None"
proof -
  have "obsto_any.net.server_ok v" using assms(2) by (simp add: obsto_any.net.server_ok_def)
  from obsto_any.net.server_run_ok [OF assms(1) [unfolded obsto_hvt_def] this] show ?thesis by auto
qed

text \<open>A run with one client, whose first byte belongs to neither protocol.\<close>

definition one_client :: "obsto_storage \<Rightarrow> (obsto_handler, obsto_storage) server" where
  "one_client s = \<lparr>sv_sessions = [Session_start (Session_new ProtocolDetectorHandler_new)], sv_storage = s\<rparr>"

definition rejected_client :: "obsto_storage \<Rightarrow> (obsto_handler, obsto_storage) server" where
  "rejected_client s =
     \<lparr>sv_sessions = [\<lparr>ss_handler = ProtocolDetectorHandler_new, ss_open = True, ss_sendOpen = False,
        ss_pending = [AsyncDrain], ss_waits = [WaitCancelled], ss_sent = []\<rparr>], sv_storage = s\<rparr>"

lemma isHttp_x: "isHttp ''x'' = HttpNoMatch"
  by code_simp

lemma run_rejected:
  "server_run (obsto_hvt env root) ProtocolDetectorHandler_new \<lparr>sv_sessions = [], sv_storage = s\<rparr>
     (Some (rejected_client s))"
proof -
  let ?hv = "obsto_hvt env root" and ?d = "ProtocolDetectorHandler_new :: obsto_handler"
  let ?v = "\<lparr>sv_sessions = [], sv_storage = s\<rparr> :: (obsto_handler, obsto_storage) server"
  have "server_run ?hv ?d ?v (Some (Server_accept ?d ?v))"
    by (rule server_run.run_step [OF server_run.run_refl server_step.accept])
  moreover have "Server_accept ?d ?v = one_client s"
    by (simp add: Server_accept_def one_client_def)
  ultimately have run: "server_run ?hv ?d ?v (Some (one_client s))" by simp
  let ?x = "Session_start (Session_new ?d)"
  let ?y = "sv_sessions (rejected_client s) ! 0"
  have "Session_onRead ?hv (Some ''x'') (end_op AsyncRead ?x) s = (Ret ?y, s)"
    by (simp add: Session_onRead_def obsto_hvt_def pd_onBytesReceived_def ProtocolDetectorHandler_new_def
        isRespPrefix_def isHttp_x Session_doWrite_def pd_takeOutgoingBytes_def pd_hasMoreToSend_def
        Session_readOrDrain_def Session_drainAndClose_def Session_start_def Session_new_def
        Session_doRead_def Session_armIdleTimer_def cancel_timer_def cancel_wait_def start_op_def end_op_def
        rejected_client_def Let_def)
  then have "session_step ?hv ?x s (Ret ?y) s"
    by (rule session_step.read [rotated 3])
      (simp_all add: Session_start_def Session_doRead_def start_op_def kReadBufferSize_def)
  then have step: "session_step ?hv (sv_sessions (one_client s) ! 0) (sv_storage (one_client s)) (Ret ?y) s"
    by (simp add: one_client_def)
  have "0 < length (sv_sessions (one_client s))" by (simp add: one_client_def)
  from server_run.run_step [OF run server_step.session [OF this step]]
  show ?thesis by (simp add: one_client_def rejected_client_def)
qed

theorem Server_never_crashes_witness:
  "\<exists>r. server_run (obsto_hvt plain_env d_root) ProtocolDetectorHandler_new
      \<lparr>sv_sessions = [], sv_storage = BoundedObjectStorage_new d_full 10\<rparr> r \<and>
     r = Some (rejected_client (BoundedObjectStorage_new d_full 10)) \<and> r \<noteq> None"
  using Server_never_crashes [OF run_rejected] run_rejected by fastforce

text \<open>The storage a server starts with.\<close>

lemma main_setup_started:
  assumes "main_setup env argv h = (Inr ob, h')"
  obtains h1 sp m where "fs_create_directories env (ob_root ob) h = (True, h1)"
    "StoragePersistency_new env (ob_root ob) h1 = (sp, h')" "sv_sessions (ob_server ob) = []"
    "sv_storage (ob_server ob) = BoundedObjectStorage_new_persistent h' sp m"
  using assms
  by (auto simp: main_setup_def DiskObjectStorage_new_def Server_new_def Let_def
      split: option.splits if_splits prod.splits outcome.splits)

text \<open>C4.
  The accounting of a running server is exact whatever its clients do: from the start on, after any
  steps of any number of connections, completed, failed and aborted uploads included, the total the
  capacity test uses is the sum, modulo \<open>2 ^ 64\<close>, of the sizes recorded for the keys, and the limit is
  the one the server was started with.\<close>

theorem Server_accounting_exact:
  assumes "main_setup env argv h = (Inr ob, h')" "root_ok (ob_root ob)" "fs_inv env (ob_root ob) h"
    and "server_run (obsto_hvt env (ob_root ob)) ProtocolDetectorHandler_new (ob_server ob) (Some v)"
  defines "sizes \<equiv> (\<lambda>p. BoundedObjectStorage_objectSize p (sv_storage v))"
  shows "BoundedObjectStorage_totalBytes (sv_storage v) = (\<Sum>p\<in>dom sizes. the (sizes p)) \<and>
    b_maxBytes (sv_storage v) = b_maxBytes (sv_storage (ob_server ob))"
proof -
  obtain h1 sp m where start: "fs_create_directories env (ob_root ob) h = (True, h1)"
    "StoragePersistency_new env (ob_root ob) h1 = (sp, h')" "sv_sessions (ob_server ob) = []"
    "sv_storage (ob_server ob) = BoundedObjectStorage_new_persistent h' sp m"
    by (rule main_setup_started [OF assms(1)])
  have "fs_inv env (ob_root ob) h1" using root_created [OF assms(2,3) start(1)] by simp
  then have "sp_inv sp" using scan_new [OF assms(2) _ start(2)] by simp
  then have "bdisk_any.outer.net.server_ok (ob_server ob)"
    by (simp add: bdisk_any.outer.net.server_ok_def start(3,4) bounded_guard_inv_def bounded_persistent_index)
  from bdisk_any.outer.net.server_run_ok [OF assms(4) [unfolded obsto_hvt_def] this]
  have "b_index_ok (sv_storage v)" "b_maxBytes (sv_storage v) = b_maxBytes (sv_storage (ob_server ob))"
    by (auto simp: bdisk_any.outer.net.server_ok_def bounded_guard_defs)
  then show ?thesis using bidx.total_sum by (simp add: sizes_def)
qed

lemma path_d: "path_of ''/d'' = d_root"
  by code_simp

lemma plain_listens [simp]: "env_listens plain_env p"
  by (simp add: plain_env_def)

lemma d_created: "fs_create_directories plain_env d_root d_host = (True, d_host)"
  by (simp add: fs_create_directories_def d_root_def fs_status_def fs_resolve_def node_at_def d_host_def
      plain_env_def)

text \<open>A started server, for the examples.\<close>

lemma d_started:
  assumes "n < 2 ^ 64"
  obtains ob h s where "main_setup plain_env [''obsto'', ''-c'', to_string n, ''-P'', ''/d''] d_host = (Inr ob, h)"
    "ob_root ob = d_root" "ob_server ob = \<lparr>sv_sessions = [], sv_storage = s\<rparr>"
    "b_maxBytes s = of_nat n * 1024 * 1024"
proof -
  obtain sp h where new: "StoragePersistency_new plain_env d_root d_host = (sp, h)" by fastforce
  let ?s = "BoundedObjectStorage_new_persistent h sp (of_nat n * 1024 * 1024)"
  let ?ob = "\<lparr>ob_root = d_root, ob_port = 8000,
    ob_server = \<lparr>sv_sessions = [], sv_storage = ?s\<rparr> :: (obsto_handler, obsto_storage) server\<rparr>"
  have "main_setup plain_env [''obsto'', ''-c'', to_string n, ''-P'', ''/d''] d_host = (Inr ?ob, h)"
    by (simp add: main_setup_build [OF assms] path_d main_build_def DiskObjectStorage_new_def d_created new)
  from that [OF this] show ?thesis by (simp add: bounded_persistent)
qed

theorem Server_accounting_exact_witness:
  "\<exists>ob h v. main_setup plain_env [''obsto'', ''-c'', to_string 3, ''-P'', ''/d''] d_host = (Inr ob, h) \<and>
     server_run (obsto_hvt plain_env d_root) ProtocolDetectorHandler_new (ob_server ob) (Some v) \<and>
     sv_sessions v \<noteq> [] \<and> b_maxBytes (sv_storage v) = 3 * 2 ^ 20"
proof -
  obtain ob h s where ob: "main_setup plain_env [''obsto'', ''-c'', to_string 3, ''-P'', ''/d''] d_host = (Inr ob, h)"
    "ob_root ob = d_root" "ob_server ob = \<lparr>sv_sessions = [], sv_storage = s\<rparr>"
    "b_maxBytes s = of_nat 3 * 1024 * 1024"
    by (rule d_started [of 3]) simp
  have run: "server_run (obsto_hvt plain_env (ob_root ob)) ProtocolDetectorHandler_new (ob_server ob)
      (Some (rejected_client s))"
    using run_rejected ob(2,3) by simp
  from Server_accounting_exact [OF ob(1) _ _ run] ob run show ?thesis
    by (intro exI [of _ ob] exI [of _ h] exI [of _ "rejected_client s"]) (simp add: rejected_client_def)
qed



end
