(* ===== verification/Net_Properties.thy ===== *)
theory Net_Properties
  imports Net_Safety
begin

text \<open>
  The properties of a session over any protocol handler: at most one operation is pending, a
  rejected connection is only drained, and the idle timer runs only until the first bytes arrive.
\<close>

text \<open>Steps of one session, between which others may change the storage.\<close>

inductive session_run ::
    "('h, 's) handler_vt \<Rightarrow> 'h session \<Rightarrow> 's \<Rightarrow> 'h session \<Rightarrow> 's \<Rightarrow> bool" for hv where
  srun_refl: "session_run hv x s x s"
| srun_step: "session_run hv x s y t \<Longrightarrow> session_step hv y t (Ret z) u \<Longrightarrow> session_run hv x s z u"
| srun_other: "session_run hv x s y t \<Longrightarrow> session_run hv x s y u"

lemmas session_defs =
  Session_onWritten_def Session_onDrained_def Session_onTimer_def Session_readOrDrain_def
  Session_doRead_def Session_drainAndClose_def Session_closeSocket_def cancel_timer_def start_op_def
  end_op_def end_wait_def add_sent_def

text \<open>What a call of \<open>doWrite\<close> leaves pending and which waits there are.\<close>

lemma doWrite_pending:
  assumes "Session_doWrite hv keep x s = Ret y"
  shows "ss_pending y = ss_pending x \<or>
    (\<exists>a. ss_pending y = ss_pending x @ [a] \<and>
      (a = AsyncRead \<longrightarrow> keep) \<and> (\<forall>b k. a = AsyncWrite b k \<longrightarrow> k = keep) \<and> (\<forall>k. a = AsyncPost k \<longrightarrow> k = keep))"
    and "WaitArmed \<in> set (ss_waits y) \<Longrightarrow> WaitArmed \<in> set (ss_waits x)"
  using assms
  by (auto simp: Session_doWrite_def session_defs cancel_wait_def Let_def
      split: outcome.splits prod.splits if_splits timer_wait.splits)

lemma cancel_wait_not_armed [simp]: "cancel_wait w \<noteq> WaitArmed" "WaitArmed \<noteq> cancel_wait w"
  by (simp_all add: cancel_wait_def split: timer_wait.split)

lemma onRead_pending:
  assumes "Session_onRead hv d x s = (Ret y, t)"
  shows "ss_pending y = ss_pending x \<or> (\<exists>a. ss_pending y = ss_pending x @ [a])"
    and "WaitArmed \<notin> set (ss_waits y)"
proof -
  have c: "WaitArmed \<notin> set (map cancel_wait ws)" for ws
    by auto
  have "(ss_pending y = ss_pending x \<or> (\<exists>a. ss_pending y = ss_pending x @ [a])) \<and>
    WaitArmed \<notin> set (ss_waits y)"
  proof (cases d)
    case None
    with assms c show ?thesis by (auto simp: Session_onRead_def session_defs)
  next
    case (Some data)
    obtain r h u where r: "hv_onBytesReceived hv data (ss_handler (cancel_timer x)) s = (r, h, u)"
      by (rule prod_cases3)
    have "ss_pending (cancel_timer x\<lparr>ss_handler := h\<rparr>) = ss_pending x"
      "WaitArmed \<notin> set (ss_waits (cancel_timer x\<lparr>ss_handler := h\<rparr>))"
      using c by (simp_all add: cancel_timer_def)
    then show ?thesis
      using assms r c doWrite_pending [of hv _ "cancel_timer x\<lparr>ss_handler := h\<rparr>" u y]
      by (cases r) (auto simp: Session_onRead_def Some Session_closeSocket_def cancel_timer_def)
  qed
  then show "ss_pending y = ss_pending x \<or> (\<exists>a. ss_pending y = ss_pending x @ [a])"
    "WaitArmed \<notin> set (ss_waits y)" by blast+
qed

section \<open>One operation at a time\<close>

lemma pending_after:
  assumes "a \<in> set (ss_pending x)" "length (ss_pending x) \<le> 1"
  shows "ss_pending (end_op a x) = []"
  using assms by (cases "ss_pending x") (auto simp: end_op_def)

lemma session_step_pending:
  assumes "session_step hv x s r t" "r = Ret y" "length (ss_pending x) \<le> 1"
  shows "length (ss_pending y) \<le> 1"
  using assms
proof (induction rule: session_step.induct)
  case (read x data s r s')
  with pending_after [OF read.hyps(1)] onRead_pending(1) [of hv "Some data" "end_op AsyncRead x" s y s']
  show ?case by auto
next
  case (read_error x s r s')
  with pending_after [OF read_error.hyps(1)] onRead_pending(1) [of hv None "end_op AsyncRead x" s y s']
  show ?case by auto
next
  case (written b k x s)
  let ?x = "add_sent b (end_op (AsyncWrite b k) x)"
  have none: "ss_pending ?x = []"
    using pending_after [OF written.hyps] written.prems(2) by (simp add: add_sent_def)
  show ?case
  proof (cases "hv_hasMoreToSend hv (ss_handler ?x)")
    case True
    with written.prems(1) have "Session_doWrite hv k ?x s = Ret y" by (simp add: Session_onWritten_def)
    from doWrite_pending(1) [OF this] none show ?thesis by auto
  next
    case False
    with written.prems(1) none show ?thesis by (auto simp: session_defs split: if_splits)
  qed
next
  case (write_error b k x s n)
  with pending_after [OF write_error.hyps] show ?case by (auto simp: Session_onWritten_def cancel_timer_def add_sent_def)
next
  case (posted k x s)
  with doWrite_pending(1) [of hv k "end_op (AsyncPost k) x" s y] pending_after [OF posted.hyps]
  show ?case by auto
next
  case (drained x s ok)
  with pending_after [OF drained.hyps] show ?case
    by (cases ok) (auto simp: Session_onDrained_def Session_drainAndClose_def start_op_def end_op_def)
qed (auto simp: Session_onTimer_def Session_closeSocket_def end_wait_def)

text \<open>C16.
  A session has at most one operation pending at any time, whatever its handler does and in whichever
  order operations complete: the read buffer is never filled while its contents are in use, and no
  two writes of a connection overlap.\<close>

theorem Session_one_operation:
  assumes "server_run hv handler v (Some v')" "sv_sessions v = []" "x \<in> set (sv_sessions v')"
  shows "length (ss_pending x) \<le> 1"
proof -
  have "\<forall>v'. r = Some v' \<longrightarrow> (\<forall>x\<in>set (sv_sessions v'). length (ss_pending x) \<le> 1)"
    if "server_run hv handler v r" for r
    using that assms(2)
  proof (induction rule: server_run.induct)
    case (run_step v v' v'')
    then have all: "\<forall>x\<in>set (sv_sessions v'). length (ss_pending x) \<le> 1" by simp
    from run_step.hyps(2) show ?case
    proof cases
      case accept
      with all show ?thesis
        by (auto simp: Server_accept_def Session_start_def Session_new_def Session_doRead_def
            Session_armIdleTimer_def cancel_timer_def start_op_def Let_def)
    next
      case accept_error
      with all show ?thesis by simp
    next
      case (session i x s)
      then have "length (ss_pending x) \<le> 1"
        using session_step_pending [OF session(3) refl] all by simp
      with session(1) all show ?thesis by (auto dest!: set_update_subset_insert [THEN subsetD])
    qed simp
  qed simp
  with assms(1,3) show ?thesis by blast
qed

text \<open>A session of the protocol detector over the in-memory storage, for the examples.\<close>

definition mem_hvt :: "((unit, unit) detector, object_storage) handler_vt" where
  "mem_hvt = ProtocolDetectorHandler_hvt ObjectStorage_vt None"

definition mem_server :: "((unit, unit) detector, object_storage) server" where
  "mem_server = \<lparr>sv_sessions = [], sv_storage = ObjectStorage_init\<rparr>"

lemma mem_accepted:
  "server_run mem_hvt ProtocolDetectorHandler_new mem_server
     (Some (Server_accept ProtocolDetectorHandler_new mem_server))"
  by (rule server_run.run_step [OF server_run.run_refl server_step.accept])

theorem Session_one_operation_witness:
  "length (ss_pending (sv_sessions (Server_accept (ProtocolDetectorHandler_new :: (unit, unit) detector) mem_server) ! 0)) \<le> 1"
  by (rule Session_one_operation [OF mem_accepted]) (simp_all add: mem_server_def Server_accept_def)

section \<open>The idle timer\<close>

lemma session_step_timer:
  assumes "session_step hv x s r t" "r = Ret y" "WaitArmed \<notin> set (ss_waits x)"
  shows "WaitArmed \<notin> set (ss_waits y)"
  using assms
proof (induction rule: session_step.induct)
  case (read x data s r s')
  then show ?case using onRead_pending(2) [of hv "Some data" "end_op AsyncRead x" s y s'] by simp
next
  case (read_error x s r s')
  then show ?case using onRead_pending(2) [of hv None "end_op AsyncRead x" s y s'] by simp
next
  case (written b k x s)
  let ?x = "add_sent b (end_op (AsyncWrite b k) x)"
  have x: "WaitArmed \<notin> set (ss_waits ?x)" using written.prems(2) by (simp add: add_sent_def end_op_def)
  show ?case
  proof (cases "hv_hasMoreToSend hv (ss_handler ?x)")
    case True
    with written.prems(1) have "Session_doWrite hv k ?x s = Ret y" by (simp add: Session_onWritten_def)
    from doWrite_pending(2) [OF this] x show ?thesis by blast
  next
    case False
    with written.prems(1) x show ?thesis by (auto simp: session_defs split: if_splits)
  qed
next
  case (write_error b k x s n)
  then show ?case by (auto simp: session_defs)
next
  case (posted k x s)
  have "WaitArmed \<notin> set (ss_waits (end_op (AsyncPost k) x))" using posted.prems(2) by (simp add: end_op_def)
  with doWrite_pending(2) [OF posted.prems(1)] show ?case by blast
next
  case (timer x s)
  then show ?case by (auto simp: session_defs dest: notin_set_remove1)
next
  case (timer_cancelled x s)
  then show ?case by (auto simp: session_defs dest: notin_set_remove1)
next
  case (drained x s ok)
  then show ?case by (cases ok) (auto simp: session_defs)
qed (auto simp: session_defs)

text \<open>C40.
  The idle timer watches a connection only until its first bytes arrive: after a read it is never
  armed again, so that from then on no timer ever closes the connection, however long the client
  stays silent.\<close>

theorem Session_idle_timer_off:
  assumes "Session_onRead hv (Some data) x s = (Ret y, t)" "session_run hv y t z u"
  shows "WaitArmed \<notin> set (ss_waits z)"
  using assms(2) onRead_pending(2) [OF assms(1)]
proof (induction rule: session_run.induct)
  case (srun_step x s y t z u)
  with session_step_timer [OF srun_step.hyps(2) refl] show ?case by blast
qed

theorem Session_idle_timer_off_witness:
  "\<exists>y. Session_onRead mem_hvt (Some ''P'') (end_op AsyncRead (Session_start (Session_new ProtocolDetectorHandler_new)))
       ObjectStorage_init = (Ret y, ObjectStorage_init) \<and>
     ss_pending y = [AsyncRead] \<and> ss_open y \<and> WaitArmed \<notin> set (ss_waits y)"
proof -
  let ?d = "ProtocolDetectorHandler_new :: (unit, unit) detector"
  let ?y = "\<lparr>ss_handler = ?d, ss_open = True, ss_sendOpen = True, ss_pending = [AsyncRead],
    ss_waits = [WaitCancelled], ss_sent = []\<rparr>"
  have more: "isHttp ''P'' = HttpNeedMoreData" by code_simp
  have "Session_onRead mem_hvt (Some ''P'') (end_op AsyncRead (Session_start (Session_new ?d)))
      ObjectStorage_init = (Ret ?y, ObjectStorage_init)"
    by (simp add: Session_onRead_def mem_hvt_def pd_onBytesReceived_def ProtocolDetectorHandler_new_def
        isRespPrefix_def more Session_doWrite_def pd_takeOutgoingBytes_def pd_hasMoreToSend_def
        Session_start_def Session_new_def Session_armIdleTimer_def cancel_wait_def session_defs Let_def)
  from Session_idle_timer_off [OF this session_run.srun_refl] this show ?thesis by auto
qed

section \<open>A rejected connection\<close>

definition closing :: "'h session \<Rightarrow> bool" where
  "closing x \<longleftrightarrow>
     (\<forall>a\<in>set (ss_pending x). a = AsyncDrain \<or> a = AsyncPost False \<or> (\<exists>b. a = AsyncWrite b False))"

lemma closing_doWrite:
  assumes "Session_doWrite hv False x s = Ret y" "closing x"
  shows "closing y"
  using assms
  by (auto simp: Session_doWrite_def session_defs closing_def Let_def
      split: outcome.splits prod.splits if_splits)

lemma closing_step:
  assumes "session_step hv x s r t" "closing x"
  shows "t = s \<and> (\<forall>y. r = Ret y \<longrightarrow> closing y)"
  using assms
proof (induction rule: session_step.induct)
  case (written b k x s)
  then have k: "k = False" by (auto simp: closing_def)
  have x: "closing (add_sent b (end_op (AsyncWrite b k) x))"
    using written.prems by (auto simp: closing_def session_defs dest: notin_set_remove1)
  let ?x = "add_sent b (end_op (AsyncWrite b k) x)"
  show ?case
  proof (cases "hv_hasMoreToSend hv (ss_handler ?x)")
    case True
    then have "Session_onWritten hv True k ?x s = Session_doWrite hv False ?x s"
      by (simp add: Session_onWritten_def k)
    then show ?thesis using closing_doWrite [OF _ x, of hv s] by (metis)
  next
    case False
    then have "Session_onWritten hv True k ?x s = Ret (Session_drainAndClose (cancel_timer ?x))"
      by (simp add: Session_onWritten_def Session_readOrDrain_def k)
    moreover have "closing (Session_drainAndClose (cancel_timer ?x))"
      using x by (simp add: closing_def Session_drainAndClose_def cancel_timer_def start_op_def)
    ultimately show ?thesis by simp
  qed
next
  case (write_error b k x s n)
  then show ?case by (auto simp: closing_def session_defs dest: notin_set_remove1)
next
  case (posted k x s)
  then have k: "k = False" by (auto simp: closing_def)
  have "closing (end_op (AsyncPost k) x)"
    using posted.prems by (auto simp: closing_def session_defs dest: notin_set_remove1)
  then show ?case using closing_doWrite k by auto
next
  case (drained x s ok)
  then show ?case by (auto simp: closing_def session_defs dest: notin_set_remove1)
qed (auto simp: closing_def session_defs)

text \<open>C15.
  Once the handler has rejected the input, the connection is only drained: no further bytes reach
  the handler, and no step of the session changes the storage any more.\<close>

theorem Session_rejected_is_final:
  assumes "hv_onBytesReceived hv data (ss_handler x) s = (Ret False, h, t)" "ss_pending x = []"
    and "Session_onRead hv (Some data) x s = (Ret y, t)" "session_run hv y t z u"
    and "session_step hv z u r v"
  shows "AsyncRead \<notin> set (ss_pending z) \<and> v = u"
proof -
  have "Session_doWrite hv False (cancel_timer x\<lparr>ss_handler := h\<rparr>) t = Ret y"
    using assms(1,3) by (simp add: Session_onRead_def cancel_timer_def)
  moreover have "closing (cancel_timer x\<lparr>ss_handler := h\<rparr>)"
    using assms(2) by (simp add: closing_def cancel_timer_def)
  ultimately have y: "closing y" by (rule closing_doWrite)
  have "closing z"
    using assms(4) y
  proof (induction rule: session_run.induct)
    case (srun_step x s y t z u)
    with closing_step [OF srun_step.hyps(2)] show ?case by simp
  qed
  with closing_step [OF assms(5)] show ?thesis by (auto simp: closing_def)
qed

theorem Session_rejected_is_final_witness:
  "\<exists>y. Session_onRead mem_hvt (Some ''x'') (Session_new ProtocolDetectorHandler_new) ObjectStorage_init =
       (Ret y, ObjectStorage_init) \<and> AsyncRead \<notin> set (ss_pending y) \<and> AsyncDrain \<in> set (ss_pending y)"
proof -
  let ?d = "ProtocolDetectorHandler_new :: (unit, unit) detector"
  let ?y = "\<lparr>ss_handler = ?d, ss_open = True, ss_sendOpen = False, ss_pending = [AsyncDrain],
    ss_waits = [], ss_sent = []\<rparr>"
  have none: "isHttp ''x'' = HttpNoMatch" by code_simp
  have r: "hv_onBytesReceived mem_hvt ''x'' (ss_handler (Session_new ?d)) ObjectStorage_init =
      (Ret False, ?d, ObjectStorage_init)"
    by (simp add: mem_hvt_def pd_onBytesReceived_def ProtocolDetectorHandler_new_def isRespPrefix_def none
        Session_new_def)
  have y: "Session_onRead mem_hvt (Some ''x'') (Session_new ?d) ObjectStorage_init = (Ret ?y, ObjectStorage_init)"
    using r
    by (simp add: Session_onRead_def mem_hvt_def Session_doWrite_def pd_takeOutgoingBytes_def
        pd_hasMoreToSend_def Session_new_def ProtocolDetectorHandler_new_def session_defs Let_def)
  have "session_step mem_hvt ?y ObjectStorage_init (Ret (Session_onDrained False (end_op AsyncDrain ?y))) ObjectStorage_init"
    by (rule session_step.drained) simp
  from Session_rejected_is_final [OF r _ y session_run.srun_refl this] y show ?thesis
    by (auto simp: Session_new_def)
qed

end
