(* ===== verification/Session_Exchange.thy ===== *)
theory Session_Exchange
  imports Net_Properties
begin

text \<open>
  A session whose operations all succeed: the client sends its reads, and after each of them the
  session sends what the handler has for it before it reads again. The functions here are one
  schedule of the step relation, so that what they reach is reached by the server.
\<close>

section \<open>What a handler gives out\<close>

text \<open>The bytes a handler gives until it has no more to send, in at most \<open>n\<close> calls.\<close>

fun hv_drain :: "('h, 's) handler_vt \<Rightarrow> nat \<Rightarrow> 'h \<Rightarrow> 's \<Rightarrow> (bytes \<times> 'h) option" where
  "hv_drain hv 0 h s = None"
| "hv_drain hv (Suc n) h s =
     (case hv_takeOutgoingBytes hv h s of
        (Ret b, h') \<Rightarrow>
          if hv_hasMoreToSend hv h'
          then map_option (\<lambda>(b', h''). (b @ b', h'')) (hv_drain hv n h' s)
          else Some (b, h')
      | _ \<Rightarrow> None)"

text \<open>
  \<open>gives h b k s\<close>: the handler \<open>h\<close> has the bytes \<open>b\<close> to give and is \<open>k\<close> then. While it has more to
  send it never gives an empty piece, so that the loop of the session ends.
\<close>

locale sending =
  fixes hv :: "('h, 's) handler_vt" and gives :: "'h \<Rightarrow> bytes \<Rightarrow> 'h \<Rightarrow> 's \<Rightarrow> bool"
  assumes take_gives: "gives h b k s \<Longrightarrow> \<exists>c h'. hv_takeOutgoingBytes hv h s = (Ret c, h') \<and>
      (if hv_hasMoreToSend hv h' then c \<noteq> [] \<and> (\<exists>b'. b = c @ b' \<and> gives h' b' k s)
       else b = c \<and> h' = k)"
begin

lemma drain_gives:
  assumes "gives h b k s" "length b < n"
  shows "hv_drain hv n h s = Some (b, k)"
  using assms
proof (induction n arbitrary: h b)
  case (Suc n)
  from take_gives [OF Suc.prems(1)] obtain c h' where t: "hv_takeOutgoingBytes hv h s = (Ret c, h')"
    "if hv_hasMoreToSend hv h' then c \<noteq> [] \<and> (\<exists>b'. b = c @ b' \<and> gives h' b' k s) else b = c \<and> h' = k"
    by blast
  show ?case
  proof (cases "hv_hasMoreToSend hv h'")
    case True
    with t(2) obtain b' where b': "c \<noteq> []" "b = c @ b'" "gives h' b' k s" by auto
    then have "length b' < n" using Suc.prems(2) by (cases c) auto
    from Suc.IH [OF b'(3) this] show ?thesis by (simp add: t(1) True b'(2))
  qed (use t in simp)
qed simp

end

section \<open>Sending all of it\<close>

text \<open>Every write completes, and every posted call is run, until the session reads or drains.\<close>

fun session_flush :: "('h, 's) handler_vt \<Rightarrow> nat \<Rightarrow> 'h session \<Rightarrow> 's \<Rightarrow> 'h session option" where
  "session_flush hv 0 x s = None"
| "session_flush hv (Suc n) x s =
     (case ss_pending x of
        AsyncWrite b k # _ \<Rightarrow>
          (case Session_onWritten hv True k (add_sent b (end_op (AsyncWrite b k) x)) s of
             Ret y \<Rightarrow> session_flush hv n y s
           | _ \<Rightarrow> None)
      | AsyncPost k # _ \<Rightarrow>
          (case Session_doWrite hv k (end_op (AsyncPost k) x) s of
             Ret y \<Rightarrow> session_flush hv n y s
           | _ \<Rightarrow> None)
      | _ \<Rightarrow> Some x)"

lemma session_run_cons:
  assumes "session_run hv y t z u" "session_step hv x s (Ret y) t"
  shows "session_run hv x s z u"
  using assms
proof (induction rule: session_run.induct)
  case (srun_refl y t)
  then show ?case by (rule session_run.srun_step [OF session_run.srun_refl])
next
  case (srun_step y t y' t' z u)
  show ?case by (rule session_run.srun_step [OF srun_step.IH [OF srun_step.prems] srun_step.hyps(2)])
next
  case (srun_other y t y' t' u)
  show ?case by (rule session_run.srun_other [OF srun_other.IH [OF srun_other.prems]])
qed

lemma session_run_trans:
  assumes "session_run hv y t z u" "session_run hv x s y t"
  shows "session_run hv x s z u"
  using assms
proof (induction rule: session_run.induct)
  case (srun_step y t y' t' z u)
  show ?case by (rule session_run.srun_step [OF srun_step.IH [OF srun_step.prems] srun_step.hyps(2)])
next
  case (srun_other y t y' t' u)
  show ?case by (rule session_run.srun_other [OF srun_other.IH [OF srun_other.prems]])
qed

lemma session_flush_run:
  assumes "session_flush hv n x s = Some z"
  shows "session_run hv x s z s"
  using assms
proof (induction n arbitrary: x)
  case (Suc n)
  show ?case
  proof (cases "ss_pending x")
    case Nil
    with Suc.prems show ?thesis by (simp add: session_run.srun_refl)
  next
    case (Cons a as)
    show ?thesis
    proof (cases a)
      case (AsyncWrite b k)
      with Cons have "AsyncWrite b k \<in> set (ss_pending x)" by simp
      from session_step.written [OF this, of hv s] Suc.prems Cons AsyncWrite Suc.IH show ?thesis
        by (auto split: outcome.splits intro: session_run_cons)
    next
      case (AsyncPost k)
      with Cons have "AsyncPost k \<in> set (ss_pending x)" by simp
      from session_step.posted [OF this, of hv s] Suc.prems Cons AsyncPost Suc.IH show ?thesis
        by (auto split: outcome.splits intro: session_run_cons)
    qed (use Suc.prems Cons session_run.srun_refl in auto)
  qed
qed simp

lemma end_start_op: "ss_pending x = [] \<Longrightarrow> end_op a (start_op a x) = x"
  by (simp add: end_op_def start_op_def)

text \<open>
  One call of \<open>doWrite\<close> and the completion it waits for: what the handler gave is sent, and the session
  goes on writing or, with nothing more to send, reading or draining.
\<close>

lemma doWrite_step:
  assumes take: "hv_takeOutgoingBytes hv (ss_handler x) s = (Ret out, k)" and "ss_pending x = []"
  defines "x' \<equiv> add_sent out (x\<lparr>ss_handler := k\<rparr>)"
  shows "\<exists>y. Session_doWrite hv keep x s = Ret y \<and>
    (if hv_hasMoreToSend hv k
     then \<forall>z n. Session_doWrite hv keep x' s = Ret z \<longrightarrow> session_flush hv (Suc n) y s = session_flush hv n z s
     else \<forall>n. session_flush hv (Suc (Suc n)) y s = Some (Session_readOrDrain keep x'))"
proof -
  let ?k = "x\<lparr>ss_handler := k\<rparr>" and ?last = "Session_readOrDrain keep x'"
  have x': "ss_handler x' = k" "ss_pending x' = []" using assms(2) by (simp_all add: x'_def add_sent_def)
  have last: "session_flush hv (Suc n) ?last s = Some ?last" for n using x'(2) by (simp add: session_defs)
  have w: "add_sent out (end_op (AsyncWrite out keep) (start_op (AsyncWrite out keep) ?k)) = x'"
    using assms(2) by (simp add: end_start_op x'_def)
  show ?thesis
  proof (cases "out = []")
    case True
    then have post: "end_op (AsyncPost keep) (start_op (AsyncPost keep) ?k) = x'" and x'_k: "x' = ?k"
      using assms(2) by (simp_all add: end_start_op x'_def add_sent_def)
    show ?thesis
    proof (cases "hv_hasMoreToSend hv k")
      case more: True
      have "session_flush hv (Suc n) (start_op (AsyncPost keep) ?k) s = session_flush hv n z s"
        if "Session_doWrite hv keep x' s = Ret z" for z n
        using that post assms(2) by (simp add: start_op_def)
      with more True show ?thesis by (simp add: Session_doWrite_def take del: session_flush.simps)
    next
      case False
      with True last x'_k show ?thesis by (simp add: Session_doWrite_def take del: session_flush.simps)
    qed
  next
    case False
    have "session_flush hv (Suc n) (start_op (AsyncWrite out keep) ?k) s =
        (case Session_onWritten hv True keep x' s of Ret y \<Rightarrow> session_flush hv n y s | _ \<Rightarrow> None)" for n
      using w assms(2) by (simp add: start_op_def)
    moreover have "Session_onWritten hv True keep x' s =
        (if hv_hasMoreToSend hv k then Session_doWrite hv keep x' s else Ret ?last)"
      by (simp add: Session_onWritten_def x'(1))
    ultimately show ?thesis
      using False last by (simp add: Session_doWrite_def take del: session_flush.simps)
  qed
qed

text \<open>What is drained from the handler is sent, and the session reads on, or drains.\<close>

lemma doWrite_flush:
  assumes "hv_drain hv n (ss_handler x) s = Some (b, h)" "ss_pending x = []"
  shows "\<exists>y z. Session_doWrite hv keep x s = Ret y \<and> session_flush hv (Suc n) y s = Some z \<and>
    ss_handler z = h \<and> ss_sent z = ss_sent x @ b \<and> ss_open z = ss_open x \<and>
    ss_pending z = [if keep then AsyncRead else AsyncDrain]"
  using assms
proof (induction n arbitrary: x b)
  case (Suc n)
  obtain out k where k: "hv_takeOutgoingBytes hv (ss_handler x) s = (Ret out, k)"
    using Suc.prems(1) by (auto split: prod.splits outcome.splits)
  let ?x = "add_sent out (x\<lparr>ss_handler := k\<rparr>)"
  have x: "ss_handler ?x = k" "ss_pending ?x = []" "ss_sent ?x = ss_sent x @ out" "ss_open ?x = ss_open x"
    using Suc.prems(2) by (simp_all add: add_sent_def)
  from doWrite_step [OF k Suc.prems(2), of keep] obtain y where y: "Session_doWrite hv keep x s = Ret y"
    and flush: "if hv_hasMoreToSend hv k
      then \<forall>z n. Session_doWrite hv keep ?x s = Ret z \<longrightarrow> session_flush hv (Suc n) y s = session_flush hv n z s
      else \<forall>n. session_flush hv (Suc (Suc n)) y s = Some (Session_readOrDrain keep ?x)" by blast
  show ?case
  proof (cases "hv_hasMoreToSend hv k")
    case False
    then have "b = out" "h = k" using Suc.prems(1) by (simp_all add: k)
    moreover have "session_flush hv (Suc (Suc n)) y s = Some (Session_readOrDrain keep ?x)"
      using flush False by presburger
    ultimately show ?thesis using y x by (simp add: session_defs del: session_flush.simps)
  next
    case True
    then obtain b' where b': "hv_drain hv n (ss_handler ?x) s = Some (b', h)" "b = out @ b'"
      using Suc.prems(1) x(1) by (auto simp: k)
    from Suc.IH [OF b'(1) x(2)] obtain y' z where "Session_doWrite hv keep ?x s = Ret y'"
      "session_flush hv (Suc n) y' s = Some z" and z: "ss_handler z = h" "ss_sent z = ss_sent x @ b"
        "ss_open z = ss_open x" "ss_pending z = [if keep then AsyncRead else AsyncDrain]"
      using x(3,4) b'(2) by auto
    then have "session_flush hv (Suc (Suc n)) y s = Some z" using flush True by (simp del: session_flush.simps)
    with y z show ?thesis by blast
  qed
qed simp

section \<open>Reads one after the other\<close>

text \<open>The session gets the reads \<open>ds\<close>, each when it has sent what it had after the one before.\<close>

fun session_serve ::
    "('h, 's) handler_vt \<Rightarrow> nat \<Rightarrow> bytes list \<Rightarrow> 'h session \<Rightarrow> 's \<Rightarrow> ('h session \<times> 's) option" where
  "session_serve hv n [] x s = Some (x, s)"
| "session_serve hv n (d # ds) x s =
     (if AsyncRead \<notin> set (ss_pending x) then None
      else
        (case Session_onRead hv (Some d) (end_op AsyncRead x) s of
           (Ret y, s') \<Rightarrow>
             (case session_flush hv n y s' of
                Some z \<Rightarrow> session_serve hv n ds z s'
              | None \<Rightarrow> None)
         | _ \<Rightarrow> None))"

lemma session_serve_run:
  assumes "session_serve hv n ds x s = Some (z, t)"
    and "\<forall>d\<in>set ds. 0 < length d \<and> length d \<le> kReadBufferSize"
  shows "session_run hv x s z t"
  using assms
proof (induction ds arbitrary: x s)
  case Nil
  then show ?case by (simp add: session_run.srun_refl)
next
  case (Cons d ds)
  from Cons.prems(1) obtain y s' u where pending: "AsyncRead \<in> set (ss_pending x)"
    and r: "Session_onRead hv (Some d) (end_op AsyncRead x) s = (Ret y, s')"
    and u: "session_flush hv n y s' = Some u" "session_serve hv n ds u s' = Some (z, t)"
    by (auto split: if_splits prod.splits outcome.splits option.splits)
  have step: "session_step hv x s (Ret y) s'"
    using Cons.prems(2) by (intro session_step.read [OF pending _ _ r]) auto
  have "session_run hv u s' z t" using Cons.IH [OF u(2)] Cons.prems(2) by simp
  from session_run_cons [OF session_run_trans [OF this session_flush_run [OF u(1)]] step]
  show ?case .
qed

text \<open>The same for the handler alone, with the bytes it gave out.\<close>

fun hv_serve ::
    "('h, 's) handler_vt \<Rightarrow> nat \<Rightarrow> bytes list \<Rightarrow> 'h \<Rightarrow> 's \<Rightarrow> (bytes \<times> 'h \<times> 's) option" where
  "hv_serve hv n [] h s = Some ([], h, s)"
| "hv_serve hv n (d # ds) h s =
     (case hv_onBytesReceived hv d h s of
        (Ret True, h1, s1) \<Rightarrow>
          (case hv_drain hv n h1 s1 of
             Some (b, h2) \<Rightarrow> map_option (\<lambda>(b', h', s'). (b @ b', h', s')) (hv_serve hv n ds h2 s1)
           | None \<Rightarrow> None)
      | _ \<Rightarrow> None)"

lemma hv_serve_Cons:
  assumes "hv_onBytesReceived hv d h s = (Ret True, h1, s1)" "hv_drain hv n h1 s1 = Some (b, h2)"
    and "hv_serve hv n ds h2 s1 = Some (b', k, t)"
  shows "hv_serve hv n (d # ds) h s = Some (b @ b', k, t)"
  using assms by simp

lemma hv_serve_ConsE:
  assumes "hv_serve hv n (d # ds) h s = Some r"
  obtains h1 s1 b h2 b' k t where "hv_onBytesReceived hv d h s = (Ret True, h1, s1)"
    "hv_drain hv n h1 s1 = Some (b, h2)" "hv_serve hv n ds h2 s1 = Some (b', k, t)" "r = (b @ b', k, t)"
proof -
  obtain o1 h1 s1 where d: "hv_onBytesReceived hv d h s = (o1, h1, s1)" by (rule prod_cases3)
  with assms have o1: "o1 = Ret True" by (cases o1; simp split: bool.splits)
  obtain x where x: "hv_drain hv n h1 s1 = Some x"
    using assms d o1 by (cases "hv_drain hv n h1 s1") simp_all
  obtain b h2 where bh: "x = (b, h2)" by fastforce
  obtain y where y: "hv_serve hv n ds h2 s1 = Some y" "r = (case y of (b', k, t) \<Rightarrow> (b @ b', k, t))"
    using assms d o1 x bh by (cases "hv_serve hv n ds h2 s1") simp_all
  obtain b' k t where "y = (b', k, t)" by (rule prod_cases3)
  with d o1 x bh y show ?thesis by (intro that) simp_all
qed

lemma hv_serve_append:
  assumes "hv_serve hv n ds h s = Some (b, h', s')" "hv_serve hv n es h' s' = Some (c, k, t)"
  shows "hv_serve hv n (ds @ es) h s = Some (b @ c, k, t)"
  using assms(1)
proof (induction ds arbitrary: h s b)
  case (Cons d ds)
  from Cons.prems obtain h1 s1 b1 h2 b2 where d: "hv_onBytesReceived hv d h s = (Ret True, h1, s1)"
    "hv_drain hv n h1 s1 = Some (b1, h2)" "hv_serve hv n ds h2 s1 = Some (b2, h', s')" "b = b1 @ b2"
    by (elim hv_serve_ConsE) simp
  from hv_serve_Cons [OF d(1,2) Cons.IH [OF d(3)]] d(4) show ?case by simp
qed (use assms(2) in simp)

lemma hv_drain_mono:
  assumes "hv_drain hv n h s = Some r" "n \<le> m"
  shows "hv_drain hv m h s = Some r"
  using assms
proof (induction n arbitrary: h r m)
  case (Suc n)
  obtain k where m: "m = Suc k" "n \<le> k" using Suc.prems(2) by (cases m) auto
  obtain c h' where t: "hv_takeOutgoingBytes hv h s = (Ret c, h')"
    using Suc.prems(1) by (auto split: prod.splits outcome.splits)
  show ?case
  proof (cases "hv_hasMoreToSend hv h'")
    case True
    then obtain b' k' where b': "hv_drain hv n h' s = Some (b', k')" "r = (c @ b', k')"
      using Suc.prems(1) by (auto simp: t)
    from Suc.IH [OF b'(1) m(2)] show ?thesis by (simp add: m(1) t True b'(2))
  qed (use Suc.prems(1) in \<open>simp add: m(1) t\<close>)
qed simp

lemma hv_serve_mono:
  assumes "hv_serve hv n ds h s = Some r" "n \<le> m"
  shows "hv_serve hv m ds h s = Some r"
  using assms(1)
proof (induction ds arbitrary: h s r)
  case (Cons d ds)
  from Cons.prems obtain h1 s1 b h2 b' k t where d: "hv_onBytesReceived hv d h s = (Ret True, h1, s1)"
    "hv_drain hv n h1 s1 = Some (b, h2)" "hv_serve hv n ds h2 s1 = Some (b', k, t)" "r = (b @ b', k, t)"
    by (rule hv_serve_ConsE)
  from hv_serve_Cons [OF d(1) hv_drain_mono [OF d(2) assms(2)] Cons.IH [OF d(3)]] d(4) show ?case by simp
qed simp

text \<open>What the handler gives out, the session sends.\<close>

lemma session_serves:
  assumes "hv_serve hv n ds (ss_handler x) s = Some (b, h, t)" "ss_pending x = [AsyncRead]"
  shows "\<exists>z. session_serve hv (Suc n) ds x s = Some (z, t) \<and> ss_handler z = h \<and>
    ss_sent z = ss_sent x @ b \<and> ss_open z = ss_open x \<and> ss_pending z = [AsyncRead]"
  using assms
proof (induction ds arbitrary: x s b)
  case (Cons d ds)
  from Cons.prems(1) obtain h1 s1 c h2 c' where d: "hv_onBytesReceived hv d (ss_handler x) s = (Ret True, h1, s1)"
    "hv_drain hv n h1 s1 = Some (c, h2)" "hv_serve hv n ds h2 s1 = Some (c', h, t)" "b = c @ c'"
    by (elim hv_serve_ConsE) simp
  let ?x = "cancel_timer (end_op AsyncRead x)\<lparr>ss_handler := h1\<rparr>"
  have x: "ss_handler ?x = h1" "ss_pending ?x = []" "ss_sent ?x = ss_sent x" "ss_open ?x = ss_open x"
    using Cons.prems(2) by (simp_all add: end_op_def cancel_timer_def)
  from doWrite_flush [of hv n ?x s1 c h2 True] d(2) x obtain y z where
    y: "Session_doWrite hv True ?x s1 = Ret y" "session_flush hv (Suc n) y s1 = Some z"
    and z: "ss_handler z = h2" "ss_sent z = ss_sent x @ c" "ss_open z = ss_open x" "ss_pending z = [AsyncRead]"
    by auto
  have "Session_onRead hv (Some d) (end_op AsyncRead x) s = (Ret y, s1)"
    using d(1) y(1) by (simp add: Session_onRead_def cancel_timer_def end_op_def)
  then have "session_serve hv (Suc n) (d # ds) x s = session_serve hv (Suc n) ds z s1"
    using Cons.prems(2) y(2) by simp
  moreover from Cons.IH [of z s1 c'] d(3) z obtain w where "session_serve hv (Suc n) ds z s1 = Some (w, t)"
    "ss_handler w = h" "ss_sent w = ss_sent z @ c'" "ss_open w = ss_open z" "ss_pending w = [AsyncRead]" by auto
  ultimately show ?case using z d(4) by simp
qed simp

text \<open>A storage with no value that a \<open>std::string\<close> cannot hold.\<close>

definition sizes_ok :: "(string \<Rightarrow> bytes option) \<Rightarrow> bool" where
  "sizes_ok m \<longleftrightarrow> (\<forall>k v. m k = Some v \<longrightarrow> str_ok v)"

section \<open>The handlers of the program\<close>

text \<open>The virtual methods of the two protocol handlers.\<close>

definition RespProtocolHandler_hvt ::
    "'s object_vt \<Rightarrow> ('s, 'w, 'r) streaming_vt option \<Rightarrow> (('w, 'r) resp_handler, 's) handler_vt" where
  "RespProtocolHandler_hvt ovt svt =
     \<lparr>hv_onBytesReceived = resp_onBytesReceived ovt svt,
      hv_takeOutgoingBytes = resp_takeOutgoingBytes svt,
      hv_hasMoreToSend = resp_hasMoreToSend\<rparr>"

definition HttpProtocolHandler_hvt ::
    "'s object_vt \<Rightarrow> ('s, 'w, 'r) streaming_vt option \<Rightarrow> (('w, 'r) http_handler, 's) handler_vt" where
  "HttpProtocolHandler_hvt ovt svt =
     \<lparr>hv_onBytesReceived = http_onBytesReceived ovt svt,
      hv_takeOutgoingBytes = http_takeOutgoingBytes svt,
      hv_hasMoreToSend = http_hasMoreToSend\<rparr>"

lemma protocol_hvt_simps [simp, obsto_vt]:
  "hv_onBytesReceived (RespProtocolHandler_hvt ovt svt) = resp_onBytesReceived ovt svt"
  "hv_takeOutgoingBytes (RespProtocolHandler_hvt ovt svt) = resp_takeOutgoingBytes svt"
  "hv_hasMoreToSend (RespProtocolHandler_hvt ovt svt) = resp_hasMoreToSend"
  "hv_onBytesReceived (HttpProtocolHandler_hvt ovt svt) = http_onBytesReceived ovt svt"
  "hv_takeOutgoingBytes (HttpProtocolHandler_hvt ovt svt) = http_takeOutgoingBytes svt"
  "hv_hasMoreToSend (HttpProtocolHandler_hvt ovt svt) = http_hasMoreToSend"
  by (simp_all add: RespProtocolHandler_hvt_def HttpProtocolHandler_hvt_def)

text \<open>What is still to come out of a RESP and of an HTTP handler, and the handler then.\<close>

definition resp_gives :: "('r \<Rightarrow> bytes \<Rightarrow> 's \<Rightarrow> bool) \<Rightarrow> ('w, 'r) resp_handler \<Rightarrow> bytes \<Rightarrow> ('w, 'r) resp_handler
    \<Rightarrow> 's \<Rightarrow> bool" where
  "resp_gives downloads h b k s \<longleftrightarrow>
     (if rh_streamingRead h
      then \<exists>r d. rh_activeReadSession h = Some r \<and> downloads r d s \<and> b = rh_outgoingBuffer h @ d @ crlf \<and>
             k = h\<lparr>rh_outgoingBuffer := [], rh_streamingRead := False, rh_activeReadSession := None\<rparr>
      else b = rh_outgoingBuffer h \<and> k = h\<lparr>rh_outgoingBuffer := []\<rparr>)"

definition http_gives :: "('r \<Rightarrow> bytes \<Rightarrow> 's \<Rightarrow> bool) \<Rightarrow> ('w, 'r) http_handler \<Rightarrow> bytes \<Rightarrow> ('w, 'r) http_handler
    \<Rightarrow> 's \<Rightarrow> bool" where
  "http_gives downloads h b k s \<longleftrightarrow>
     (if hh_streamingRead h
      then \<exists>r d. hh_activeReadSession h = Some r \<and> downloads r d s \<and> b = hh_outgoingBuffer h @ d \<and>
             k = h\<lparr>hh_outgoingBuffer := [], hh_streamingRead := False, hh_activeReadSession := None\<rparr>
      else b = hh_outgoingBuffer h \<and> k = h\<lparr>hh_outgoingBuffer := []\<rparr>)"

context download_store
begin

lemma download_chunk:
  assumes "downloads r d s"
  obtains r' where "d = []" "vt_readChunk svt r kReadChunkSize s = (None, r')"
  | c d' r' where "d = c @ d'" "c \<noteq> []" "vt_readChunk svt r kReadChunkSize s = (Some c, r')"
    "downloads r' d' s"
proof (cases "d = []")
  case True
  then have "fst (vt_readChunk svt r kReadChunkSize s) = None"
    using readChunk_end assms by (simp add: kReadChunkSize_def)
  with True that(1) show ?thesis by (metis prod.collapse)
next
  case False
  have pos: "0 < kReadChunkSize" by (simp add: kReadChunkSize_def)
  from readChunk [OF assms False pos] obtain r' where
    "vt_readChunk svt r kReadChunkSize s = (Some (take kReadChunkSize d), r')"
    "downloads r' (drop kReadChunkSize d) s" by blast
  with False pos that(2) [of "take kReadChunkSize d" "drop kReadChunkSize d" r'] show ?thesis by simp
qed

end

sublocale download_store \<subseteq> resp_out: sending "RespProtocolHandler_hvt vt (Some svt)" "resp_gives downloads"
  for vt :: "'s object_vt"
proof unfold_locales
  fix h :: "('w, 'r) resp_handler" and b k s
  assume g: "resp_gives downloads h b k s"
  show "\<exists>c h'. hv_takeOutgoingBytes (RespProtocolHandler_hvt vt (Some svt)) h s = (Ret c, h') \<and>
      (if hv_hasMoreToSend (RespProtocolHandler_hvt vt (Some svt)) h'
       then c \<noteq> [] \<and> (\<exists>b'. b = c @ b' \<and> resp_gives downloads h' b' k s) else b = c \<and> h' = k)"
  proof (cases "rh_streamingRead h \<and> rh_outgoingBuffer h = []")
    case False
    with g show ?thesis
      by (auto simp: resp_takeOutgoingBytes_def resp_hasMoreToSend_def resp_gives_def split: if_splits)
  next
    case True
    with g obtain r d where r: "rh_activeReadSession h = Some r" "downloads r d s" "b = d @ crlf"
      "k = h\<lparr>rh_outgoingBuffer := [], rh_streamingRead := False, rh_activeReadSession := None\<rparr>"
      by (auto simp: resp_gives_def)
    from r(2) show ?thesis
    proof (cases rule: download_chunk)
      case 1
      with True r show ?thesis
        by (auto simp: resp_takeOutgoingBytes_def resp_pumpReadSession_def resp_hasMoreToSend_def
            resp_queueResponse_def)
    next
      case (2 c d' r')
      with True r show ?thesis
        by (auto simp: resp_takeOutgoingBytes_def resp_pumpReadSession_def resp_hasMoreToSend_def
            resp_queueResponse_def resp_gives_def)
    qed
  qed
qed

sublocale download_store \<subseteq> http_out: sending "HttpProtocolHandler_hvt vt (Some svt)" "http_gives downloads"
  for vt :: "'s object_vt"
proof unfold_locales
  fix h :: "('w, 'r) http_handler" and b k s
  assume g: "http_gives downloads h b k s"
  show "\<exists>c h'. hv_takeOutgoingBytes (HttpProtocolHandler_hvt vt (Some svt)) h s = (Ret c, h') \<and>
      (if hv_hasMoreToSend (HttpProtocolHandler_hvt vt (Some svt)) h'
       then c \<noteq> [] \<and> (\<exists>b'. b = c @ b' \<and> http_gives downloads h' b' k s) else b = c \<and> h' = k)"
  proof (cases "hh_streamingRead h \<and> hh_outgoingBuffer h = []")
    case False
    with g show ?thesis
      by (auto simp: http_takeOutgoingBytes_def http_hasMoreToSend_def http_gives_def split: if_splits)
  next
    case True
    with g obtain r d where r: "hh_activeReadSession h = Some r" "downloads r d s" "b = d"
      "k = h\<lparr>hh_outgoingBuffer := [], hh_streamingRead := False, hh_activeReadSession := None\<rparr>"
      by (auto simp: http_gives_def)
    from r(2) show ?thesis
    proof (cases rule: download_chunk)
      case 1
      with True r show ?thesis
        by (auto simp: http_takeOutgoingBytes_def http_pumpReadSession_def http_hasMoreToSend_def)
    next
      case (2 c d' r')
      with True r show ?thesis
        by (auto simp: http_takeOutgoingBytes_def http_pumpReadSession_def http_hasMoreToSend_def
            http_queueResponse_def http_gives_def)
    qed
  qed
qed

end
