(* ===== verification/Resp_Properties.thy ===== *)
theory Resp_Properties
  imports Resp_Safety
begin

text \<open>
  The properties of the RESP handler: a command is executed once and in the same way however its
  bytes are cut into reads, and a second command of the same read is not.
\<close>

section \<open>The header of a streamed value\<close>

text \<open>Everything the header test looks at, when it succeeds.\<close>

lemma resp_setHeader_SomeD:
  assumes "resp_setHeader buf = Some hdr"
  obtains e cmd p1 key p2 e2 n where "buf \<noteq> []" "buf ! 0 = CHR ''*''"
    "str_find buf crlf 0 = Some e" "substr buf 0 e = ''*3''"
    "parseBulkString buf (e + 2) = (Some cmd, p1)"
    "utils_toUpper (bs_data cmd) = ''SET'' \<or> utils_toUpper (bs_data cmd) = ''SETNX''"
    "parseBulkString buf p1 = (Some key, p2)" "p2 < length buf" "buf ! p2 = CHR ''$''"
    "str_find buf crlf p2 = Some e2" "stol (substr buf (p2 + 1) (e2 - p2 - 1)) = Some n"
    "0 \<le> n" "kStreamingThreshold < nat n"
    "hdr = \<lparr>sh_isSetNx = (utils_toUpper (bs_data cmd) = ''SETNX''), sh_key = bs_data key,
      sh_expectedSize = nat n, sh_leftover = drop (e2 + 2) buf\<rparr>"
proof -
  from assms obtain e cmd p1 key p2 e2 n where *: "buf \<noteq> []" "buf ! 0 = CHR ''*''"
    "str_find buf crlf 0 = Some e" "substr buf 0 e = ''*3''"
    "parseBulkString buf (e + 2) = (Some cmd, p1)"
    "utils_toUpper (bs_data cmd) = ''SET'' \<or> utils_toUpper (bs_data cmd) = ''SETNX''"
    "parseBulkString buf p1 = (Some key, p2)" "p2 < length buf" "buf ! p2 = CHR ''$''"
    "str_find buf crlf p2 = Some e2" "stol (substr buf (p2 + 1) (e2 - p2 - 1)) = Some n"
    "0 \<le> n" "kStreamingThreshold < nat n"
    "hdr = \<lparr>sh_isSetNx = (utils_toUpper (bs_data cmd) = ''SETNX''), sh_key = bs_data key,
      sh_expectedSize = nat n, sh_leftover = drop (min (e2 + 2) (length buf)) buf\<rparr>"
    by (auto simp: resp_setHeader_def Let_def simp del: str_find_0
        split: if_splits option.splits prod.splits)
  from str_find_crlf_bound [OF *(10)] have "min (e2 + 2) (length buf) = e2 + 2" by simp
  with * show ?thesis using that by simp
qed

lemma resp_setHeader_append:
  assumes "resp_setHeader buf = Some hdr"
  shows "resp_setHeader (buf @ ext) = Some (hdr\<lparr>sh_leftover := sh_leftover hdr @ ext\<rparr>)"
proof -
  from assms obtain e cmd p1 key p2 e2 n where *: "buf \<noteq> []" "buf ! 0 = CHR ''*''"
    "str_find buf crlf 0 = Some e" "substr buf 0 e = ''*3''"
    "parseBulkString buf (e + 2) = (Some cmd, p1)"
    "utils_toUpper (bs_data cmd) = ''SET'' \<or> utils_toUpper (bs_data cmd) = ''SETNX''"
    "parseBulkString buf p1 = (Some key, p2)" "p2 < length buf" "buf ! p2 = CHR ''$''"
    "str_find buf crlf p2 = Some e2" "stol (substr buf (p2 + 1) (e2 - p2 - 1)) = Some n"
    "0 \<le> n" "kStreamingThreshold < nat n"
    "hdr = \<lparr>sh_isSetNx = (utils_toUpper (bs_data cmd) = ''SETNX''), sh_key = bs_data key,
      sh_expectedSize = nat n, sh_leftover = drop (e2 + 2) buf\<rparr>"
    by (rule resp_setHeader_SomeD)
  note b1 = str_find_crlf_bound [OF *(3)] and b2 = str_find_crlf_bound [OF *(10)]
  note l2 = line_append [OF *(10,8), of ext]
  have first: "(buf @ ext) ! 0 = CHR ''*''" "substr (buf @ ext) 0 e = ''*3''"
    using *(1,2,4) b1 by (simp_all add: nth_append substr_append)
  note finds = str_find_append [OF *(3), of ext] parseBulkString_append [OF *(5), of ext]
    parseBulkString_append [OF *(7), of ext]
  show ?thesis
    using *(1,6,8,9,11-14) first finds l2 b2
    by (auto simp: resp_setHeader_def Let_def simp del: str_find_0)
qed

text \<open>The bytes of a command up to the value.\<close>

definition set_header_bytes :: "bytes \<Rightarrow> bytes \<Rightarrow> nat \<Rightarrow> bytes" where
  "set_header_bytes c k n =
     respreply_arrayHeader 3 @ respreply_bulkString c @ respreply_bulkString k @
     ''$'' @ to_string n @ crlf"

lemma resp_command_header:
  "resp_command [c, k, v] = set_header_bytes c k (length v) @ v @ crlf"
  by (simp add: resp_command_def set_header_bytes_def respreply_bulkString_def numeral_3_eq_3)

lemma to_string_3: "to_string 3 = ''3''"
  by code_simp

lemma resp_setHeader_written:
  assumes "length c < 2 ^ 31" "length k < 2 ^ 31" "n < 2 ^ 63"
  shows "resp_setHeader (set_header_bytes c k n @ post) =
    (if (utils_toUpper c = ''SET'' \<or> utils_toUpper c = ''SETNX'') \<and> kStreamingThreshold < n
     then Some \<lparr>sh_isSetNx = (utils_toUpper c = ''SETNX''), sh_key = k, sh_expectedSize = n,
            sh_leftover = post\<rparr>
     else None)"
proof -
  let ?b = "set_header_bytes c k n @ post"
  let ?n = "to_string n" and ?c = "respreply_bulkString c" and ?k = "respreply_bulkString k"
  have b1: "?b = [] @ CHR ''*'' # ''3'' @ crlf @ (?c @ ?k @ ''$'' @ ?n @ crlf @ post)"
    by (simp add: set_header_bytes_def respreply_arrayHeader_def to_string_3)
  have l1: "0 < length ?b \<and> ?b ! 0 = CHR ''*'' \<and> str_find ?b crlf 0 = Some (0 + 1 + length ''3'')"
    using line_at [OF _ b1, of 0] by (simp add: CR_def)
  have s1: "substr ?b 0 2 = ''*3''" by (simp add: b1 substr_def)
  have b2: "?b = (''*3'' @ crlf) @ ?c @ (?k @ ''$'' @ ?n @ crlf @ post)" by (simp add: b1)
  have p1: "parseBulkString ?b 4 = (Some \<lparr>bs_length = int (length c), bs_data = c\<rparr>, 4 + length ?c)"
    by (rule parseBulkString_written [OF assms(1) b2]) simp
  have b3: "?b = (''*3'' @ crlf @ ?c) @ ?k @ (''$'' @ ?n @ crlf @ post)" by (simp add: b1)
  have p2: "parseBulkString ?b (4 + length ?c) =
      (Some \<lparr>bs_length = int (length k), bs_data = k\<rparr>, 4 + length ?c + length ?k)"
    by (rule parseBulkString_written [OF assms(2) b3]) simp
  let ?p = "4 + length ?c + length ?k"
  have b4: "?b = (''*3'' @ crlf @ ?c @ ?k) @ CHR ''$'' # ?n @ crlf @ post" by (simp add: b1)
  have l4: "?p < length ?b \<and> ?b ! ?p = CHR ''$'' \<and> str_find ?b crlf ?p = Some (?p + 1 + length ?n) \<and>
      substr ?b (?p + 1) (?p + 1 + length ?n - ?p - 1) = ?n"
    by (rule line_at [OF CR_notin_to_string b4]) (simp_all add: CR_def)
  have "length (set_header_bytes c k n) = ?p + 1 + length ?n + 2"
    by (simp add: set_header_bytes_def respreply_arrayHeader_def to_string_3)
  then have left: "drop (min (?p + 1 + length ?n + 2) (length ?b)) ?b = post" by simp
  have "length ?b = ?p + 1 + length ?n + 2 + length post" by (simp add: b4)
  then show ?thesis
    using l1 s1 p1 p2 l4 left stol_to_string [OF assms(3)]
    by (auto simp: resp_setHeader_def Let_def numeral_2_eq_2 eval_nat_numeral simp del: str_find_0)
qed

section \<open>A command, whole or in pieces\<close>

text \<open>Reads one after the other, up to the first that does not ask for more.\<close>

fun resp_feed :: "'s object_vt \<Rightarrow> ('s, 'w, 'r) streaming_vt option \<Rightarrow> bytes list
    \<Rightarrow> ('w, 'r) resp_handler \<Rightarrow> 's \<Rightarrow> bool outcome \<times> ('w, 'r) resp_handler \<times> 's" where
  "resp_feed ovt svt [] h s = (Ret True, h, s)"
| "resp_feed ovt svt (d # ds) h s =
     (case resp_onBytesReceived ovt svt d h s of
        (Ret True, h', s') \<Rightarrow> resp_feed ovt svt ds h' s'
      | r \<Rightarrow> r)"

definition resp_idle :: "('w, 'r) resp_handler \<Rightarrow> bool" where
  "resp_idle h \<longleftrightarrow> rh_state h = ParsingCommands \<and> rh_incomingBuffer h = []"

text \<open>A read that begins no streamed value goes to the parser.\<close>

definition no_header :: "('s, 'w, 'r) streaming_vt option \<Rightarrow> bytes \<Rightarrow> bool" where
  "no_header svt buf \<longleftrightarrow> (case svt of None \<Rightarrow> True | Some _ \<Rightarrow> resp_setHeader buf = None)"

text \<open>Only commands of three words can be the header of a streamed value.\<close>

lemma array_header_length:
  assumes "str_find (resp_command args) crlf 0 = Some e" "substr (resp_command args) 0 e = ''*3''"
    and "length args < 2 ^ 63"
  shows "length args = 3"
proof -
  let ?n = "to_string (length args)"
  have b: "resp_command args = [] @ CHR ''*'' # ?n @ crlf @ concat (map respreply_bulkString args)"
    by (simp add: resp_command_def respreply_arrayHeader_def)
  from line_at [OF CR_notin_to_string b refl] have "e = 1 + length ?n"
    using assms(1) by (simp add: CR_def)
  then have "?n = to_string 3" using assms(2) by (simp add: b substr_def to_string_3)
  with stol_to_string [OF assms(3)] stol_to_string [of 3] show ?thesis by simp
qed

lemma no_header_short:
  assumes "length args \<noteq> 3" "length args < 2 ^ 63"
  shows "no_header svt (resp_command args)"
proof -
  have "resp_setHeader (resp_command args) = None"
  proof (rule ccontr)
    assume "resp_setHeader (resp_command args) \<noteq> None"
    then obtain hdr where "resp_setHeader (resp_command args) = Some hdr" by blast
    then show False by (rule resp_setHeader_SomeD) (use array_header_length assms in blast)
  qed
  then show ?thesis by (simp add: no_header_def split: option.split)
qed

lemma no_header_prefix: "no_header svt (buf @ ext) \<Longrightarrow> no_header svt buf"
  using resp_setHeader_append [of buf]
  by (cases "resp_setHeader buf") (auto simp: no_header_def split: option.splits)

lemma resp_receive_parse:
  assumes "rh_state h = ParsingCommands" "no_header svt (rh_incomingBuffer h @ data)"
  shows "resp_onBytesReceived ovt svt data h s =
    resp_runBuffer ovt svt (h\<lparr>rh_incomingBuffer := rh_incomingBuffer h @ data\<rparr>) s"
  using assms
  by (subst resp_onBytesReceived.simps)
    (auto simp: resp_receive_def no_header_def resp_tryBeginStreamingSetValue_def split: option.splits)

lemma resp_receive_incomplete:
  assumes "rh_state h = ParsingCommands" "no_header svt (rh_incomingBuffer h @ data)"
    and "fst (RespParser_parse (rh_incomingBuffer h @ data)) = RespIncomplete"
  shows "resp_onBytesReceived ovt svt data h s =
    (Ret True, h\<lparr>rh_incomingBuffer := rh_incomingBuffer h @ data\<rparr>, s)"
proof -
  obtain cmds n where "RespParser_parse (rh_incomingBuffer h @ data) = (RespIncomplete, cmds, n)"
    using assms(3) by (cases "RespParser_parse (rh_incomingBuffer h @ data)") auto
  then show ?thesis by (simp add: resp_receive_parse [OF assms(1,2)] resp_runBuffer_def)
qed

text \<open>Commands do not look at the buffer.\<close>

lemma resp_handleCommand_buffer:
  "resp_handleCommand ovt svt c args (h\<lparr>rh_incomingBuffer := b\<rparr>) s =
    (case resp_handleCommand ovt svt c args h s of (r, h', s') \<Rightarrow> (r, h'\<lparr>rh_incomingBuffer := b\<rparr>, s'))"
  by (simp add: resp_handleCommand_def resp_handleGet_def resp_queueResponse_def Let_def
      split: option.split resp_fn.split prod.split)

lemma resp_processCommands_buffer:
  "resp_processCommands ovt svt cs (h\<lparr>rh_incomingBuffer := b\<rparr>) s =
    (case resp_processCommands ovt svt cs h s of (r, h', s') \<Rightarrow> (r, h'\<lparr>rh_incomingBuffer := b\<rparr>, s'))"
  by (simp add: resp_processCommands_def resp_handleCommand_buffer resp_queueResponse_def
      split: list.split prod.split outcome.split)

text \<open>What the handler does with a command it has read completely; \<open>rest\<close> stays in the buffer.\<close>

definition resp_command_result ::
    "unit outcome \<times> ('w, 'r) resp_handler \<times> 's \<Rightarrow> bytes \<Rightarrow> bytes
      \<Rightarrow> bool outcome \<times> ('w, 'r) resp_handler \<times> 's" where
  "resp_command_result x command rest =
     (case x of
        (Ret _, h, s) \<Rightarrow> (Ret True, h\<lparr>rh_incomingBuffer := rest\<rparr>, s)
      | (Throw, h, s) \<Rightarrow> (Throw, h\<lparr>rh_incomingBuffer := command @ rest\<rparr>, s)
      | (Crash, h, s) \<Rightarrow> (Crash, h\<lparr>rh_incomingBuffer := command @ rest\<rparr>, s))"

lemma resp_receive_command:
  assumes "rh_state h = ParsingCommands" "length args \<le> 100000" "\<forall>v \<in> set args. length v < 2 ^ 31"
    and b: "rh_incomingBuffer h @ data = resp_command args @ rest"
    and "no_header svt (resp_command args @ rest)"
  shows "resp_onBytesReceived ovt svt data h s =
    resp_command_result (resp_processCommands ovt svt args h s) (resp_command args) rest"
proof -
  have p: "RespParser_parse (resp_command args @ rest) = (RespComplete, args, length (resp_command args))"
    by (rule RespParser_parse_written [OF assms(2,3) refl])
  have "resp_onBytesReceived ovt svt data h s =
      resp_runBuffer ovt svt (h\<lparr>rh_incomingBuffer := resp_command args @ rest\<rparr>) s"
    using resp_receive_parse [of h svt data] assms(1,5) by (simp add: b)
  then show ?thesis
    by (auto simp: resp_runBuffer_def p resp_processCommands_buffer resp_command_result_def
        split: prod.split outcome.split)
qed

lemma resp_feed_command:
  assumes "rh_state h = ParsingCommands" "length args \<le> 100000" "\<forall>v \<in> set args. length v < 2 ^ 31"
    and "no_header svt (resp_command args)" "ds \<noteq> []" "[] \<notin> set ds"
    and "rh_incomingBuffer h @ concat ds = resp_command args"
  shows "resp_feed ovt svt ds h s =
    resp_command_result (resp_processCommands ovt svt args (h\<lparr>rh_incomingBuffer := []\<rparr>) s)
      (resp_command args) []"
  using assms(1,5-7)
proof (induction ds arbitrary: h)
  case (Cons d ds)
  show ?case
  proof (cases "ds = []")
    case True
    with Cons.prems(4) have "rh_incomingBuffer h @ d = resp_command args @ []" by simp
    from resp_receive_command [OF Cons.prems(1) assms(2,3) this, of svt ovt s] assms(4) True
    show ?thesis
      by (auto simp: resp_command_result_def resp_processCommands_buffer split: prod.split outcome.split)
  next
    case False
    let ?b = "rh_incomingBuffer h @ d"
    have cmd: "resp_command args = ?b @ concat ds" using Cons.prems(4) by simp
    have ne: "concat ds \<noteq> []" using False Cons.prems(3) by (cases ds) auto
    have "fst (RespParser_parse ?b) = RespIncomplete"
      by (rule RespParser_parse_prefix [OF assms(2,3) cmd ne])
    moreover have "no_header svt ?b" using assms(4) no_header_prefix [of svt ?b "concat ds"] cmd by simp
    ultimately have "resp_onBytesReceived ovt svt d h s = (Ret True, h\<lparr>rh_incomingBuffer := ?b\<rparr>, s)"
      by (intro resp_receive_incomplete Cons.prems(1))
    with Cons.IH [of "h\<lparr>rh_incomingBuffer := ?b\<rparr>"] Cons.prems False show ?thesis by simp
  qed
qed simp

text \<open>C17.
  A command is executed exactly once, when its last byte has arrived, however its bytes are cut into
  reads: feeding the pieces of an encoded command (that is not a value to be streamed) to an idle
  handler gives the replies and the storage that executing the command gives, and leaves the handler
  idle.\<close>

theorem RespHandler_command_in_pieces:
  assumes "resp_idle h" "length args \<le> 100000" "\<forall>v \<in> set args. length v < 2 ^ 31"
    and "no_header svt (resp_command args)" "[] \<notin> set ds" "concat ds = resp_command args"
    and "resp_processCommands ovt svt args h s = (Ret (), h', s')"
  shows "resp_feed ovt svt ds h s = (Ret True, h', s') \<and> rh_incomingBuffer h' = []"
proof -
  have ds: "ds \<noteq> []" using assms(6) by (auto simp: resp_command_def respreply_arrayHeader_def)
  have idle: "rh_state h = ParsingCommands" "rh_incomingBuffer h = []"
    using assms(1) by (simp_all add: resp_idle_def)
  then have h: "h\<lparr>rh_incomingBuffer := []\<rparr> = h" by simp
  have "h'\<lparr>rh_incomingBuffer := []\<rparr> = h'"
    using resp_processCommands_buffer [of ovt svt args "[]" h s] assms(7) by (simp add: h)
  moreover from this have "rh_incomingBuffer h' = []"
    by (metis resp_handler.select_convs(1) resp_handler.surjective resp_handler.update_convs(1))
  moreover have "resp_feed ovt svt ds h s =
      resp_command_result (resp_processCommands ovt svt args (h\<lparr>rh_incomingBuffer := []\<rparr>) s)
        (resp_command args) []"
    using resp_feed_command [OF idle(1) assms(2-4) ds assms(5), of ovt s] assms(6) idle(2) by simp
  ultimately show ?thesis using assms(7) by (simp add: h resp_command_result_def)
qed

lemmas resp_command_defs =
  resp_processCommands_def resp_handleCommand_def resp_handleSet_def resp_handleGet_def
  resp_queueResponse_def RespProtocolHandler_new_def

lemma resp_toUpper_literals [simp]:
  "utils_toUpper ''SET'' = ''SET''" "utils_toUpper ''set'' = ''SET''" "utils_toUpper ''GET'' = ''GET''"
  "utils_toUpper ''SETNX'' = ''SETNX''" "utils_toUpper ''PING'' = ''PING''"
  by code_simp+

lemma resp_commands_literals [simp]:
  "resp_commands ''SET'' = Some FnSet" "resp_commands ''GET'' = Some FnGet"
  "resp_commands ''SETNX'' = Some FnSetNx" "resp_commands ''PING'' = Some FnPing"
  by (simp_all add: resp_commands_def)

theorem RespHandler_command_in_pieces_witness:
  "let c = resp_command [''set'', ''k'', ''v'']; h = RespProtocolHandler_new :: (unit, unit) resp_handler;
       (r, h', s') = resp_feed ObjectStorage_vt None [take 5 c, drop 5 c] h ObjectStorage_init
   in r = Ret True \<and> rh_outgoingBuffer h' = respreply_ok \<and> ObjectStorage_get ''k'' s' = Some ''v''"
proof -
  let ?c = "resp_command [''set'', ''k'', ''v'']"
  let ?h = "RespProtocolHandler_new :: (unit, unit) resp_handler"
  have len: "5 < length ?c"
    by (simp add: resp_command_def respreply_bulkString_def respreply_arrayHeader_def)
  then have ne: "?c \<noteq> []" by (metis list.size(3) not_less_zero)
  have p: "resp_processCommands ObjectStorage_vt None [''set'', ''k'', ''v''] ?h ObjectStorage_init =
      (Ret (), resp_queueResponse respreply_ok ?h, \<lparr>os_storage = [(''k'', ''v'')]\<rparr>)"
    by (simp add: resp_command_defs ObjectStorage_put_def ObjectStorage_init_def
        respreply_putResultToReply.simps(1) respreply_ok_def)
  have "resp_idle ?h" by (simp add: resp_idle_def RespProtocolHandler_new_def)
  from RespHandler_command_in_pieces [OF this _ _ _ _ _ p, of "[take 5 ?c, drop 5 ?c]"] len ne
  have "resp_feed ObjectStorage_vt None [take 5 ?c, drop 5 ?c] ?h ObjectStorage_init =
      (Ret True, resp_queueResponse respreply_ok ?h, \<lparr>os_storage = [(''k'', ''v'')]\<rparr>)"
    by (auto simp: no_header_def simp del: resp_feed.simps)
  then show ?thesis
    by (simp add: ObjectStorage_get_def resp_queueResponse_def RespProtocolHandler_new_def
        del: resp_feed.simps)
qed

text \<open>C39.
  Only one command of a read is executed: when two commands arrive together, the first is executed,
  and the second stays in the buffer, not executed and not answered, until more bytes arrive.\<close>

theorem RespHandler_pipelined_waits:
  assumes "resp_idle h" "length args \<le> 100000" "\<forall>v \<in> set args. length v < 2 ^ 31"
    and "no_header svt (resp_command args @ resp_command args2)"
    and "resp_processCommands ovt svt args h s = (Ret (), h', s')"
  shows "resp_onBytesReceived ovt svt (resp_command args @ resp_command args2) h s =
    (Ret True, h'\<lparr>rh_incomingBuffer := resp_command args2\<rparr>, s')"
proof -
  have idle: "rh_state h = ParsingCommands" "rh_incomingBuffer h = []"
    using assms(1) by (simp_all add: resp_idle_def)
  from idle have "rh_incomingBuffer h @ (resp_command args @ resp_command args2) =
      resp_command args @ resp_command args2" by simp
  from resp_receive_command [OF idle(1) assms(2,3) this assms(4), of ovt s] show ?thesis
    by (simp add: assms(5) resp_command_result_def)
qed

theorem RespHandler_pipelined_waits_witness:
  "resp_onBytesReceived ObjectStorage_vt None (resp_command [''PING''] @ resp_command [''PING''])
     (RespProtocolHandler_new :: (unit, unit) resp_handler) ObjectStorage_init =
   (Ret True, RespProtocolHandler_new\<lparr>rh_outgoingBuffer := respreply_pong,
      rh_incomingBuffer := resp_command [''PING'']\<rparr>, ObjectStorage_init)"
proof -
  let ?h = "RespProtocolHandler_new :: (unit, unit) resp_handler"
  have "resp_processCommands ObjectStorage_vt None [''PING''] ?h ObjectStorage_init =
      (Ret (), ?h\<lparr>rh_outgoingBuffer := respreply_pong\<rparr>, ObjectStorage_init)"
    by (simp add: resp_command_defs resp_handlePing_def respreply_pong_def)
  moreover have "resp_idle ?h" by (simp add: resp_idle_def RespProtocolHandler_new_def)
  ultimately show ?thesis
    using RespHandler_pipelined_waits [of ?h "[''PING'']" None "[''PING'']"] by (simp add: no_header_def)
qed

end
