(* ===== verification/Resp_Exchange.thy ===== *)
theory Resp_Exchange
  imports Session_Exchange Resp_Properties
begin

text \<open>
  Whole conversations in RESP: a client sends commands, in whatever pieces, and waits for the reply
  of each. The storage then goes through the states of a map, and the replies are those of the map.
\<close>

section \<open>The map that clients see\<close>

datatype kv_command =
  KvPing | KvGet string | KvSet string bytes | KvSetNx string bytes | KvDel string | KvKeys string

fun kv_args :: "kv_command \<Rightarrow> bytes list" where
  "kv_args KvPing = [''PING'']"
| "kv_args (KvGet k) = [''GET'', k]"
| "kv_args (KvSet k v) = [''SET'', k, v]"
| "kv_args (KvSetNx k v) = [''SETNX'', k, v]"
| "kv_args (KvDel k) = [''DEL'', k]"
| "kv_args (KvKeys pattern) = [''KEYS'', pattern]"

text \<open>
  What may be answered, and the map after it. A \<open>SET\<close> is refused or done, a \<open>SETNX\<close> done only for a
  key that is absent; a \<open>DEL\<close> answers 0 only if there is no such object and 1 only if nothing is left
  of it; \<open>KEYS\<close> lists each object once, in any order.
\<close>

inductive kv_step :: "(string \<Rightarrow> bytes option) \<Rightarrow> kv_command \<Rightarrow> bytes \<Rightarrow> (string \<Rightarrow> bytes option) \<Rightarrow> bool" where
  kv_ping: "kv_step m KvPing respreply_pong m"
| kv_absent: "m k = None \<Longrightarrow> kv_step m (KvGet k) respreply_nil m"
| kv_found: "m k = Some v \<Longrightarrow> kv_step m (KvGet k) (respreply_bulkString v) m"
| kv_set: "kv_step m (KvSet k v) respreply_ok (m(k \<mapsto> v))"
| kv_refused: "r \<noteq> PutOk \<Longrightarrow> kv_step m (KvSet k v) (respreply_putResultToReply r) m"
| kv_deleted: "kv_step m (KvDel k) (respreply_integer 1) (m(k := None))"
| kv_kept: "m k = None \<Longrightarrow> kv_step m (KvDel k) (respreply_integer 0) m"
| kv_inserted: "m k = None \<Longrightarrow> kv_step m (KvSetNx k v) (respreply_setNxResultToReply NxInserted) (m(k \<mapsto> v))"
| kv_not_inserted: "n \<noteq> NxInserted \<Longrightarrow> kv_step m (KvSetNx k v) (respreply_setNxResultToReply n) m"
| kv_listed: "distinct ks \<Longrightarrow> set ks = dom m \<Longrightarrow> kv_step m (KvKeys pattern)
    (respreply_arrayHeader (length ks) @ concat (map respreply_bulkString ks)) m"

inductive kv_run ::
    "(string \<Rightarrow> bytes option) \<Rightarrow> kv_command list \<Rightarrow> bytes list \<Rightarrow> (string \<Rightarrow> bytes option) \<Rightarrow> bool" where
  kv_run_Nil: "kv_run m [] [] m"
| kv_run_Cons: "kv_step m c b m' \<Longrightarrow> kv_run m' cs bs m'' \<Longrightarrow> kv_run m (c # cs) (b # bs) m''"

inductive_cases kv_run_NilE: "kv_run m [] bs m'"
inductive_cases kv_run_ConsE: "kv_run m (c # cs) bs m'"
inductive_cases kv_GetE: "kv_step m (KvGet k) b m'"

text \<open>The commands considered: keys and values of a size that is not streamed.\<close>

fun kv_ok :: "(string \<Rightarrow> bool) \<Rightarrow> kv_command \<Rightarrow> bool" where
  "kv_ok good KvPing \<longleftrightarrow> True"
| "kv_ok good (KvGet k) \<longleftrightarrow> good k \<and> length k < 2 ^ 31"
| "kv_ok good (KvSet k v) \<longleftrightarrow> good k \<and> length k < 2 ^ 31 \<and> length v \<le> kStreamingThreshold"
| "kv_ok good (KvSetNx k v) \<longleftrightarrow> good k \<and> length k < 2 ^ 31 \<and> length v \<le> kStreamingThreshold"
| "kv_ok good (KvDel k) \<longleftrightarrow> good k \<and> length k < 2 ^ 31"
| "kv_ok good (KvKeys pattern) \<longleftrightarrow> length pattern < 2 ^ 31"

lemma kv_args_ok:
  assumes "kv_ok good c"
  shows "length (kv_args c) \<le> 100000" "\<forall>v\<in>set (kv_args c). length v < 2 ^ 31"
  using assms by (cases c; simp add: kStreamingThreshold_def)+

text \<open>None of them is taken for the header of a streamed value.\<close>

lemma kv_no_header:
  assumes "kv_ok good c"
  shows "no_header svt (resp_command (kv_args c))"
proof (cases "\<exists>n k v. kv_args c = [n, k, v]")
  case True
  then obtain n k v where c: "kv_args c = [n, k, v]" by blast
  then have "length n < 2 ^ 31" "length k < 2 ^ 31" "length v < 2 ^ 63" "\<not> kStreamingThreshold < length v"
    using assms by (cases c; auto simp: kStreamingThreshold_def)+
  then show ?thesis
    using resp_setHeader_written [of n k "length v" "v @ crlf"]
    by (simp add: c no_header_def resp_command_header split: option.split)
next
  case False
  then have n: "length (kv_args c) \<noteq> 3" "length (kv_args c) < 2 ^ 63" by (cases c; simp)+
  then show ?thesis by (rule no_header_short)
qed

section \<open>One command\<close>

definition resp_ready :: "('w, 'r) resp_handler \<Rightarrow> bool" where
  "resp_ready h \<longleftrightarrow> resp_idle h \<and> rh_outgoingBuffer h = [] \<and> \<not> rh_streamingRead h"

lemma resp_ready_new [simp]: "resp_ready RespProtocolHandler_new"
  by (simp add: resp_ready_def resp_idle_def RespProtocolHandler_new_def)

lemma kv_step_sizes: "kv_step m c b m' \<Longrightarrow> kv_ok good c \<Longrightarrow> sizes_ok m \<Longrightarrow> sizes_ok m'"
  by (induction rule: kv_step.induct) (auto simp: sizes_ok_def str_ok_def kStreamingThreshold_def)

lemma resp_more_literals [simp]:
  "utils_toUpper ''DEL'' = ''DEL''" "utils_toUpper ''KEYS'' = ''KEYS''"
  "resp_commands ''DEL'' = Some FnDel" "resp_commands ''KEYS'' = Some FnKeys"
  "resp_commands ''SETNX'' = Some FnSetNx"
  by (code_simp, code_simp) (simp_all add: resp_commands_def)

context total_store
begin

text \<open>All commands but \<open>GET\<close> queue their reply.\<close>

definition resp_replies :: "('w, 'r) resp_handler \<Rightarrow> 's \<Rightarrow> kv_command \<Rightarrow> bool" where
  "resp_replies h s c \<longleftrightarrow>
     (\<exists>b s1. resp_processCommands vt (Some svt) (kv_args c) h s = (Ret (), resp_queueResponse b h, s1) \<and>
        inv s1 \<and> kv_step (view s) c b (view s1))"

lemma resp_replies_changes:
  assumes "inv s"
  shows "kv_ok good (KvSet k v) \<Longrightarrow> resp_replies h s (KvSet k v)"
    and "kv_ok good (KvSetNx k v) \<Longrightarrow> resp_replies h s (KvSetNx k v)"
    and "kv_ok good (KvDel k) \<Longrightarrow> resp_replies h s (KvDel k)"
proof -
  assume "kv_ok good (KvSet k v)"
  then have kv: "good k" "str_ok v" by (simp_all add: str_ok_def kStreamingThreshold_def)
  obtain r s1 where p: "vt_put vt k v s = (r, s1)" by fastforce
  have "kv_step (view s) (KvSet k v) (respreply_putResultToReply r) (view s1)"
    using put_view [OF assms kv p] kv_set kv_refused [of r] by (cases "r = PutOk") auto
  then show "resp_replies h s (KvSet k v)"
    using put_inv [OF assms kv p]
    by (auto simp: resp_replies_def resp_processCommands_def resp_handleCommand_def resp_handleSet_def p)
next
  assume "kv_ok good (KvSetNx k v)"
  then have kv: "good k" "str_ok v" by (simp_all add: str_ok_def kStreamingThreshold_def)
  from setnx_total [OF assms kv(1), of v] obtain n s1 where p: "vt_setnx vt k v s = (Ret n, s1)"
    by (metis prod.collapse)
  have "kv_step (view s) (KvSetNx k v) (respreply_setNxResultToReply n) (view s1)"
    using setnx_view [OF assms kv p] kv_inserted [of "view s" k v] kv_not_inserted [of n]
    by (cases "n = NxInserted") auto
  then show "resp_replies h s (KvSetNx k v)"
    using setnx_inv [OF assms kv p]
    by (auto simp: resp_replies_def resp_processCommands_def resp_handleCommand_def resp_handleSetNx_def p)
next
  assume "kv_ok good (KvDel k)"
  then have k: "good k" by simp
  obtain d s1 where p: "vt_del vt k s = (d, s1)" by fastforce
  have "kv_step (view s) (KvDel k) (respreply_integer (if d then 1 else 0)) (view s1)"
    using del_view [OF assms k p] del_present [OF assms k] p kv_deleted kv_kept by (cases "view s k") auto
  then show "resp_replies h s (KvDel k)"
    using del_inv [OF assms k p]
    by (auto simp: resp_replies_def resp_processCommands_def resp_handleCommand_def resp_handleDel_def p)
qed

lemma resp_replies_looks:
  assumes "inv s"
  shows "resp_replies h s KvPing" and "resp_replies h s (KvKeys pattern)"
    and "good k \<Longrightarrow> view s k = None \<Longrightarrow> resp_replies h s (KvGet k)"
proof -
  show "resp_replies h s KvPing"
    using assms kv_ping
    by (auto simp: resp_replies_def resp_processCommands_def resp_handleCommand_def resp_handlePing_def)
  from keys_listed [OF assms] obtain ks where ks: "vt_keys vt s = Ret ks" "distinct ks" "set ks = dom (view s)" .
  show "resp_replies h s (KvKeys pattern)"
    unfolding resp_replies_def
    by (intro exI conjI, rule_tac [2] assms, rule_tac [2] kv_listed [OF ks(2,3)])
      (simp add: resp_processCommands_def resp_handleCommand_def resp_handleKeys_def ks(1))
  assume k: "good k" "view s k = None"
  then show "resp_replies h s (KvGet k)"
    using beginGet_absent [OF assms k] kv_absent [of "view s" k] assms
    by (auto simp: resp_replies_def resp_processCommands_def resp_handleCommand_def resp_handleGet_def Let_def)
qed

text \<open>The handler after a command, what it has to give, and what became of the storage.\<close>

definition resp_done :: "('w, 'r) resp_handler \<Rightarrow> 's \<Rightarrow> kv_command \<Rightarrow> bool" where
  "resp_done h s c \<longleftrightarrow>
     (\<exists>h1 b k s1. resp_processCommands vt (Some svt) (kv_args c) h s = (Ret (), h1, s1) \<and>
        resp_gives downloads h1 b k s1 \<and> resp_ready k \<and> inv s1 \<and> kv_step (view s) c b (view s1))"

lemma resp_replied:
  assumes "resp_ready h" "resp_replies h s c"
  shows "resp_done h s c"
proof -
  have "h\<lparr>rh_outgoingBuffer := []\<rparr> = h" using assms(1) by (cases h) (simp add: resp_ready_def)
  with assms(1) have "resp_gives downloads (resp_queueResponse b h) b h s1" for b s1
    by (simp add: resp_gives_def resp_queueResponse_def resp_ready_def)
  with assms show ?thesis unfolding resp_done_def resp_replies_def by blast
qed

lemma resp_downloads:
  assumes "resp_ready h" "inv s" "sizes_ok (view s)" "good k" "view s k = Some v"
  shows "resp_done h s (KvGet k)"
proof -
  from beginGet_stored [OF assms(2,4,5)] obtain r where
    r: "vt_beginGet svt k s = \<lparr>bg_found = True, bg_size = of_nat (length v), bg_session = Some r\<rparr>"
      "downloads r v s" by blast
  have v: "str_ok v" using assms(3,5) by (simp add: sizes_ok_def)
  let ?h1 = "(resp_queueResponse (''$'' @ to_string (length v) @ crlf) h)
    \<lparr>rh_activeReadSession := Some r, rh_streamingRead := True\<rparr>"
  let ?k = "?h1\<lparr>rh_outgoingBuffer := [], rh_streamingRead := False, rh_activeReadSession := None\<rparr>"
  have "resp_processCommands vt (Some svt) (kv_args (KvGet k)) h s = (Ret (), ?h1, s)"
    using r(1) unat_length [OF v]
    by (simp add: resp_processCommands_def resp_handleCommand_def resp_handleGet_def Let_def)
  moreover have "resp_gives downloads ?h1 (respreply_bulkString v) ?k s"
    using r(2) assms(1)
    by (auto simp: resp_gives_def resp_queueResponse_def respreply_bulkString_def resp_ready_def)
  moreover have "resp_ready ?k" using assms(1) by (simp add: resp_ready_def resp_idle_def resp_queueResponse_def)
  ultimately show ?thesis
    unfolding resp_done_def using assms(2) kv_found [of "view s" k v] assms(5) by blast
qed

lemma resp_executes:
  assumes "resp_ready h" "inv s" "sizes_ok (view s)" "kv_ok good c"
  shows "resp_done h s c"
proof (cases "\<exists>k v. c = KvGet k \<and> view s k = Some v")
  case True
  with resp_downloads [OF assms(1-3)] assms(4) show ?thesis by auto
next
  case False
  have "resp_replies h s c"
    using False assms(4) resp_replies_changes [OF assms(2)] resp_replies_looks [OF assms(2)]
    by (cases c) auto
  with resp_replied [OF assms(1)] show ?thesis .
qed

end

section \<open>One command after the other\<close>

text \<open>A conversation: commands with the pieces they arrive in.\<close>

definition conversation_ok :: "(string \<Rightarrow> bool) \<Rightarrow> (kv_command \<times> bytes list) list \<Rightarrow> bool" where
  "conversation_ok good cs \<longleftrightarrow>
     (\<forall>(c, ds)\<in>set cs. kv_ok good c \<and> [] \<notin> set ds \<and> concat ds = resp_command (kv_args c))"

text \<open>A command that arrives in the pieces \<open>ds\<close>, the last of which makes the handler answer.\<close>

context total_store
begin

lemma resp_serve_pieces:
  assumes "rh_state h = ParsingCommands" "rh_outgoingBuffer h = []" "\<not> rh_streamingRead h"
    and args: "length args \<le> 100000" "\<forall>v\<in>set args. length v < 2 ^ 31" "no_header (Some svt) (resp_command args)"
    and "ds \<noteq> []" "[] \<notin> set ds" "rh_incomingBuffer h @ concat ds = resp_command args"
    and p: "resp_processCommands vt (Some svt) args (h\<lparr>rh_incomingBuffer := []\<rparr>) s = (Ret (), h1, s1)"
    and g: "resp_gives downloads h1 b k s1" "length b < n"
  shows "hv_serve (RespProtocolHandler_hvt vt (Some svt)) n ds h s = Some (b, k, s1)"
  using assms(1-3,7-9) p
proof (induction ds arbitrary: h)
  case (Cons d ds)
  let ?hv = "RespProtocolHandler_hvt vt (Some svt)"
  show ?case
  proof (cases "ds = []")
    case True
    with Cons.prems(6) have "rh_incomingBuffer h @ d = resp_command args @ []" by simp
    from resp_receive_command [OF Cons.prems(1) args(1,2) this, of "Some svt" vt s] args(3)
    have "resp_onBytesReceived vt (Some svt) d h s =
        resp_command_result (resp_processCommands vt (Some svt) args h s) (resp_command args) []" by simp
    also have "\<dots> = (Ret True, h1, s1)"
      using Cons.prems(7) resp_processCommands_buffer [of vt "Some svt" args "[]" h s]
      by (auto simp: resp_command_result_def split: prod.splits outcome.splits)
    finally have "hv_onBytesReceived ?hv d h s = (Ret True, h1, s1)" by simp
    from hv_serve_Cons [OF this resp_out.drain_gives [OF g] hv_serve.simps(1)] True show ?thesis by simp
  next
    case False
    let ?b = "rh_incomingBuffer h @ d"
    let ?h = "h\<lparr>rh_incomingBuffer := ?b\<rparr>"
    have cmd: "resp_command args = ?b @ concat ds" using Cons.prems(6) by simp
    have ne: "concat ds \<noteq> []" using False Cons.prems(5) by (cases ds) auto
    have "fst (RespParser_parse ?b) = RespIncomplete"
      by (rule RespParser_parse_prefix [OF args(1,2) cmd ne])
    moreover have "no_header (Some svt) ?b" using args(3) no_header_prefix [of "Some svt" ?b "concat ds"] cmd by simp
    ultimately have "hv_onBytesReceived ?hv d h s = (Ret True, ?h, s)"
      using resp_receive_incomplete [OF Cons.prems(1)] by simp
    moreover have "resp_gives downloads ?h [] ?h s"
      using Cons.prems(2,3) by (cases h) (simp add: resp_gives_def)
    then have "hv_drain ?hv n ?h s = Some ([], ?h)" using g(2) by (intro resp_out.drain_gives) auto
    moreover have "hv_serve ?hv n ds ?h s = Some (b, k, s1)"
      using Cons.IH [of ?h] Cons.prems False by simp
    ultimately show ?thesis using hv_serve_Cons by fastforce
  qed
qed simp

lemma resp_serve_command:
  assumes "resp_ready h" "inv s" "sizes_ok (view s)" "kv_ok good c"
    and "[] \<notin> set ds" "concat ds = resp_command (kv_args c)"
  shows "\<exists>n b k s1. hv_serve (RespProtocolHandler_hvt vt (Some svt)) n ds h s = Some (b, k, s1) \<and>
    resp_ready k \<and> inv s1 \<and> kv_step (view s) c b (view s1)"
proof -
  from resp_executes [OF assms(1-4), unfolded resp_done_def] obtain h1 b k s1 where
    p: "resp_processCommands vt (Some svt) (kv_args c) h s = (Ret (), h1, s1)"
      "resp_gives downloads h1 b k s1" and k: "resp_ready k" "inv s1" "kv_step (view s) c b (view s1)" by blast
  have h: "rh_state h = ParsingCommands" "rh_outgoingBuffer h = []" "\<not> rh_streamingRead h" "rh_incomingBuffer h = []"
    using assms(1) by (simp_all add: resp_ready_def resp_idle_def)
  have "h\<lparr>rh_incomingBuffer := []\<rparr> = h" using h(4) by (cases h) simp
  then have p': "resp_processCommands vt (Some svt) (kv_args c) (h\<lparr>rh_incomingBuffer := []\<rparr>) s = (Ret (), h1, s1)"
    using p(1) by (simp only:)
  have "ds \<noteq> []" using assms(6) by (auto simp: resp_command_def respreply_arrayHeader_def)
  moreover have "rh_incomingBuffer h @ concat ds = resp_command (kv_args c)" using assms(6) h(4) by simp
  ultimately have "hv_serve (RespProtocolHandler_hvt vt (Some svt)) (Suc (length b)) ds h s = Some (b, k, s1)"
    by (intro resp_serve_pieces [OF h(1-3) kv_args_ok [OF assms(4)] kv_no_header [OF assms(4)] _ assms(5) _ p' p(2)])
      simp_all
  with k show ?thesis by blast
qed

lemma resp_serve_conversation:
  assumes "resp_ready h" "inv s" "sizes_ok (view s)" "conversation_ok good cs"
  shows "\<exists>n bs k t. hv_serve (RespProtocolHandler_hvt vt (Some svt)) n (concat (map snd cs)) h s =
      Some (concat bs, k, t) \<and> resp_ready k \<and> inv t \<and> kv_run (view s) (map fst cs) bs (view t)"
  using assms
proof (induction cs arbitrary: h s)
  case Nil
  then show ?case using kv_run_Nil by (intro exI [of _ 0] exI [of _ "[]"]) auto
next
  case (Cons x cs)
  let ?hv = "RespProtocolHandler_hvt vt (Some svt)"
  obtain c ds where x: "x = (c, ds)" by fastforce
  have c: "kv_ok good c" "[] \<notin> set ds" "concat ds = resp_command (kv_args c)" and cs: "conversation_ok good cs"
    using Cons.prems(4) by (auto simp: conversation_ok_def x)
  from resp_serve_command [OF Cons.prems(1-3) c] obtain n b k s1 where
    one: "hv_serve ?hv n ds h s = Some (b, k, s1)" "resp_ready k" "inv s1" "kv_step (view s) c b (view s1)" by blast
  from Cons.IH [OF one(2,3) kv_step_sizes [OF one(4) c(1) Cons.prems(3)] cs] obtain m bs k' t where
    rest: "hv_serve ?hv m (concat (map snd cs)) k s1 = Some (concat bs, k', t)" "resp_ready k'" "inv t"
      "kv_run (view s1) (map fst cs) bs (view t)" by blast
  have "hv_serve ?hv (max n m) (ds @ concat (map snd cs)) h s = Some (b @ concat bs, k', t)"
    by (rule hv_serve_append [OF hv_serve_mono [OF one(1)] hv_serve_mono [OF rest(1)]]) simp_all
  with rest(2-4) kv_run_Cons [OF one(4) rest(4)] show ?case
    by (intro exI [of _ "max n m"] exI [of _ "b # bs"] exI [of _ k'] exI [of _ t]) (simp add: x)
qed

end

section \<open>Behind the detector\<close>

text \<open>With a delegate, the detector gives and receives what the delegate does.\<close>

lemma detector_drain:
  "hv_drain (ProtocolDetectorHandler_hvt ovt svt) n \<lparr>pd_delegate = Some (RespProto h)\<rparr> s =
    map_option (\<lambda>(b, k). (b, \<lparr>pd_delegate = Some (RespProto k)\<rparr>))
      (hv_drain (RespProtocolHandler_hvt ovt svt) n h s)"
  "hv_drain (ProtocolDetectorHandler_hvt ovt svt) n \<lparr>pd_delegate = Some (HttpProto g)\<rparr> s =
    map_option (\<lambda>(b, k). (b, \<lparr>pd_delegate = Some (HttpProto k)\<rparr>))
      (hv_drain (HttpProtocolHandler_hvt ovt svt) n g s)"
  by (induction n arbitrary: h g)
    (simp_all add: pd_takeOutgoingBytes_def pd_hasMoreToSend_def option.map_comp comp_def case_prod_unfold
      split: outcome.split)

lemma detector_serve:
  assumes "hv_serve (RespProtocolHandler_hvt ovt svt) n ds h s = Some (b, k, t)"
  shows "hv_serve (ProtocolDetectorHandler_hvt ovt svt) n ds \<lparr>pd_delegate = Some (RespProto h)\<rparr> s =
    Some (b, \<lparr>pd_delegate = Some (RespProto k)\<rparr>, t)"
  using assms
proof (induction ds arbitrary: h s b)
  case (Cons d ds)
  from Cons.prems obtain h1 s1 b1 h2 b2 where d: "resp_onBytesReceived ovt svt d h s = (Ret True, h1, s1)"
    "hv_drain (RespProtocolHandler_hvt ovt svt) n h1 s1 = Some (b1, h2)"
    "hv_serve (RespProtocolHandler_hvt ovt svt) n ds h2 s1 = Some (b2, k, t)" "b = b1 @ b2"
    by (elim hv_serve_ConsE) simp
  have "pd_onBytesReceived ovt svt d \<lparr>pd_delegate = Some (RespProto h)\<rparr> s =
      (Ret True, \<lparr>pd_delegate = Some (RespProto h1)\<rparr>, s1)"
    by (simp add: pd_onBytesReceived_def pd_forward_def d(1))
  with hv_serve_Cons [OF _ _ Cons.IH [OF d(3)]] d(2,4) show ?case by (simp add: detector_drain)
qed simp

lemma detector_serve_http:
  assumes "hv_serve (HttpProtocolHandler_hvt ovt svt) n ds h s = Some (b, k, t)"
  shows "hv_serve (ProtocolDetectorHandler_hvt ovt svt) n ds \<lparr>pd_delegate = Some (HttpProto h)\<rparr> s =
    Some (b, \<lparr>pd_delegate = Some (HttpProto k)\<rparr>, t)"
  using assms
proof (induction ds arbitrary: h s b)
  case (Cons d ds)
  from Cons.prems obtain h1 s1 b1 h2 b2 where d: "http_onBytesReceived ovt svt d h s = (Ret True, h1, s1)"
    "hv_drain (HttpProtocolHandler_hvt ovt svt) n h1 s1 = Some (b1, h2)"
    "hv_serve (HttpProtocolHandler_hvt ovt svt) n ds h2 s1 = Some (b2, k, t)" "b = b1 @ b2"
    by (elim hv_serve_ConsE) simp
  have "pd_onBytesReceived ovt svt d \<lparr>pd_delegate = Some (HttpProto h)\<rparr> s =
      (Ret True, \<lparr>pd_delegate = Some (HttpProto h1)\<rparr>, s1)"
    by (simp add: pd_onBytesReceived_def pd_forward_def d(1))
  with hv_serve_Cons [OF _ _ Cons.IH [OF d(3)]] d(2,4) show ?case by (simp add: detector_drain)
qed simp

text \<open>The first bytes decide about the delegate.\<close>

lemma detector_first:
  assumes "d \<noteq> []" "isRespPrefix (d ! 0) \<or> isHttp d = HttpMatch"
  shows "hv_serve (ProtocolDetectorHandler_hvt ovt svt) n (d # ds) ProtocolDetectorHandler_new s =
    hv_serve (ProtocolDetectorHandler_hvt ovt svt) n (d # ds)
      \<lparr>pd_delegate = Some (if isRespPrefix (d ! 0) then RespProto RespProtocolHandler_new
         else HttpProto HttpProtocolHandler_new)\<rparr> s"
proof -
  obtain c cs where "d = c # cs" using assms(1) by (cases d) auto
  with assms(2) show ?thesis
    by (auto simp: pd_onBytesReceived_def ProtocolDetectorHandler_new_def pd_forward_def Let_def)
qed

end
