(* ===== verification/Http_Properties.thy ===== *)
theory Http_Properties
  imports Http_Safety
begin

text \<open>
  The properties of the HTTP parser: requests are read back as they were written and are incomplete
  until their last byte, the two parsers of the header agree, and what is returned is well formed
  whatever bytes were sent.
\<close>

section \<open>Lines\<close>

lemma header_mark_eq: "header_mark = [CR, LF, CR, LF]"
  by (simp add: header_mark_def crlf_def)

lemma length_header_mark [simp]: "length header_mark = 4"
  by (simp add: header_mark_eq)

lemma CR_neq_LF [simp]: "CR \<noteq> LF" "LF \<noteq> CR"
  by (simp_all add: CR_def LF_def)

text \<open>The end of the first line is the end of the header exactly when an empty line follows.\<close>

lemma find_mark_line:
  assumes "CR \<notin> set l"
  shows "find_sub header_mark (l @ crlf @ t) =
    (if prefix crlf t then Some (length l)
     else map_option (\<lambda>i. length l + 2 + i) (find_sub header_mark t))"
  using assms
proof (induction l)
  case Nil
  show ?case
    by (cases "find_sub [CR, LF, CR, LF] t") (simp_all add: header_mark_eq crlf_def)
next
  case (Cons c l)
  then have "\<not> prefix header_mark (c # l @ crlf @ t)" by (auto simp: header_mark_eq)
  with Cons show ?case by (auto simp: option.map_comp comp_def)
qed

text \<open>Lines with their ends, and with the ends of all but the last.\<close>

definition http_lines :: "string list \<Rightarrow> string" where
  "http_lines ls = concat (map (\<lambda>l. l @ crlf) ls)"

fun join_crlf :: "string list \<Rightarrow> string" where
  "join_crlf [] = []"
| "join_crlf [l] = l"
| "join_crlf (l # ls) = l @ crlf @ join_crlf ls"

definition line_ok :: "string \<Rightarrow> bool" where
  "line_ok l \<longleftrightarrow> l \<noteq> [] \<and> CR \<notin> set l \<and> LF \<notin> set l"

lemma http_lines_simps [simp]: "http_lines [] = []" "http_lines (l # ls) = l @ crlf @ http_lines ls"
  by (simp_all add: http_lines_def)

lemma http_lines_join: "ls \<noteq> [] \<Longrightarrow> http_lines ls = join_crlf ls @ crlf"
  by (induction ls rule: join_crlf.induct) simp_all

lemma crlf_not_prefix: "line_ok l \<Longrightarrow> \<not> prefix crlf (l @ t)"
  by (cases l) (auto simp: line_ok_def crlf_def)

lemma find_mark_lines:
  assumes "ls \<noteq> []" "\<forall>l\<in>set ls. line_ok l"
  shows "find_sub header_mark (http_lines ls @ crlf @ t) = Some (length (join_crlf ls))"
  using assms
proof (induction ls rule: join_crlf.induct)
  case (2 l)
  then show ?case by (simp add: find_mark_line line_ok_def)
next
  case (3 l m ls)
  have "\<not> prefix crlf (http_lines (m # ls) @ crlf @ t)" using 3(3) crlf_not_prefix [of m] by simp
  moreover have "CR \<notin> set l" using 3(3) by (simp add: line_ok_def)
  moreover have "find_sub header_mark (http_lines (m # ls) @ crlf @ t) = Some (length (join_crlf (m # ls)))"
    using 3 by simp
  ultimately have "find_sub header_mark (l @ crlf @ http_lines (m # ls) @ crlf @ t) =
      Some (length l + 2 + length (join_crlf (m # ls)))"
    using find_mark_line [of l "http_lines (m # ls) @ crlf @ t"] by simp
  then show ?case by simp
qed simp

lemma line_ok_last: "line_ok l \<Longrightarrow> last l \<noteq> CR"
  unfolding line_ok_def by (metis last_in_set)

lemma strip_cr_ok: "line_ok l \<Longrightarrow> strip_cr l = l"
  by (simp add: line_ok_last strip_cr_def)

lemma getlines_join:
  assumes "\<forall>l\<in>set ls. line_ok l"
  shows "map strip_cr (getlines (join_crlf ls)) = ls"
  using assms
proof (induction ls rule: join_crlf.induct)
  case (2 l)
  then have "getlines l = [l]" by (simp add: line_ok_def getlines_line)
  with 2 show ?case by (simp add: strip_cr_ok)
next
  case (3 l m ls)
  have "LF \<notin> set (l @ [CR])" using 3(2) by (simp add: line_ok_def)
  from getlines_cons [OF this, of "join_crlf (m # ls)"] 3 show ?case by (simp add: crlf_def strip_cr_def)
qed simp

lemma parseHeaderLines_strip:
  "\<forall>l\<in>set ls. line_ok (strip_cr l) \<Longrightarrow> parseHeaderLines ls req = parseHeaderLines (map strip_cr ls) req"
proof (induction ls arbitrary: req)
  case (Cons l ls)
  then have "strip_cr (strip_cr l) = strip_cr l" by (simp add: strip_cr_ok)
  with Cons show ?case by (simp split: prod.split bool.split)
qed simp

section \<open>Requests as clients write them\<close>

definition token_ok :: "string \<Rightarrow> bool" where
  "token_ok w \<longleftrightarrow> w \<noteq> [] \<and> (\<forall>c\<in>set w. \<not> is_space c)"

definition header_ok :: "string \<times> string \<Rightarrow> bool" where
  "header_ok e \<longleftrightarrow>
     CR \<notin> set (fst e @ snd e) \<and> LF \<notin> set (fst e @ snd e) \<and> CHR '':'' \<notin> set (fst e) \<and>
     (snd e = [] \<or> hd (snd e) \<noteq> CHR '' '')"

definition request_line :: "string \<Rightarrow> string \<Rightarrow> string \<Rightarrow> string" where
  "request_line m p v = m @ '' '' @ p @ '' '' @ v"

definition header_line :: "string \<times> string \<Rightarrow> string" where
  "header_line e = fst e @ '': '' @ snd e"

definition request_head :: "string \<Rightarrow> string \<Rightarrow> string \<Rightarrow> (string \<times> string) list \<Rightarrow> bytes" where
  "request_head m p v hs = http_lines (request_line m p v # map header_line hs) @ crlf"

definition header_add :: "string \<times> string \<Rightarrow> (string \<Rightarrow> string option) \<Rightarrow> string \<Rightarrow> string option" where
  "header_add e f = f(http_toLower (fst e) \<mapsto> snd e)"

definition header_map :: "(string \<times> string) list \<Rightarrow> string \<Rightarrow> string option" where
  "header_map hs = fold header_add hs (\<lambda>_. None)"

definition request_ok :: "string \<Rightarrow> string \<Rightarrow> string \<Rightarrow> (string \<times> string) list \<Rightarrow> bool" where
  "request_ok m p v hs \<longleftrightarrow> token_ok m \<and> token_ok p \<and> token_ok v \<and> list_all header_ok hs"

lemma token_ok_ends: "token_ok w \<Longrightarrow> CR \<notin> set w \<and> LF \<notin> set w"
  by (auto simp: token_ok_def is_space_def ch_code_def CR_def LF_def)

lemma request_line_ok: "token_ok m \<Longrightarrow> token_ok p \<Longrightarrow> token_ok v \<Longrightarrow> line_ok (request_line m p v)"
  by (auto simp: line_ok_def request_line_def dest: token_ok_ends) (auto simp: CR_def LF_def)

lemma header_line_ok: "header_ok e \<Longrightarrow> line_ok (header_line e)"
  by (auto simp: line_ok_def header_line_def header_ok_def) (auto simp: CR_def LF_def)

lemma parseRequestLine_written:
  assumes "token_ok m" "token_ok p" "token_ok v"
  shows "parseRequestLine (request_line m p v) req =
    (True, req\<lparr>hr_method := m, hr_path := p, hr_version := v\<rparr>)"
proof -
  have sp: "is_space (CHR '' '')" by (simp add: is_space_def ch_code_def)
  have "read_token (m @ '' '' @ p @ '' '' @ v) = Some (m, '' '' @ p @ '' '' @ v)"
    using assms(1) sp by (intro read_token_word) (auto simp: token_ok_def)
  moreover have "read_token ('' '' @ p @ '' '' @ v) = Some (p, '' '' @ v)"
    using assms(2) sp read_token_word [of p "'' '' @ v"] read_token_space [OF sp]
    by (simp add: token_ok_def)
  moreover have "read_token ('' '' @ v) = Some (v, [])"
    using assms(3) read_token_word [of v "[]"] read_token_space [OF sp] by (simp add: token_ok_def)
  ultimately show ?thesis by (simp add: parseRequestLine_def request_line_def)
qed

lemma parseHeaderLine_written:
  assumes "header_ok e"
  shows "parseHeaderLine (header_line e) req =
    (True, req\<lparr>hr_headers := header_add e (hr_headers req)\<rparr>)"
proof -
  have "find_sub '':'' (fst e @ '':'' @ '' '' @ snd e) = Some (length (fst e))"
    using assms by (intro find_sub_first) (auto simp: header_ok_def)
  moreover have "dropWhile (\<lambda>c. c = CHR '' '') (snd e) = snd e"
    using assms by (cases "snd e") (auto simp: header_ok_def)
  ultimately show ?thesis
    by (simp add: parseHeaderLine_def header_line_def substr_def header_add_def Let_def)
qed

lemma parseHeaderLines_written:
  assumes "list_all header_ok hs"
  shows "parseHeaderLines (map header_line hs) req =
    (True, req\<lparr>hr_headers := fold header_add hs (hr_headers req)\<rparr>)"
  using assms
proof (induction hs arbitrary: req)
  case (Cons e hs)
  then have "strip_cr (header_line e) = header_line e" "header_line e \<noteq> []"
    using header_line_ok [of e] strip_cr_ok by (auto simp: line_ok_def)
  with Cons show ?case by (simp add: parseHeaderLine_written)
qed simp

text \<open>The head of a request, with any bytes behind it.\<close>

lemma head_split:
  assumes "request_ok m p v hs"
  defines "ls \<equiv> request_line m p v # map header_line hs"
  shows "find_sub header_mark (request_head m p v hs @ t) = Some (length (join_crlf ls))"
    and "length (request_head m p v hs) = length (join_crlf ls) + 4"
    and "substr (request_head m p v hs @ t) 0 (length (join_crlf ls)) = join_crlf ls"
    and "map strip_cr (getlines (join_crlf ls)) = ls" "getlines (join_crlf ls) \<noteq> []"
proof -
  have ok: "\<forall>l\<in>set ls. line_ok l"
    using assms by (auto simp: request_ok_def list_all_iff intro: request_line_ok header_line_ok)
  have ne: "ls \<noteq> []" by (simp add: ls_def)
  show "find_sub header_mark (request_head m p v hs @ t) = Some (length (join_crlf ls))"
    using find_mark_lines [OF ne ok, of t] by (simp add: request_head_def ls_def)
  have head: "request_head m p v hs = join_crlf ls @ crlf @ crlf"
    using http_lines_join [OF ne] by (simp add: request_head_def ls_def)
  show "length (request_head m p v hs) = length (join_crlf ls) + 4"
    "substr (request_head m p v hs @ t) 0 (length (join_crlf ls)) = join_crlf ls"
    by (simp_all add: head substr_def)
  show lines: "map strip_cr (getlines (join_crlf ls)) = ls" by (rule getlines_join [OF ok])
  show "getlines (join_crlf ls) \<noteq> []" using lines ne by auto
qed

lemma parseHeadersOnly_written:
  assumes "request_ok m p v hs"
  shows "HttpParser_parseHeadersOnly (request_head m p v hs @ t) http_request_init =
    (HttpComplete, \<lparr>hr_method = m, hr_path = p, hr_version = v, hr_headers = header_map hs, hr_body = []\<rparr>,
     length (request_head m p v hs))"
proof -
  let ?ls = "request_line m p v # map header_line hs"
  note split = head_split [OF assms]
  obtain l ls where l: "getlines (join_crlf ?ls) = l # ls" using split(5) by (cases "getlines (join_crlf ?ls)") auto
  then have strip: "strip_cr l = request_line m p v" "map strip_cr ls = map header_line hs"
    using split(4) by simp_all
  have ok: "token_ok m" "token_ok p" "token_ok v" "list_all header_ok hs"
    using assms by (simp_all add: request_ok_def)
  have "\<forall>k\<in>set (map strip_cr ls). line_ok k"
    unfolding strip(2) using ok(4) header_line_ok by (auto simp: list_all_iff)
  then have "\<forall>k\<in>set ls. line_ok (strip_cr k)" by simp
  then have "parseHeaderLines ls req = parseHeaderLines (map header_line hs) req" for req
    using parseHeaderLines_strip [of ls] by (simp add: strip(2))
  then show ?thesis
    using ok
    by (simp add: HttpParser_parseHeadersOnly_def split(1-3) l strip(1) parseRequestLine_written
        parseHeaderLines_written header_map_def http_request_init_def)
qed

text \<open>The length of the body as \<open>parse\<close> reads it, \<open>None\<close> when it rejects it.\<close>

definition body_length :: "http_request \<Rightarrow> nat option" where
  "body_length req =
     (case hr_headers req ''content-length'' of
        None \<Rightarrow> Some 0
      | Some v \<Rightarrow>
          Option.bind (stol v) (\<lambda>i. if i < 0 \<or> kMaxBodySize < nat i then None else Some (nat i)))"

lemma parse_by_headers:
  "HttpParser_parse buffer req =
    (case HttpParser_parseHeadersOnly buffer req of
       (HttpComplete, q, n) \<Rightarrow>
         (case body_length q of
            None \<Rightarrow> (HttpError, q, 0)
          | Some len \<Rightarrow>
              if length buffer < n + len then (HttpIncomplete, q, 0)
              else (HttpComplete, q\<lparr>hr_body := substr buffer n len\<rparr>, n + len))
     | (r, q, _) \<Rightarrow> (r, q, 0))"
proof (cases "str_find buffer header_mark 0")
  case None
  then show ?thesis by (simp add: HttpParser_parse_def HttpParser_parseHeadersOnly_def)
next
  case (Some e)
  show ?thesis
  proof (cases "getlines (substr buffer 0 e)")
    case Nil
    with Some show ?thesis by (simp add: HttpParser_parse_def HttpParser_parseHeadersOnly_def)
  next
    case (Cons l ls)
    obtain ok q where q: "parseRequestLine (strip_cr l) req = (ok, q)" by fastforce
    obtain ok2 q2 where q2: "parseHeaderLines ls q = (ok2, q2)" by fastforce
    show ?thesis
    proof (cases "hr_headers q2 ''content-length''")
      case None
      with Some Cons show ?thesis
        by (cases ok; cases ok2) (simp_all add: HttpParser_parse_def HttpParser_parseHeadersOnly_def q q2 body_length_def Let_def)
    next
      case (Some v)
      with \<open>str_find buffer header_mark 0 = Some e\<close> Cons show ?thesis
        by (cases ok; cases ok2; cases "stol v")
          (simp_all add: HttpParser_parse_def HttpParser_parseHeadersOnly_def q q2 body_length_def Let_def)
    qed
  qed
qed

text \<open>C22.
  The handler's look at the header and the full parser agree: \<open>parse\<close> rejects or waits for a header
  exactly when \<open>parseHeadersOnly\<close> does, reads the same request line and headers, and then only decides
  about the body by the content length.\<close>

theorem HttpParser_parsers_agree:
  "HttpParser_parse buffer req =
    (case HttpParser_parseHeadersOnly buffer req of
       (HttpComplete, q, n) \<Rightarrow>
         (case body_length q of
            None \<Rightarrow> (HttpError, q, 0)
          | Some len \<Rightarrow>
              if length buffer < n + len then (HttpIncomplete, q, 0)
              else (HttpComplete, q\<lparr>hr_body := substr buffer n len\<rparr>, n + len))
     | (r, q, _) \<Rightarrow> (r, q, 0))"
  by (rule parse_by_headers)

text \<open>The request that a head stands for, and when its body has the announced length.\<close>

definition written_request :: "string \<Rightarrow> string \<Rightarrow> string \<Rightarrow> (string \<times> string) list \<Rightarrow> bytes \<Rightarrow> http_request" where
  "written_request m p v hs body =
     \<lparr>hr_method = m, hr_path = p, hr_version = v, hr_headers = header_map hs, hr_body = body\<rparr>"

definition announces :: "(string \<times> string) list \<Rightarrow> nat \<Rightarrow> bool" where
  "announces hs n \<longleftrightarrow>
     header_map hs ''content-length'' = Some (to_string n) \<or>
     header_map hs ''content-length'' = None \<and> n = 0"

lemma body_length_written:
  assumes "announces hs n" "n \<le> kMaxBodySize"
  shows "body_length (written_request m p v hs body) = Some n"
proof -
  have "stol (to_string n) = Some (int n)" using assms(2) by (intro stol_to_string) (simp add: kMaxBodySize_def)
  then show ?thesis using assms by (auto simp: body_length_def written_request_def announces_def)
qed

lemma parse_written:
  assumes "request_ok m p v hs" "announces hs (length body)" "length body \<le> kMaxBodySize"
  shows "HttpParser_parse (request_head m p v hs @ body @ rest) http_request_init =
    (HttpComplete, written_request m p v hs body, length (request_head m p v hs) + length body)"
  using parseHeadersOnly_written [OF assms(1), of "body @ rest"] body_length_written [OF assms(2,3), of m p v "[]"]
  by (simp add: parse_by_headers written_request_def substr_def)

text \<open>C24.
  A request is read back as it was written: for any method, path and version without white space, any
  headers of the usual form and any body of the announced length, the parser returns exactly the
  request, with the header names in lower case, and consumes exactly its bytes, whatever follows.\<close>

theorem HttpParser_roundtrip:
  assumes "request_ok m p v hs" "announces hs (length body)" "length body \<le> kMaxBodySize"
  shows "HttpParser_parse (request_head m p v hs @ body @ rest) http_request_init =
    (HttpComplete, written_request m p v hs body, length (request_head m p v hs) + length body)"
  by (rule parse_written [OF assms])

definition put_headers :: "(string \<times> string) list" where
  "put_headers = [(''Host'', ''localhost''), (''Content-Length'', to_string 5)]"

lemma put_headers_ok: "request_ok ''PUT'' ''/k'' ''HTTP/1.1'' put_headers" "announces put_headers (length ''hello'')"
  by code_simp+

theorem HttpParser_roundtrip_witness:
  "HttpParser_parse (request_head ''PUT'' ''/k'' ''HTTP/1.1'' put_headers @ ''hello'' @ ''GET'') http_request_init =
   (HttpComplete, written_request ''PUT'' ''/k'' ''HTTP/1.1'' put_headers ''hello'',
    length (request_head ''PUT'' ''/k'' ''HTTP/1.1'' put_headers) + 5)"
  using HttpParser_roundtrip [OF put_headers_ok, of "''GET''"] by (simp add: kMaxBodySize_def)

lemma find_prefix_None:
  assumes "find_sub pat (s @ t) = Some i" "length s < i + length pat"
  shows "find_sub pat s = None"
proof (rule ccontr)
  assume "find_sub pat s \<noteq> None"
  then obtain j where j: "find_sub pat s = Some j" by blast
  from find_sub_append [OF this, of t] assms(1) have "j = i" by simp
  with find_sub_bound [OF j] assms(2) show False by simp
qed

lemma headers_incomplete:
  assumes ok: "request_ok m p v hs" and "request_head m p v hs @ body = b @ rest"
    and "length b < length (request_head m p v hs)" "length (request_head m p v hs) \<le> kMaxHeaderSectionSize"
  shows "HttpParser_parseHeadersOnly b http_request_init = (HttpIncomplete, http_request_init, 0)"
proof -
  have "find_sub header_mark (b @ rest) = Some (length (join_crlf (request_line m p v # map header_line hs)))"
    using head_split(1) [OF ok, of body] assms(2) by simp
  from find_prefix_None [OF this] head_split(2) [OF ok] assms(3)
  have "find_sub header_mark b = None" by simp
  with assms(3,4) show ?thesis by (simp add: HttpParser_parseHeadersOnly_def)
qed

text \<open>C30.
  A request that has arrived only in part is waited for: every proper prefix of a request with a
  header section of at most 16 KB is reported incomplete, never rejected and never answered early.\<close>

theorem HttpParser_prefix_incomplete:
  assumes ok: "request_ok m p v hs" and len: "announces hs (length body)" "length body \<le> kMaxBodySize"
    and b: "request_head m p v hs @ body = b @ rest" "rest \<noteq> []"
    and "length (request_head m p v hs) \<le> kMaxHeaderSectionSize"
  shows "fst (HttpParser_parse b http_request_init) = HttpIncomplete"
proof (cases "length b < length (request_head m p v hs)")
  case True
  from headers_incomplete [OF ok b(1) this assms(6)] show ?thesis by (simp add: parse_by_headers)
next
  case False
  then have "length (request_head m p v hs) \<le> length b" by simp
  from append_longer [OF b(1) this] obtain c where c: "b = request_head m p v hs @ c" "body = c @ rest" .
  have "body_length (written_request m p v hs []) = Some (length body)"
    by (rule body_length_written [OF len])
  with b(2) parseHeadersOnly_written [OF ok, of c] show ?thesis
    by (simp add: parse_by_headers c written_request_def)
qed

theorem HttpParser_prefix_incomplete_witness:
  "fst (HttpParser_parse (request_head ''PUT'' ''/k'' ''HTTP/1.1'' put_headers @ ''hell'') http_request_init) =
   HttpIncomplete"
proof -
  have "length (request_head ''PUT'' ''/k'' ''HTTP/1.1'' put_headers) \<le> kMaxHeaderSectionSize" by code_simp
  then show ?thesis
    using HttpParser_prefix_incomplete [OF put_headers_ok, of _ "''o''"] by (simp add: kMaxBodySize_def)
qed

section \<open>What a parsed request looks like\<close>

text \<open>
  A request as the handler may rely on it: a request line of three words, header names in lower case
  and without a colon, values without leading blanks, a body within the limit.
\<close>

definition header_wf :: "string \<Rightarrow> string \<Rightarrow> bool" where
  "header_wf k v \<longleftrightarrow> http_toLower k = k \<and> CHR '':'' \<notin> set k \<and> (v \<noteq> [] \<longrightarrow> hd v \<noteq> CHR '' '')"

definition headers_wf :: "http_request \<Rightarrow> bool" where
  "headers_wf req \<longleftrightarrow> (\<forall>k v. hr_headers req k = Some v \<longrightarrow> header_wf k v)"

definition line_wf :: "http_request \<Rightarrow> bool" where
  "line_wf req \<longleftrightarrow> token_ok (hr_method req) \<and> token_ok (hr_path req) \<and> token_ok (hr_version req)"

lemma read_token_ok:
  assumes "read_token s = Some (w, t)"
  shows "token_ok w"
proof -
  let ?d = "dropWhile is_space s"
  have w: "w = takeWhile (\<lambda>c. \<not> is_space c) ?d" "?d \<noteq> []"
    using assms by (auto simp: read_token_def Let_def simp del: dropWhile_eq_Nil_conv split: if_splits)
  then have "\<not> is_space (hd ?d)" using hd_dropWhile by blast
  with w have "w \<noteq> []" by (cases ?d) auto
  with w(1) show ?thesis by (auto simp: token_ok_def dest: set_takeWhileD)
qed

lemma parseRequestLine_wf:
  assumes "parseRequestLine l req = (True, req')"
  shows "line_wf req' \<and> hr_headers req' = hr_headers req \<and> hr_body req' = hr_body req"
  using assms
  by (auto simp: parseRequestLine_def line_wf_def split: option.splits prod.splits dest: read_token_ok)

lemma lower_char_colon: "lower_char c = CHR '':'' \<Longrightarrow> c = CHR '':''"
proof (rule ccontr)
  assume l: "lower_char c = CHR '':''" "c \<noteq> CHR '':''"
  then have c: "65 \<le> ch_code c" "ch_code c \<le> 90" by (auto simp: lower_char_def split: if_splits)
  then have "ch_code (lower_char c) = ch_code c + 32" by (simp add: lower_char_def)
  with c l(1) show False by (simp add: ch_code_def)
qed

lemma parseHeaderLine_wf:
  assumes "parseHeaderLine l req = (True, req')" "headers_wf req"
  shows "headers_wf req' \<and> line_wf req' = line_wf req \<and> hr_body req' = hr_body req"
proof -
  from assms(1) obtain i where i: "find_sub '':'' l = Some i"
    "req' = req\<lparr>hr_headers := (hr_headers req)(http_toLower (take i l) \<mapsto>
       dropWhile (\<lambda>c. c = CHR '' '') (drop (i + 1) l))\<rparr>"
    by (auto simp: parseHeaderLine_def substr_def Let_def split: option.splits)
  have "CHR '':'' \<notin> set (take i l)"
  proof
    assume "CHR '':'' \<in> set (take i l)"
    then obtain j where j: "j < i" "j < length l" "l ! j = CHR '':''" by (auto simp: in_set_conv_nth)
    then have "prefix '':'' (drop j l)" by (simp add: Cons_nth_drop_Suc [symmetric])
    with find_sub_least [OF i(1) j(1)] show False by blast
  qed
  then have "CHR '':'' \<notin> set (http_toLower (take i l))"
    by (auto simp: http_toLower_def dest: lower_char_colon [OF sym])
  then have "header_wf (http_toLower (take i l)) (dropWhile (\<lambda>c. c = CHR '' '') (drop (i + 1) l))"
    using hd_dropWhile [of "\<lambda>c. c = CHR '' ''"] by (auto simp: header_wf_def http_toLower_def)
  then show ?thesis using assms(2) by (auto simp: i(2) headers_wf_def line_wf_def)
qed

lemma parseHeaderLines_wf:
  assumes "parseHeaderLines ls req = (True, req')" "headers_wf req"
  shows "headers_wf req' \<and> line_wf req' = line_wf req \<and> hr_body req' = hr_body req"
  using assms
proof (induction ls arbitrary: req)
  case (Cons l ls)
  show ?case
  proof (cases "strip_cr l = []")
    case False
    with Cons.prems(1) obtain q where q: "parseHeaderLine (strip_cr l) req = (True, q)"
      "parseHeaderLines ls q = (True, req')"
      by (auto split: prod.splits bool.splits)
    from parseHeaderLine_wf [OF q(1) Cons.prems(2)] Cons.IH [OF q(2)] show ?thesis by simp
  qed (use Cons in simp)
qed simp

lemma parseHeadersOnly_wf:
  assumes "HttpParser_parseHeadersOnly buffer http_request_init = (HttpComplete, q, n)"
  shows "headers_wf q \<and> line_wf q \<and> hr_body q = []"
proof -
  from assms obtain l ls q1 where l: "parseRequestLine (strip_cr l) http_request_init = (True, q1)"
    "parseHeaderLines ls q1 = (True, q)"
    by (auto simp: HttpParser_parseHeadersOnly_def simp del: str_find_0
        split: option.splits list.splits prod.splits bool.splits if_splits)
  from parseRequestLine_wf [OF l(1)] have "headers_wf q1" "line_wf q1" "hr_body q1 = []"
    by (simp_all add: headers_wf_def http_request_init_def)
  with parseHeaderLines_wf [OF l(2)] show ?thesis by simp
qed

text \<open>C26.
  A request the parser returns is well formed, whatever bytes a client sends: its request line has
  three words without blanks, every header name is in lower case and holds no colon, no header value
  begins with a blank, the body is at most 5 GB, and head and body lie within the buffer.\<close>

theorem HttpParser_request_wf:
  assumes "HttpParser_parse buffer http_request_init = (HttpComplete, req, n)"
  shows "line_wf req \<and> headers_wf req \<and> length (hr_body req) \<le> kMaxBodySize \<and>
    4 + length (hr_body req) \<le> n \<and> n \<le> length buffer"
proof -
  obtain r q m where q: "HttpParser_parseHeadersOnly buffer http_request_init = (r, q, m)" by (rule prod_cases3)
  with assms obtain len where len: "r = HttpComplete" "body_length q = Some len" "m + len \<le> length buffer"
    "req = q\<lparr>hr_body := substr buffer m len\<rparr>" "n = m + len"
    by (auto simp: parse_by_headers split: http_result.splits option.splits if_splits)
  have "len \<le> kMaxBodySize"
    using len(2) by (auto simp: body_length_def bind_eq_Some_conv kMaxBodySize_def split: option.splits if_splits)
  then show ?thesis
    using parseHeadersOnly_wf q len parseHeadersOnly_consumed [of buffer http_request_init q m]
    by (auto simp: line_wf_def headers_wf_def substr_def)
qed

theorem HttpParser_request_wf_witness:
  "line_wf (written_request ''PUT'' ''/k'' ''HTTP/1.1'' put_headers ''hello'') \<and>
   headers_wf (written_request ''PUT'' ''/k'' ''HTTP/1.1'' put_headers ''hello'')"
proof -
  have "HttpParser_parse (request_head ''PUT'' ''/k'' ''HTTP/1.1'' put_headers @ ''hello'') http_request_init =
      (HttpComplete, written_request ''PUT'' ''/k'' ''HTTP/1.1'' put_headers ''hello'',
       length (request_head ''PUT'' ''/k'' ''HTTP/1.1'' put_headers) + 5)"
    using parse_written [OF put_headers_ok, of "[]"] by (simp add: kMaxBodySize_def)
  from HttpParser_request_wf [OF this] show ?thesis by blast
qed

end
