(* ===== verification/Disk_Isolation.thy ===== *)
theory Disk_Isolation
  imports Disk_Properties
begin

text \<open>
  Clients at work at the same time: what one operation of the disk storage leaves as it is for the
  others. Every operation changes the files at the locations of its own key only, so that an upload
  goes on undisturbed while other clients store, delete and upload other objects, and even while they
  store and delete the object itself.
\<close>

section \<open>The files an operation leaves alone\<close>

text \<open>
  \<open>touches Q D h h'\<close>: files at other locations than \<open>Q\<close> keep their place and their contents; the
  contents of a file that is not at one of the locations \<open>D\<close>, deleted ones that are still open
  included, do not change, and it gets no other name.
\<close>

definition files_kept :: "string list set \<Rightarrow> host \<Rightarrow> host \<Rightarrow> bool" where
  "files_kept Q h h' \<longleftrightarrow>
     (\<forall>p i. p \<notin> Q \<longrightarrow> node_at h p = Some (File i) \<longrightarrow>
        node_at h' p = Some (File i) \<and> hs_data h' i = hs_data h i)"

definition contents_kept :: "string list set \<Rightarrow> host \<Rightarrow> host \<Rightarrow> bool" where
  "contents_kept D h h' \<longleftrightarrow> hs_next h \<le> hs_next h' \<and>
     (\<forall>i < hs_next h. (\<forall>p\<in>D. node_at h p \<noteq> Some (File i)) \<longrightarrow>
        hs_data h' i = hs_data h i \<and> (\<forall>p. node_at h' p = Some (File i) \<longrightarrow> node_at h p = Some (File i)))"

definition touches :: "string list set \<Rightarrow> string list set \<Rightarrow> host \<Rightarrow> host \<Rightarrow> bool" where
  "touches Q D h h' \<longleftrightarrow> files_kept Q h h' \<and> contents_kept D h h'"

lemma files_keptD:
  "files_kept Q h h' \<Longrightarrow> p \<notin> Q \<Longrightarrow> node_at h p = Some (File i) \<Longrightarrow>
    node_at h' p = Some (File i) \<and> hs_data h' i = hs_data h i"
  by (simp add: files_kept_def)

lemma touches_files: "touches Q D h h' \<Longrightarrow> files_kept Q h h'"
  by (simp add: touches_def)

lemma contents_keptD:
  assumes "contents_kept D h h'" "i < hs_next h" "\<forall>p\<in>D. node_at h p \<noteq> Some (File i)"
  shows "i < hs_next h'" "hs_data h' i = hs_data h i"
    "node_at h' p = Some (File i) \<Longrightarrow> node_at h p = Some (File i)"
  using assms unfolding contents_kept_def by (meson order_less_le_trans, blast+)

lemma touches_refl [simp]: "touches Q D h h"
  by (simp add: touches_def files_kept_def contents_kept_def)

lemma contents_kept_trans:
  assumes "contents_kept D h1 h2" "contents_kept D h2 h3"
  shows "contents_kept D h1 h3"
proof -
  have kept: "hs_data h3 i = hs_data h1 i \<and> (\<forall>p. node_at h3 p = Some (File i) \<longrightarrow> node_at h1 p = Some (File i))"
    if i: "i < hs_next h1" "\<forall>p\<in>D. node_at h1 p \<noteq> Some (File i)" for i
  proof -
    note 1 = contents_keptD [OF assms(1) i]
    then have "\<forall>p\<in>D. node_at h2 p \<noteq> Some (File i)" using i(2) by blast
    from contents_keptD [OF assms(2) 1(1) this] 1(2,3) show ?thesis by auto
  qed
  have "hs_next h1 \<le> hs_next h3"
    using assms unfolding contents_kept_def by (blast intro: order_trans)
  with kept show ?thesis by (simp only: contents_kept_def) blast
qed

lemma touches_trans:
  assumes "touches Q D h1 h2" "touches Q D h2 h3"
  shows "touches Q D h1 h3"
proof -
  have "files_kept Q h1 h3" using assms unfolding touches_def files_kept_def by metis
  with assms contents_kept_trans show ?thesis unfolding touches_def by blast
qed

lemma touches_more: "touches Q D h h' \<Longrightarrow> Q \<subseteq> R \<Longrightarrow> D \<subseteq> E \<Longrightarrow> touches R E h h'"
  unfolding touches_def files_kept_def contents_kept_def by blast

lemma touches_grown: "grown h h' \<Longrightarrow> touches Q D h h'"
proof -
  assume g: "grown h h'"
  have "node_at h' p = Some (File i) \<Longrightarrow> node_at h p = Some (File i)" for p i
    using g unfolding grown_def by (metis node.distinct(1) option.inject)
  with g show ?thesis by (simp add: touches_def files_kept_def contents_kept_def grown_def)
qed

lemma touches_data:
  assumes "fs_inv env root h" "node_at h q = Some (File i)"
  shows "touches {q} {q} h (h\<lparr>hs_data := (hs_data h)(i := x), hs_room := r\<rparr>)"
proof -
  have "j \<noteq> i" if "node_at h p = Some (File j)" "p \<noteq> q" for p j
    using fs_invD(6) [OF assms(1)] assms(2) that by blast
  with assms(2) show ?thesis by (simp add: touches_def files_kept_def contents_kept_def)
qed

lemma touches_stream:
  assumes fs: "fs_inv env root h" and q: "\<And>i. ofs_file f = Some i \<Longrightarrow> node_at h q = Some (File i)"
  shows "ofs_write env f b h = (f', h') \<Longrightarrow> touches {q} {q} h h' \<and> node_at h' = node_at h \<and>
      fs_inv env root h' \<and> ofs_file f' = ofs_file f"
    and "ofs_close f h = (f', h') \<Longrightarrow> touches {q} {q} h h' \<and> node_at h' = node_at h \<and> fs_inv env root h'"
proof -
  have data: "touches {q} {q} h h' \<and> node_at h' = node_at h \<and> fs_inv env root h'"
    if "case ofs_file f of None \<Rightarrow> h' = h
      | Some i \<Rightarrow> \<exists>x r. h' = h\<lparr>hs_data := (hs_data h)(i := x), hs_room := r\<rparr> \<and> (hs_room h = None \<longrightarrow> r = None)"
  proof (cases "ofs_file f")
    case None
    with that fs show ?thesis by simp
  next
    case (Some i)
    with that obtain x r where "h' = h\<lparr>hs_data := (hs_data h)(i := x), hs_room := r\<rparr>" by auto
    with touches_data [OF fs q [OF Some]] fs show ?thesis by simp
  qed
  show "touches {q} {q} h h' \<and> node_at h' = node_at h \<and> fs_inv env root h' \<and> ofs_file f' = ofs_file f"
    if "ofs_write env f b h = (f', h')" using ofs_write_host [OF that] data by blast
  show "touches {q} {q} h h' \<and> node_at h' = node_at h \<and> fs_inv env root h'" if "ofs_close f h = (f', h')"
    using ofs_close_host [OF that] data by blast
qed

lemma touches_set:
  assumes "node_at h' = (node_at h)(q \<mapsto> File i)" "i = hs_next h \<and> hs_next h' = Suc i \<or>
      node_at h q = Some (File i) \<and> hs_next h' = hs_next h"
    and "hs_data h' = (hs_data h)(i := x)" "fs_inv env root h"
  shows "touches {q} {q} h h'"
proof -
  have "j \<noteq> i" if "node_at h p = Some (File j)" "p \<noteq> q" for p j
    using assms(2) fs_invD(5,6) [OF assms(4)] that by blast
  then have "files_kept {q} h h'" by (auto simp: files_kept_def assms(1,3))
  moreover have "contents_kept {q} h h'" using assms(2) by (auto simp: contents_kept_def assms(1,3))
  ultimately show ?thesis by (simp add: touches_def)
qed

lemma touches_open:
  assumes ok: "root_ok root" and fs: "fs_inv env root h" and ns: "\<forall>n\<in>set ns. plain_name n"
    and op: "ofs_open env (root @ ns) h = (f, h')"
  shows "touches {disk_base env root @ ns} {disk_base env root @ ns} h h' \<and> fs_inv env root h' \<and>
    (\<forall>i. ofs_file f = Some i \<longrightarrow> node_at h' (disk_base env root @ ns) = Some (File i))"
proof (cases "ofs_good f")
  case False
  with ofs_open_fails [OF op] fs show ?thesis by simp
next
  case True
  have "path_ok (root @ ns)" using ns by (auto intro!: path_ok_root [OF ok])
  from ofs_open_keeps [OF fs anchored_root [OF fs ok] this op True] obtain q i where
    q: "fs_resolve env (root @ ns) h = WalkAt q" and f: "ofs_file f = Some i"
    and h': "fs_inv env root h'" "node_at h' = (node_at h)(q \<mapsto> File i)" by auto
  have q_eq: "q = disk_base env root @ ns" using resolve_plain [OF ok fs ns q] by simp
  have "hs_data h' = (hs_data h)(i := []) \<and> (i = hs_next h \<and> hs_next h' = Suc i \<or>
      node_at h q = Some (File i) \<and> hs_next h' = hs_next h)"
    using op q f by (auto simp: ofs_open_def Let_def split: option.splits node.splits)
  then have "touches {q} {q} h h'" by (intro touches_set [OF h'(2) _ _ fs]) auto
  then show ?thesis using h' f q_eq by simp
qed

lemma touches_dirs:
  assumes "root_ok root" "fs_inv env root h" "good_key k"
    and "fs_create_directories env (path_parent (root @ key_names k)) h = (d, h')"
  shows "touches Q D h h' \<and> fs_inv env root h' \<and> grown h h'"
proof -
  have "path_ok (root @ butlast (key_names k))"
    using good_key_plain [OF assms(3)] by (auto intro!: path_ok_root [OF assms(1)] dest: in_set_butlastD)
  with create_directories_grown [OF assms(2) anchored_root [OF assms(2,1)]] assms(4) touches_grown
  show ?thesis by (simp add: path_parent_key [OF assms(1)])
qed

lemma touches_remove:
  assumes ok: "root_ok root" and fs: "fs_inv env root h" and ns: "\<forall>n\<in>set ns. plain_name n"
    and op: "fs_remove env (root @ ns) h = (d, h')"
  shows "touches {disk_base env root @ ns} D h h'"
proof (cases "h' = h")
  case False
  with op obtain q where q: "fs_resolve env (root @ ns) h = WalkAt q" and h': "h' = remove_node q h"
    by (auto simp: fs_remove_def split: fs_walk.splits option.splits node.splits if_splits)
  moreover from this op False have "q \<noteq> []" by (auto simp: fs_remove_def)
  moreover have "q = disk_base env root @ ns" using resolve_plain [OF ok fs ns q] by simp
  ultimately show ?thesis by (auto simp: touches_def files_kept_def contents_kept_def)
qed simp

text \<open>The locations of an object and of its temporary file.\<close>

abbreviation object_place :: "os_env \<Rightarrow> fs_path \<Rightarrow> string \<Rightarrow> string list" where
  "object_place env root k \<equiv> disk_base env root @ key_names k"

abbreviation temp_place :: "os_env \<Rightarrow> fs_path \<Rightarrow> string \<Rightarrow> string list" where
  "temp_place env root k \<equiv> disk_base env root @ temp_names k"

lemma temp_names_inj: "temp_names j = temp_names k \<longleftrightarrow> j = k"
proof
  assume "temp_names j = temp_names k"
  then have "butlast (key_names j) @ [last (key_names j)] = butlast (key_names k) @ [last (key_names k)]"
    by (simp add: temp_names_def)
  then have "key_names j = key_names k" by simp
  then show "j = k" by simp
qed simp

lemma touches_store:
  assumes inv: "disk_inv env root h" and k: "good_key k"
  shows "DiskObjectStorage_put env root k b h = (q, h') \<Longrightarrow> touches {object_place env root k} {object_place env root k} h h'"
    and "DiskObjectStorage_setnx env root k b h = (x, h') \<Longrightarrow> touches {object_place env root k} {object_place env root k} h h'"
proof -
  have ok: "root_ok root" and fs: "fs_inv env root h" using inv by (auto simp: disk_inv_def)
  let ?t = "root @ key_names k" and ?Q = "{object_place env root k}"
  have map: "mapPath root k = Some ?t" by (rule mapPath_good [OF ok k])
  obtain d h1 where d: "fs_create_directories env (path_parent ?t) h = (d, h1)" by fastforce
  obtain f h2 where o: "ofs_open env ?t h1 = (f, h2)" by fastforce
  obtain f' h3 where w: "ofs_write env f b h2 = (f', h3)" by fastforce
  obtain f'' h4 where c: "ofs_close f' h3 = (f'', h4)" by fastforce
  from touches_dirs [OF ok fs k d] have 1: "touches ?Q ?Q h h1" "fs_inv env root h1" by simp_all
  from touches_open [OF ok 1(2) good_key_plain [OF k] o]
  have 2: "touches ?Q ?Q h1 h2" "fs_inv env root h2"
    "ofs_file f = Some i \<Longrightarrow> node_at h2 (object_place env root k) = Some (File i)" for i by auto
  from touches_stream(1) [OF 2(2) 2(3) w]
  have 3: "touches ?Q ?Q h2 h3" "node_at h3 = node_at h2" "fs_inv env root h3" "ofs_file f' = ofs_file f" by auto
  have "ofs_file f' = Some i \<Longrightarrow> node_at h3 (object_place env root k) = Some (File i)" for i
    using 2(3) 3(2,4) by simp
  from touches_stream(2) [OF 3(3) this c] have 4: "touches ?Q ?Q h3 h4" by simp
  from 1(1) 2(1) 3(1) 4 have "touches ?Q ?Q h h2" "touches ?Q ?Q h h4" using touches_trans by blast+
  with 1(1) show "DiskObjectStorage_put env root k b h = (q, h') \<Longrightarrow> touches ?Q ?Q h h'"
    "DiskObjectStorage_setnx env root k b h = (x, h') \<Longrightarrow> touches ?Q ?Q h h'"
    by (auto simp: DiskObjectStorage_put_def DiskObjectStorage_setnx_def map d o w c
        split: if_splits outcome.splits bool.splits)
qed

lemma touches_del:
  assumes "disk_inv env root h" "good_key k" "DiskObjectStorage_del env root k h = (d, h')"
  shows "touches {object_place env root k} D h h'"
  using assms touches_remove [of root env h "key_names k" d h'] good_key_plain [OF assms(2)]
  by (auto simp: DiskObjectStorage_del_def mapPath_good disk_inv_def)

lemma touches_begin:
  assumes inv: "disk_inv env root h" and k: "good_key k"
    and op: "DiskObjectStorage_beginPut env root k n h = (res, h')"
  shows "touches {temp_place env root k} {temp_place env root k} h h'"
proof -
  let ?Q = "{temp_place env root k}"
  have ok: "root_ok root" and fs: "fs_inv env root h" using inv by (auto simp: disk_inv_def)
  have map: "mapPath root k = Some (root @ key_names k)" by (rule mapPath_good [OF ok k])
  obtain d h1 where d: "fs_create_directories env (path_parent (root @ key_names k)) h = (d, h1)" by fastforce
  obtain f h2 where o: "ofs_open env (root @ temp_names k) h1 = (f, h2)" by fastforce
  from touches_dirs [OF ok fs k d] have 1: "touches ?Q ?Q h h1" "fs_inv env root h1" by simp_all
  from touches_open [OF ok 1(2) temp_plain [OF k] o] have 2: "touches ?Q ?Q h1 h2" by simp
  from 1(1) touches_trans [OF 1(1) 2] op show ?thesis
    by (auto simp: DiskObjectStorage_beginPut_def DiskWriteSession_new_def map d path_concat_key o split: if_splits)
qed

lemma disk_uploadsD:
  assumes "disk_uploads env root w k b h"
  shows "good_key k" "dw_tempPath w = root @ temp_names k" "dw_finalPath w = root @ key_names k"
    "ofs_file (dw_file w) = Some i \<Longrightarrow> node_at h (temp_place env root k) = Some (File i)"
  using assms by (auto simp: disk_uploads_def ofs_holds_def split: if_splits)

lemma touches_chunk:
  assumes inv: "disk_inv env root h" and w: "disk_uploads env root w k b h"
    and op: "DiskWriteSession_writeChunk env w c h = (r, w', h')"
  shows "touches {temp_place env root k} {temp_place env root k} h h'"
proof (cases "ofs_good (dw_file w)")
  case False
  with op show ?thesis by (simp add: DiskWriteSession_writeChunk_def)
next
  case True
  with op obtain f where f: "ofs_write env (dw_file w) c h = (f, h')"
    by (auto simp: DiskWriteSession_writeChunk_def split: prod.splits)
  have "fs_inv env root h" using inv by (simp add: disk_inv_def)
  from touches_stream(1) [OF this disk_uploadsD(4) [OF w] f] show ?thesis by simp
qed

text \<open>At its end the file of the upload takes the name of the object, or is removed.\<close>

abbreviation upload_touches :: "os_env \<Rightarrow> fs_path \<Rightarrow> string \<Rightarrow> host \<Rightarrow> host \<Rightarrow> bool" where
  "upload_touches env root k \<equiv> touches {temp_place env root k, object_place env root k} {temp_place env root k}"

lemma touches_rename:
  assumes ok: "root_ok root" and fs: "fs_inv env root h" and k: "good_key k"
    and i: "node_at h (temp_place env root k) = Some (File i)"
    and op: "fs_rename env (root @ temp_names k) (root @ key_names k) h = (d, h')"
  shows "upload_touches env root k h h' \<and> (\<not> d \<longrightarrow> fs_inv env root h')"
proof -
  let ?Q = "temp_place env root k"
  from resolve_reaches [OF ok fs temp_plain [OF k]] i
  have q: "fs_resolve env (root @ temp_names k) h = WalkAt ?Q" by simp
  show ?thesis
  proof (cases d)
    case False
    with op q i fs show ?thesis
      by (auto simp: fs_rename_def split: fs_walk.splits option.splits node.splits if_splits)
  next
    case True
    with op q i obtain r where r: "fs_resolve env (root @ key_names k) h = WalkAt r"
      and h': "h' = (if ?Q = r then h else set_node r (File i) (remove_node ?Q h))" and dir: "node_at h r \<noteq> Some Dir"
      by (auto simp: fs_rename_def split: fs_walk.splits option.splits node.splits if_splits)
    have "r = object_place env root k" using resolve_plain [OF ok fs good_key_plain [OF k] r] by simp
    with i True show ?thesis by (auto simp: touches_def files_kept_def contents_kept_def h')
  qed
qed

lemma touches_end:
  assumes inv: "disk_inv env root h" and w: "disk_uploads env root w k b h"
  shows "DiskWriteSession_abort env w h = (w', h') \<Longrightarrow> upload_touches env root k h h'"
    and "DiskWriteSession_finish env w h = (q, w', h') \<Longrightarrow> upload_touches env root k h h'"
proof -
  have ok: "root_ok root" and fs: "fs_inv env root h" using inv by (auto simp: disk_inv_def)
  let ?kept = "upload_touches env root k"
  note up = disk_uploadsD [OF w]
  obtain f h1 where c: "ofs_close (dw_file w) h = (f, h1)" by fastforce
  from touches_stream(2) [OF fs up(4) c] have 1: "?kept h h1" "fs_inv env root h1"
    by (auto elim: touches_more)
  have rm: "?kept h (snd (fs_remove env (dw_tempPath w) t))" if t: "?kept h t" "fs_inv env root t" for t
  proof -
    obtain d t' where d: "fs_remove env (root @ temp_names k) t = (d, t')" by fastforce
    from touches_remove [OF ok t(2) temp_plain [OF up(1)] d] have "?kept t t'" by (rule touches_more) auto
    with touches_trans [OF t(1)] show ?thesis by (simp add: up(2) d)
  qed
  show "DiskWriteSession_abort env w h = (w', h') \<Longrightarrow> ?kept h h'"
    using rm [OF 1] by (auto simp: DiskWriteSession_abort_def c)
  assume fin: "DiskWriteSession_finish env w h = (q, w', h')"
  show "?kept h h'"
  proof (cases "ofs_good f")
    case False
    with fin rm [OF 1] show ?thesis by (auto simp: DiskWriteSession_finish_def c)
  next
    case True
    obtain d h2 where rn: "fs_rename env (dw_tempPath w) (dw_finalPath w) h1 = (d, h2)" by fastforce
    from Disk_close_session [OF inv w c] True obtain i where
      "node_at h1 (temp_place env root k) = Some (File i)" by auto
    from touches_rename [OF ok 1(2) up(1) this rn [unfolded up(2,3)]]
    have 2: "?kept h1 h2" "\<not> d \<Longrightarrow> fs_inv env root h2" by auto
    with fin rm [OF touches_trans [OF 1(1)]] touches_trans [OF 1(1) 2(1)] True rn show ?thesis
      by (auto simp: DiskWriteSession_finish_def c Let_def split: if_splits)
  qed
qed

section \<open>What other clients do\<close>

text \<open>
  One operation of another client: it stores an object with a key of \<open>puts\<close> in place, does something
  for an upload of an object with a key of \<open>ups\<close>, or inserts or deletes any object.
\<close>

inductive client_step ::
    "os_env \<Rightarrow> fs_path \<Rightarrow> string set \<Rightarrow> string set \<Rightarrow> host \<Rightarrow> host \<Rightarrow> bool" for env root puts ups where
  client_put: "good_key j \<Longrightarrow> j \<in> puts \<Longrightarrow> str_ok b \<Longrightarrow>
    DiskObjectStorage_put env root j b h = (q, h') \<Longrightarrow> client_step env root puts ups h h'"
| client_setnx: "good_key j \<Longrightarrow> str_ok b \<Longrightarrow>
    DiskObjectStorage_setnx env root j b h = (x, h') \<Longrightarrow> client_step env root puts ups h h'"
| client_del: "good_key j \<Longrightarrow> DiskObjectStorage_del env root j h = (d, h') \<Longrightarrow> client_step env root puts ups h h'"
| client_begin: "good_key j \<Longrightarrow> j \<in> ups \<Longrightarrow>
    DiskObjectStorage_beginPut env root j n h = (res, h') \<Longrightarrow> client_step env root puts ups h h'"
| client_chunk: "disk_uploads env root v j b h \<Longrightarrow> j \<in> ups \<Longrightarrow> str_ok c \<Longrightarrow>
    DiskWriteSession_writeChunk env v c h = (r, v', h') \<Longrightarrow> client_step env root puts ups h h'"
| client_finish: "disk_uploads env root v j b h \<Longrightarrow> j \<in> ups \<Longrightarrow>
    DiskWriteSession_finish env v h = (q, v', h') \<Longrightarrow> client_step env root puts ups h h'"
| client_abort: "disk_uploads env root v j b h \<Longrightarrow> j \<in> ups \<Longrightarrow>
    DiskWriteSession_abort env v h = (v', h') \<Longrightarrow> client_step env root puts ups h h'"

text \<open>
  It keeps the invariant and touches the places of its key only; what is written to is an object that
  is stored in place, one that was not there, or the temporary file of an upload.
\<close>

lemma setnx_touches:
  assumes inv: "disk_inv env root h" and k: "good_key k"
    and op: "DiskObjectStorage_setnx env root k b h = (x, h')"
  shows "\<exists>D. touches {object_place env root k} D h h' \<and> (\<forall>p\<in>D. \<forall>i. node_at h p \<noteq> Some (File i))"
proof (cases "\<exists>i. node_at h (object_place env root k) = Some (File i)")
  case True
  then obtain i where "fs_status env (root @ key_names k) h = StFile i" using status_key [OF inv k] by auto
  moreover have "mapPath root k = Some (root @ key_names k)" using mapPath_good [OF _ k] inv by (simp add: disk_inv_def)
  ultimately have "h' = h" using op by (simp add: DiskObjectStorage_setnx_def fs_exists_def)
  then show ?thesis using touches_refl by blast
next
  case False
  with touches_store(2) [OF inv k op] show ?thesis by blast
qed

lemma client_step_touches:
  assumes "client_step env root puts ups h h'" "disk_inv env root h"
  shows "disk_inv env root h' \<and> (\<exists>j D. good_key j \<and>
    (touches {object_place env root j} D h h' \<or>
     j \<in> ups \<and> touches {temp_place env root j, object_place env root j} D h h') \<and>
    (\<forall>p\<in>D. p = temp_place env root j \<or> p = object_place env root j \<and> j \<in> puts \<or> (\<forall>i. node_at h p \<noteq> Some (File i))))"
  using assms(1)
proof cases
  case (client_put j b q)
  with touches_store(1) [OF assms(2)] Disk_put_view [OF assms(2)] show ?thesis by fastforce
next
  case (client_setnx j b x)
  with setnx_touches [OF assms(2)] Disk_setnx_view [OF assms(2)] show ?thesis by meson
next
  case (client_del j d)
  with touches_del [OF assms(2), of j d h' "{}"] Disk_remove_key [OF assms(2)] show ?thesis by fastforce
next
  case (client_begin j n res)
  from touches_begin [OF assms(2) client_begin(1,3)]
  have "upload_touches env root j h h'" by (rule touches_more) auto
  with client_begin Disk_beginPut_view [OF assms(2)] show ?thesis by fastforce
next
  case (client_chunk v j b c r v')
  from touches_chunk [OF assms(2) client_chunk(1,4)]
  have "upload_touches env root j h h'" by (rule touches_more) auto
  with client_chunk disk_uploadsD(1) Disk_writeChunk_view [OF assms(2)] show ?thesis by fastforce
next
  case (client_finish v j b q v')
  with touches_end(2) [OF assms(2)] disk_uploadsD(1) Disk_finish_view [OF assms(2)] show ?thesis by fastforce
next
  case (client_abort v j b v')
  with touches_end(1) [OF assms(2)] disk_uploadsD(1) Disk_abort_view [OF assms(2)] show ?thesis by fastforce
qed

section \<open>An upload among other clients\<close>

lemma upload_kept:
  assumes "disk_uploads env root w k b h" "files_kept Q h h'" "temp_place env root k \<notin> Q"
  shows "disk_uploads env root w k b h'"
  using assms files_keptD [OF assms(2,3)] by (fastforce simp: disk_uploads_def ofs_holds_def)

lemma client_step_upload:
  assumes "client_step env root UNIV (- {k}) h h'" "disk_inv env root h" "disk_uploads env root w k b h"
  shows "disk_inv env root h' \<and> disk_uploads env root w k b h'"
proof -
  have other: "temp_place env root k \<noteq> object_place env root j" if "good_key j" for j
    using temp_not_key [OF disk_uploadsD(1) [OF assms(3)] that] by simp
  from client_step_touches [OF assms(1,2)] obtain j D where inv: "disk_inv env root h'" and j: "good_key j"
    "touches {object_place env root j} D h h' \<or>
      j \<noteq> k \<and> touches {temp_place env root j, object_place env root j} D h h'" by auto
  then obtain Q where "files_kept Q h h'" "temp_place env root k \<notin> Q"
    using other [OF j(1)] temp_names_inj [of k j] by (auto simp: touches_def)
  with upload_kept [OF assms(3)] inv show ?thesis by blast
qed

text \<open>The upload \<open>w\<close> takes chunks, other clients come in between.\<close>

inductive upload_run ::
    "os_env \<Rightarrow> fs_path \<Rightarrow> string \<Rightarrow> disk_write \<Rightarrow> host \<Rightarrow> bytes list \<Rightarrow> disk_write \<Rightarrow> host \<Rightarrow> bool" for env root k w h where
  upload_start: "upload_run env root k w h [] w h"
| upload_chunk: "upload_run env root k w h cs w1 h1 \<Longrightarrow> str_ok c \<Longrightarrow>
    DiskWriteSession_writeChunk env w1 c h1 = (True, w2, h2) \<Longrightarrow> upload_run env root k w h (cs @ [c]) w2 h2"
| upload_other: "upload_run env root k w h cs w1 h1 \<Longrightarrow> client_step env root UNIV (- {k}) h1 h2 \<Longrightarrow>
    upload_run env root k w h cs w1 h2"

lemma upload_run_holds:
  assumes "upload_run env root k w h cs w' h'" "disk_inv env root h" "disk_uploads env root w k [] h"
  shows "disk_inv env root h' \<and> disk_uploads env root w' k (concat cs) h'"
  using assms
proof (induction rule: upload_run.induct)
  case (upload_chunk cs w1 h1 c w2 h2)
  then have "disk_inv env root h1" "disk_uploads env root w1 k (concat cs) h1" by simp_all
  from Disk_writeChunk_view [OF this upload_chunk.hyps(3)] show ?case by simp
next
  case (upload_other cs w1 h1 h2)
  then have 1: "disk_inv env root h1" "disk_uploads env root w1 k (concat cs) h1" by simp_all
  from client_step_upload [OF upload_other.hyps(2) 1] show ?case .
qed simp


text \<open>Between its chunk and its end another client stores \<open>c\<close>.\<close>

definition shared_other :: host where
  "shared_other = \<lparr>hs_nodes = hs_nodes d_uploading @ [([''d'', ''c''], File 2)],
     hs_data = (hs_data d_uploading)(1 := ''AAAA'', 2 := ''x''), hs_next = 3, hs_room = None\<rparr>"

lemma c_key: "good_key ''c''"
  by code_simp

lemma c_map: "mapPath d_root ''c'' = Some (d_root @ [''c''])"
  using mapPath_good [OF d_root_ok c_key] by (simp add: key_names_def)

lemma put_c: "DiskObjectStorage_put direct_env d_root ''c'' ''x'' (snd (shared_write ''AAAA'' [])) = (PutOk, shared_other)"
  by (simp add: DiskObjectStorage_put_def c_map)
    (simp add: d_eval direct_env_def shared_write_def shared_other_def ofs_write_def fs_write_def splice_def)


end
