(* ===== verification/Shared_Uploads.thy ===== *)
theory Shared_Uploads
  imports Bounded_Streaming Disk_Isolation
begin

text \<open>
  The reads of one connection with other clients between them, for the properties of uploads over
  either protocol: a large object arrives in many reads, and other clients are served in between. The
  locale states what an upload relies on; it is interpreted on the storage of the program.
\<close>

section \<open>Reads among other clients\<close>

text \<open>
  \<open>fed_among recv R ds h s t r h' s'\<close>: the handler \<open>h\<close> receives the chunks \<open>ds\<close>, at least one, until it
  no longer wants to go on, while others change the storage by steps of \<open>R\<close>. The last chunk it
  receives finds the storage \<open>t\<close> and ends with the result \<open>r\<close> in \<open>h'\<close> and \<open>s'\<close>.
\<close>

inductive fed_among ::
    "(bytes \<Rightarrow> 'h \<Rightarrow> 's \<Rightarrow> bool outcome \<times> 'h \<times> 's) \<Rightarrow> ('s \<Rightarrow> 's \<Rightarrow> bool) \<Rightarrow> bytes list \<Rightarrow> 'h \<Rightarrow> 's \<Rightarrow> 's
      \<Rightarrow> bool outcome \<Rightarrow> 'h \<Rightarrow> 's \<Rightarrow> bool" for recv R where
  fed_last: "recv d h s = (r, h', s') \<Longrightarrow> ds = [] \<or> r \<noteq> Ret True \<Longrightarrow> fed_among recv R (d # ds) h s s r h' s'"
| fed_more: "recv d h s = (Ret True, h1, s1) \<Longrightarrow> fed_among recv R ds h1 s1 t r h' s' \<Longrightarrow>
    fed_among recv R (d # ds) h s t r h' s'"
| fed_other: "R s s1 \<Longrightarrow> fed_among recv R ds h s1 t r h' s' \<Longrightarrow> fed_among recv R ds h s t r h' s'"

inductive_cases fed_amongE: "fed_among recv R ds h s t r h' s'"

lemma fed_among_some: "fed_among recv R ds h s t r h' s' \<Longrightarrow> ds \<noteq> []"
  by (induction rule: fed_among.induct) simp_all

text \<open>How the steps of others change what is stored.\<close>

definition seen_change :: "('s \<Rightarrow> bool) \<Rightarrow> ('s \<Rightarrow> 'a) \<Rightarrow> ('s \<Rightarrow> 's \<Rightarrow> bool) \<Rightarrow> 'a \<Rightarrow> 'a \<Rightarrow> bool" where
  "seen_change iv view R a b \<longleftrightarrow> (\<exists>s s'. iv s \<and> R s s' \<and> a = view s \<and> b = view s')"

abbreviation seen_changes :: "('s \<Rightarrow> bool) \<Rightarrow> ('s \<Rightarrow> 'a) \<Rightarrow> ('s \<Rightarrow> 's \<Rightarrow> bool) \<Rightarrow> 's \<Rightarrow> 's \<Rightarrow> bool" where
  "seen_changes iv view R s t \<equiv> (seen_change iv view R)\<^sup>*\<^sup>* (view s) (view t)"

lemma seen_other: "iv s \<Longrightarrow> R s s1 \<Longrightarrow> seen_changes iv view R s1 t \<Longrightarrow> seen_changes iv view R s t"
  by (rule converse_rtranclp_into_rtranclp) (auto simp: seen_change_def)

lemma seen_same: "view s = view t \<Longrightarrow> seen_changes iv view R s t"
  by simp

section \<open>What an upload relies on\<close>

text \<open>\<open>others k\<close> is what other clients do during an upload of the object \<open>k\<close>.\<close>

locale shared_uploads = streaming_store vt inv view good svt uploads downloads
  for vt :: "'s object_vt" and inv view good and svt :: "('s, 'w, 'r) streaming_vt" and uploads downloads +
  fixes others :: "string \<Rightarrow> 's \<Rightarrow> 's \<Rightarrow> bool"
  assumes others_inv: "inv s \<Longrightarrow> others k s s' \<Longrightarrow> inv s'"
    and others_upload: "inv s \<Longrightarrow> uploads w k b s \<Longrightarrow> others k s s' \<Longrightarrow> uploads w k b s'"
begin

abbreviation others_seen :: "string \<Rightarrow> 's \<Rightarrow> 's \<Rightarrow> bool" where
  "others_seen k \<equiv> seen_changes inv view (others k)"

lemma others_step: "inv s \<Longrightarrow> others k s s1 \<Longrightarrow> others_seen k s1 t \<Longrightarrow> others_seen k s t"
  by (rule seen_other)

end

text \<open>Over the disk the others do anything, through the capacity limit, only not uploading the same object.\<close>

definition upload_others :: "os_env \<Rightarrow> fs_path \<Rightarrow> string \<Rightarrow> host bounded_storage \<Rightarrow> host bounded_storage \<Rightarrow> bool" where
  "upload_others env root k s s' \<longleftrightarrow> client_step env root UNIV (- {k}) (b_inner s) (b_inner s')"

interpretation disk_shared: shared_uploads "BoundedObjectStorage_vt (DiskObjectStorage_vt env root)"
    "over_inner (disk_inv env root)" "over_inner (disk_view env root)" good_key
    "BoundedObjectStorage_svt (DiskObjectStorage_svt env root)" "bounded_uploads (disk_uploads env root)"
    "bounded_downloads disk_downloads" "upload_others env root"
  for env root
  by unfold_locales
    (use client_step_touches client_step_upload in \<open>auto simp: bounded_stream_defs upload_others_def\<close>)

lemma over_inner_comp: "over_inner f = f \<circ> b_inner"
  by (simp add: over_inner_def fun_eq_iff)

text \<open>
  An upload whose temporary file could be opened goes through, and is renamed over an object that is there.
\<close>

lemma Disk_upload_completes:
  assumes inv: "disk_inv env root h" and w: "disk_uploads env root w k b h" and good: "ofs_good (dw_file w)"
  shows "DiskWriteSession_writeChunk env w c h = (d, w', h') \<Longrightarrow> d \<and> ofs_good (dw_file w')"
    and "disk_view env root h k = Some u \<Longrightarrow> DiskWriteSession_finish env w h = (q, w', h') \<Longrightarrow> q = PutOk"
proof -
  have ok: "root_ok root" and room: "hs_room h = None" using inv by (simp_all add: disk_inv_def)
  from w good obtain i where i: "ofs_holds (dw_file w) i b h" by (auto simp: disk_uploads_def)
  show "d \<and> ofs_good (dw_file w')" if "DiskWriteSession_writeChunk env w c h = (d, w', h')"
  proof -
    from that good obtain f where "ofs_write env (dw_file w) c h = (f, h')" "w' = w\<lparr>dw_file := f\<rparr>" "d = ofs_good f"
      by (auto simp: DiskWriteSession_writeChunk_def split: prod.splits)
    with ofs_write_holds [OF i room] show ?thesis by (auto simp: ofs_holds_def)
  qed
  assume u: "disk_view env root h k = Some u" and fin: "DiskWriteSession_finish env w h = (q, w', h')"
  obtain f h1 where f: "ofs_close (dw_file w) h = (f, h1)" by fastforce
  from ofs_close_holds [OF i room f] have "ofs_good f" by simp
  with Disk_close_session [OF inv w f] u obtain i where h1: "disk_inv env root h1" "disk_view env root h1 k = Some u"
    and i: "node_at h1 (temp_place env root k) = Some (File i)" by auto
  note up = disk_uploadsD [OF w]
  from h1(2) obtain j where j: "node_at h1 (object_place env root k) = Some (File j)"
    by (auto simp: disk_view_def file_at_def bind_eq_Some_conv elim!: file_content.elims split: if_splits)
  have fs: "fs_inv env root h1" using h1(1) by (simp add: disk_inv_def)
  from resolve_reaches [OF ok fs temp_plain [OF up(1)]] resolve_reaches [OF ok fs good_key_plain [OF up(1)]] i j
  have "fst (fs_rename env (root @ temp_names k) (root @ key_names k) h1)" by (simp add: fs_rename_def)
  with fin \<open>ofs_good f\<close> show "q = PutOk"
    by (auto simp: DiskWriteSession_finish_def f up(2,3) Let_def split: prod.splits)
qed

text \<open>For the examples: an upload of a large value that has begun, and a value stored under the same key behind it.\<close>

definition x_value :: bytes where
  "x_value = replicate (Suc kStreamingThreshold) CHR ''x''"

lemma length_x_value: "length x_value = 1048577"
  by (simp add: x_value_def kStreamingThreshold_def)

definition x_storage :: "host bounded_storage" where
  "x_storage = BoundedObjectStorage_upsert ''a/b'' (1048577) ((BoundedObjectStorage_new d_host 2000000)\<lparr>b_inner := d_uploading\<rparr>)"

definition x_session :: "disk_write bounded_write" where
  "x_session = BoundedWriteSession_new d_session ''a/b'' None"

definition d_inserted :: host where
  "d_inserted = \<lparr>hs_nodes = hs_nodes d_uploading @ [([''d'', ''a'', ''b''], File 2)],
     hs_data = (hs_data d_uploading)(2 := ''u''), hs_next = 3, hs_room = None\<rparr>"

definition x_other :: "host bounded_storage" where
  "x_other = BoundedObjectStorage_upsert ''a/b'' 1 (x_storage\<lparr>b_inner := d_inserted\<rparr>)"

lemma d_begin:
  "DiskObjectStorage_beginPut plain_env d_root ''a/b'' n d_host =
    (\<lparr>bp_status = PutOk, bp_session = Some d_session\<rparr>, d_uploading)"
  by (simp add: DiskObjectStorage_beginPut_def d_map) (simp add: d_eval)

lemma d_insert: "DiskObjectStorage_put plain_env d_root ''a/b'' ''u'' d_uploading = (PutOk, d_inserted)"
  by (simp add: DiskObjectStorage_put_def d_map)
    (simp add: d_eval d_inserted_def fs_exists_def ofs_write_def fs_write_def splice_def)

lemma x_fits:
  "BoundedObjectStorage_wouldFit ''a/b'' 1048577 (BoundedObjectStorage_new d_host 2000000)"
  "BoundedObjectStorage_wouldFit ''a/b'' 1 x_storage"
  by (simp_all add: x_storage_def BoundedObjectStorage_wouldFit_def BoundedObjectStorage_new_def
      BoundedObjectStorage_objectSize_def BoundedObjectStorage_totalBytes_def BoundedObjectStorage_upsert_def)

lemma x_size:
  "BoundedObjectStorage_objectSize ''a/b'' (BoundedObjectStorage_new d_host 2000000) = None"
  "BoundedObjectStorage_objectSize ''a/b'' ((BoundedObjectStorage_new d_host 2000000)\<lparr>b_inner := h\<rparr>) = None"
  by (simp_all add: BoundedObjectStorage_new_def BoundedObjectStorage_objectSize_def)

lemma x_inserted:
  "BoundedObjectStorage_put (DiskObjectStorage_vt plain_env d_root) ''a/b'' ''u'' x_storage = (PutOk, x_other)"
  using x_fits(2) by (simp add: BoundedObjectStorage_put_def d_insert x_other_def x_storage_def)

lemma x_inv: "disk_inv plain_env d_root (b_inner x_storage)" "disk_inv plain_env d_root (b_inner x_other)"
proof -
  from Disk_beginPut_view [OF d_host_inv d_key(1) d_begin] have "disk_inv plain_env d_root d_uploading" by simp
  with Disk_put_view [OF this d_key(1) d_insert]
  show "disk_inv plain_env d_root (b_inner x_storage)" "disk_inv plain_env d_root (b_inner x_other)"
    by (simp_all add: x_storage_def x_other_def)
qed

lemma x_others: "upload_others plain_env d_root ''a/b'' x_storage x_other"
  using client_put [OF d_key(1) _ _ d_insert] by (simp add: upload_others_def x_storage_def x_other_def str_ok_def)

end
