(* ===== verification/Http_Streaming.thy ===== *)
theory Http_Streaming
  imports Http_Properties Shared_Uploads
begin

text \<open>
  Large bodies in and out: a \<open>PUT\<close> whose body is streamed into a write session, in whatever pieces
  the request arrives and whatever other clients do meanwhile, and a \<open>GET\<close> answered from a read session. The lemmas hold over any streaming
  storage; the properties are for the configuration of the server.
\<close>

section \<open>One read\<close>

lemma http_receive_streaming:
  "hh_state h = StreamingBody \<Longrightarrow> http_onBytesReceived ovt svt d h s =
    http_continueStreamingBody svt (\<lambda>d h s. http_onBytesReceived ovt svt d h s) d h s"
  by (subst http_onBytesReceived.simps) (simp add: http_receive_def)

lemma http_receive_parsing:
  fixes data :: bytes
  assumes "hh_state h = ParsingHeaders"
  defines "h1 \<equiv> h\<lparr>hh_incomingBuffer := hh_incomingBuffer h @ data\<rparr>"
  shows "http_onBytesReceived ovt (Some t) data h s =
    (case http_wantsStreaming (Some t) (hh_incomingBuffer h1) of
       None \<Rightarrow> http_runBuffer ovt (Some t) h1 s
     | Some (req, n) \<Rightarrow>
         http_beginStreamingBody t (\<lambda>d h s. http_onBytesReceived ovt (Some t) d h s) req
           (drop n (hh_incomingBuffer h1)) (h1\<lparr>hh_incomingBuffer := []\<rparr>) s)"
  unfolding h1_def using assms(1)
  by (subst http_onBytesReceived.simps) (simp add: http_receive_def Let_def split: option.split)

text \<open>The answer to an upload that was stored.\<close>

definition stored_response :: bytes where
  "stored_response = http_statusResponse StatusOK [] text_plain"

lemma to_string_codes:
  "to_string 200 = ''200''" "to_string 400 = ''400''" "to_string 404 = ''404''" "to_string 405 = ''405''"
  "to_string 500 = ''500''" "to_string 507 = ''507''"
  by code_simp+

lemma stored_response_distinct:
  "stored_response \<noteq> []"
  "http_statusResponse StatusBadRequest b c \<noteq> stored_response"
  "http_statusResponse StatusInternalServerError b c \<noteq> stored_response"
  "http_statusResponse StatusInsufficientStorage b c \<noteq> stored_response"
  by (simp_all add: stored_response_def http_statusResponse_def http_buildResponse_def to_string_codes)

section \<open>Uploads\<close>

text \<open>What has become of an upload: it is answered with 200 and stored, or neither.\<close>

definition upload_result ::
    "('s \<Rightarrow> string \<Rightarrow> bytes option) \<Rightarrow> string \<Rightarrow> bytes \<Rightarrow> ('w, 'r) http_handler \<Rightarrow> 's \<Rightarrow> ('w, 'r) http_handler \<Rightarrow> 's \<Rightarrow> bool" where
  "upload_result view key v h s h' s' \<longleftrightarrow>
     view s' = (if hh_outgoingBuffer h' = hh_outgoingBuffer h @ stored_response
                then (view s)(key \<mapsto> v) else view s)"

context streaming_store
begin

lemma http_upload_chunk:
  assumes "hh_state h = StreamingBody" "hh_activeSession h = Some w" "length d \<le> hh_bodyBytesRemaining h"
    and up: "uploads w p b s" "inv s" "str_ok d"
  obtains h1 s1 where "http_onBytesReceived ovt (Some svt) d h s = (Ret False, h1, s1)" "inv s1"
      "upload_result view p v h s h1 s1"
    | w1 s1 where "inv s1" "view s1 = view s" "uploads w1 p (b @ d) s1" "length d < hh_bodyBytesRemaining h"
      "http_onBytesReceived ovt (Some svt) d h s =
        (Ret True, h\<lparr>hh_activeSession := Some w1, hh_bodyBytesRemaining := hh_bodyBytesRemaining h - length d\<rparr>, s1)"
    | h1 s1 where "length d = hh_bodyBytesRemaining h" "http_onBytesReceived ovt (Some svt) d h s = (Ret True, h1, s1)"
      "inv s1" "upload_result view p (b @ d) h s h1 s1"
proof -
  have n: "min (length d) (hh_bodyBytesRemaining h) = length d" using assms(3) by simp
  note step = http_receive_streaming [OF assms(1)] assms(2) http_continueStreamingBody_def Let_def n
  obtain ok w1 s1 where wr: "vt_writeChunk svt w d s = (ok, w1, s1)" by (rule prod_cases3)
  from writeChunk [OF up(2,1,3) wr] have s1: "inv s1" "view s1 = view s" "uploads w1 p (b @ d) s1" by auto
  consider "\<not> ok" | "ok" "length d < hh_bodyBytesRemaining h" | "ok" "length d = hh_bodyBytesRemaining h"
    using assms(3) by linarith
  then show ?thesis
  proof cases
    case 1
    obtain w2 s2 where ab: "vt_abort svt w1 s1 = (w2, s2)" by fastforce
    from abort [OF s1(1,3) ab] s1(2) have "inv s2" "view s2 = view s" by auto
    with 1 that(1) show ?thesis
      by (auto simp: step wr ab upload_result_def http_queueResponse_def stored_response_distinct)
  next
    case 2
    with s1 that(2) [of s1 w1] show ?thesis by (simp add: step wr)
  next
    case 3
    obtain q w2 s2 where fin: "vt_finish svt w1 s1 = (q, w2, s2)" by (rule prod_cases3)
    from finish [OF s1(1,3) fin] s1(2)
    have s2: "inv s2" "view s2 = (if q = PutOk then (view s)(p \<mapsto> b @ d) else view s)" by auto
    obtain h1 where "http_onBytesReceived ovt (Some svt) d h s = (Ret True, h1, s2)" "upload_result view p (b @ d) h s h1 s2"
      using 3 s2(2)
      by (cases q)
        (auto simp: step wr upload_result_def http_finishStreamingBody_def fin http_queueResponse_def
          stored_response_distinct stored_response_def [symmetric])
    with 3(2) s2(1) that(3) show ?thesis by blast
  qed
qed

end

context shared_uploads
begin

lemma http_upload:
  assumes "fed_among (http_onBytesReceived ovt (Some svt)) (others k) ds h s t r h' s'"
    and "inv s" "uploads w k b s" "hh_state h = StreamingBody" "hh_activeSession h = Some w"
    and "hh_bodyBytesRemaining h = length (concat ds)" "[] \<notin> set ds" "str_ok (concat ds)"
  shows "inv s' \<and> others_seen k s t \<and> upload_result view k (b @ concat ds) h t h' s'"
  using assms
proof (induction arbitrary: w b rule: fed_among.induct)
  case (fed_last d h s r h' s' ds)
  have d: "length d \<le> hh_bodyBytesRemaining h" "str_ok d" using fed_last.prems(5,7) by (simp_all add: str_ok_def)
  have rest: "length d = hh_bodyBytesRemaining h \<longleftrightarrow> ds = []" using fed_last.prems(5,6) by (cases ds) auto
  show ?case
    by (rule http_upload_chunk [OF fed_last.prems(3,4) d(1) fed_last.prems(2,1) d(2), of ovt "b @ concat (d # ds)"])
      (use fed_last.hyps rest in auto)
next
  case (fed_more d h s h1 s1 ds t r h' s')
  have d: "length d \<le> hh_bodyBytesRemaining h" "str_ok d" using fed_more.prems(5,7) by (simp_all add: str_ok_def)
  have rest: "length d \<noteq> hh_bodyBytesRemaining h"
    using fed_among_some [OF fed_more.hyps(2)] fed_more.prems(5,6) by (cases ds) auto
  show ?case
  proof (rule http_upload_chunk [OF fed_more.prems(3,4) d(1) fed_more.prems(2,1) d(2), of ovt "b @ concat (d # ds)"])
    fix w1 s2
    let ?h = "h\<lparr>hh_activeSession := Some w1, hh_bodyBytesRemaining := hh_bodyBytesRemaining h - length d\<rparr>"
    assume s2: "inv s2" "view s2 = view s" "uploads w1 k (b @ d) s2"
      and "http_onBytesReceived ovt (Some svt) d h s = (Ret True, ?h, s2)"
    then have eq: "h1 = ?h" "s1 = s2" using fed_more.hyps(1) by simp_all
    have "inv s' \<and> others_seen k s1 t \<and> upload_result view k ((b @ d) @ concat ds) h1 t h' s'"
      using fed_more.prems s2 by (intro fed_more.IH) (auto simp: eq str_ok_def)
    then show ?thesis by (simp add: upload_result_def eq s2(2))
  qed (use fed_more.hyps(1) rest in auto)
next
  case (fed_other s s1 ds h t r h' s')
  note other = fed_other.prems(1) fed_other.hyps(1)
  from fed_other.IH [OF others_inv [OF other] others_upload [OF other(1) fed_other.prems(2) other(2)] fed_other.prems(3-)]
    others_step [OF other] show ?case by blast
qed

end

text \<open>A \<open>PUT\<close> whose body is to be streamed.\<close>

definition put_head_ok :: "string \<Rightarrow> string \<Rightarrow> (string \<times> string) list \<Rightarrow> nat \<Rightarrow> bool" where
  "put_head_ok path v hs n \<longleftrightarrow>
     request_ok ''PUT'' path v hs \<and> header_map hs ''content-length'' = Some (to_string n) \<and>
     kStreamingThreshold < n \<and> n < 2 ^ 63 \<and>
     length (request_head ''PUT'' path v hs) \<le> kMaxHeaderSectionSize"

lemma parseContentLength_written: "n < 2 ^ 64 \<Longrightarrow> parseContentLength (to_string n) = Some (of_nat n)"
proof -
  assume n: "n < 2 ^ 64"
  obtain c cs where c: "to_string n = c # cs" by (cases "to_string n") auto
  then have "is_digit c" using to_string_digits [of c n] by simp
  then have "c \<noteq> CHR ''-''" using digit_not_special by blast
  then show ?thesis using stoul_to_string [OF n] by (simp add: parseContentLength_def c)
qed

lemma wantsStreaming_written:
  assumes "put_head_ok path v hs n"
  shows "http_wantsStreaming (Some t) (request_head ''PUT'' path v hs @ c) =
    Some (written_request ''PUT'' path v hs [], length (request_head ''PUT'' path v hs))"
proof -
  have ok: "request_ok ''PUT'' path v hs" and n: "n < 2 ^ 64" "kStreamingThreshold < n"
    and len: "header_map hs ''content-length'' = Some (to_string n)"
    using assms by (simp_all add: put_head_ok_def)
  have "unat (of_nat n :: size_t) = n" using n(1) by (rule unat_of_nat_size)
  with n len show ?thesis
    by (simp add: http_wantsStreaming_def parseHeadersOnly_written [OF ok] parseContentLength_written
        written_request_def)
qed

lemma put_head_incomplete:
  assumes "put_head_ok path v hs n" "request_head ''PUT'' path v hs @ body = b @ rest"
    and "length b < length (request_head ''PUT'' path v hs)"
  shows "http_wantsStreaming (Some t) b = None"
    and "HttpParser_parse b http_request_init = (HttpIncomplete, http_request_init, 0)"
proof -
  have "HttpParser_parseHeadersOnly b http_request_init = (HttpIncomplete, http_request_init, 0)"
    using headers_incomplete [OF _ assms(2,3)] assms(1) by (simp add: put_head_ok_def)
  then show "http_wantsStreaming (Some t) b = None"
    "HttpParser_parse b http_request_init = (HttpIncomplete, http_request_init, 0)"
    by (simp_all add: http_wantsStreaming_def parse_by_headers)
qed

context streaming_store
begin

lemma http_begin_upload:
  assumes "hh_state h = ParsingHeaders" and put: "put_head_ok path v hs n"
    and b: "hh_incomingBuffer h @ data = request_head ''PUT'' path v hs @ c"
    and "inv s" "good (http_key path)"
  shows "(\<exists>h' s' m. http_onBytesReceived ovt (Some svt) data h s = (Ret False, h', s') \<and> inv s' \<and>
      view s' = view s \<and> m \<noteq> stored_response \<and> hh_outgoingBuffer h' = hh_outgoingBuffer h @ m) \<or>
    (\<exists>h' s' w. http_onBytesReceived ovt (Some svt) data h s =
        (if c = [] then (Ret True, h', s') else http_onBytesReceived ovt (Some svt) c h' s') \<and>
      inv s' \<and> view s' = view s \<and> uploads w (http_key path) [] s' \<and> hh_state h' = StreamingBody \<and>
      hh_activeSession h' = Some w \<and> hh_bodyBytesRemaining h' = n \<and>
      hh_outgoingBuffer h' = hh_outgoingBuffer h)"
proof -
  let ?req = "written_request ''PUT'' path v hs []"
  let ?h = "h\<lparr>hh_incomingBuffer := []\<rparr>"
  have n: "n < 2 ^ 64" and len: "hr_headers ?req ''content-length'' = Some (to_string n)"
    using put by (simp_all add: put_head_ok_def written_request_def)
  let ?rec = "\<lambda>d h s. http_onBytesReceived ovt (Some svt) d h s"
  have step: "http_onBytesReceived ovt (Some svt) data h s = http_beginStreamingBody svt ?rec ?req c ?h s"
    using assms(1) b by (simp add: http_receive_parsing wantsStreaming_written [OF put])
  obtain res s1 where bp: "vt_beginPut svt (http_key path) (of_nat n) s = (res, s1)" by fastforce
  from beginPut [OF assms(4,5) bp]
  have s1: "inv s1" "view s1 = view s"
    "bp_status res = PutOk \<longrightarrow> (\<exists>w. bp_session res = Some w \<and> uploads w (http_key path) [] s1)" by auto
  have path: "hr_path ?req = path" by (simp add: written_request_def)
  show ?thesis
  proof (cases "bp_status res = PutOk")
    case True
    with s1(3) obtain w where w: "bp_session res = Some w" "uploads w (http_key path) [] s1" by blast
    let ?k = "?h\<lparr>hh_activeSession := Some w, hh_bodyBytesRemaining := n,
      hh_pendingPutKey := http_key path, hh_state := StreamingBody\<rparr>"
    have "http_beginStreamingBody svt ?rec ?req c ?h s =
        (if c = [] then (Ret True, ?k, s1) else http_continueStreamingBody (Some svt) ?rec c ?k s1)"
      using True w(1)
      by (simp add: http_beginStreamingBody_def len parseContentLength_written [OF n] path bp
          unat_of_nat_size [OF n] Let_def)
    then have "http_onBytesReceived ovt (Some svt) data h s =
        (if c = [] then (Ret True, ?k, s1) else http_onBytesReceived ovt (Some svt) c ?k s1)"
      by (simp add: step http_receive_streaming)
    then show ?thesis using s1 w by (intro disjI2 exI [of _ ?k] exI [of _ s1] exI [of _ w]) simp
  next
    case False
    then obtain m where "http_beginStreamingBody svt ?rec ?req c ?h s = (Ret False, http_queueResponse m ?h, s1)"
      "m \<noteq> stored_response"
      by (cases "bp_status res")
        (auto simp: http_beginStreamingBody_def len parseContentLength_written [OF n] path bp Let_def
          stored_response_distinct)
    then show ?thesis using s1 by (intro disjI1 exI) (auto simp: step http_queueResponse_def)
  qed
qed

lemma http_head_more:
  assumes "put_head_ok path v hs (length body)" "hh_state h = ParsingHeaders"
    and "hh_incomingBuffer h @ concat (d # ds) = request_head ''PUT'' path v hs @ body"
    and "length (hh_incomingBuffer h @ d) < length (request_head ''PUT'' path v hs)"
  shows "http_onBytesReceived ovt (Some svt) d h s =
    (Ret True, h\<lparr>hh_incomingBuffer := hh_incomingBuffer h @ d\<rparr>, s)"
proof -
  have all: "request_head ''PUT'' path v hs @ body = (hh_incomingBuffer h @ d) @ concat ds" using assms(3) by simp
  from put_head_incomplete(1) [OF assms(1) all assms(4), of svt] put_head_incomplete(2) [OF assms(1) all assms(4)] assms(2)
  show ?thesis by (simp add: http_receive_parsing http_runBuffer_def)
qed

end

context shared_uploads
begin

text \<open>The read with the end of the header begins the upload, which may take a chunk of the body at once.\<close>

lemma http_put_begun:
  assumes put: "put_head_ok path v hs (length body)" and good: "good (http_key path)"
    and h: "hh_state h = ParsingHeaders" "inv s" "hh_incomingBuffer h @ concat (d # ds) = request_head ''PUT'' path v hs @ body"
    and long: "\<not> length (hh_incomingBuffer h @ d) < length (request_head ''PUT'' path v hs)" and ds: "[] \<notin> set ds"
    and rec: "http_onBytesReceived ovt (Some svt) d h s = (o1, h1, s1)"
    and go: "o1 = r \<and> h1 = h' \<and> s1 = s' \<and> t = s \<and> (ds = [] \<or> r \<noteq> Ret True) \<or>
      o1 = Ret True \<and> fed_among (http_onBytesReceived ovt (Some svt)) (others (http_key path)) ds h1 s1 t r h' s'"
  shows "inv s' \<and> others_seen (http_key path) s t \<and> upload_result view (http_key path) body h t h' s'"
proof -
  let ?recv = "http_onBytesReceived ovt (Some svt)" and ?k = "http_key path"
  have "request_head ''PUT'' path v hs @ body = (hh_incomingBuffer h @ d) @ concat ds" using h(3) by simp
  from append_longer [OF this] long obtain c where
    c: "hh_incomingBuffer h @ d = request_head ''PUT'' path v hs @ c" "body = c @ concat ds"
    by (metis linorder_not_less)
  have body: "str_ok body" "body \<noteq> []" using put by (auto simp: put_head_ok_def str_ok_def)
  from http_begin_upload [OF h(1) put c(1) h(2) good, of ovt] show ?thesis
  proof (elim disjE exE conjE)
    fix h2 s2 m
    assume "?recv d h s = (Ret False, h2, s2)" "inv s2" "view s2 = view s" "m \<noteq> stored_response"
      "hh_outgoingBuffer h2 = hh_outgoingBuffer h @ m"
    then show ?thesis using go rec by (auto simp: upload_result_def)
  next
    fix h2 s2 w
    assume step: "?recv d h s = (if c = [] then (Ret True, h2, s2) else ?recv c h2 s2)"
      and s2: "inv s2" "view s2 = view s" "uploads w ?k [] s2"
      and h2: "hh_state h2 = StreamingBody" "hh_activeSession h2 = Some w"
        "hh_bodyBytesRemaining h2 = length body" "hh_outgoingBuffer h2 = hh_outgoingBuffer h"
    let ?ds = "if c = [] then ds else c # ds"
    have all: "concat ?ds = body" "[] \<notin> set ?ds" using c(2) ds by auto
    have "\<exists>t'. (t' = t \<or> t' = s2 \<and> t = s) \<and> fed_among ?recv (others ?k) ?ds h2 s2 t' r h' s'"
    proof (cases "c = []")
      case True
      with c(2) body(2) have "ds \<noteq> []" by auto
      with True go rec step show ?thesis by auto
    next
      case False
      with step rec have "?recv c h2 s2 = (o1, h1, s1)" by simp
      with False go fed_last [of ?recv c h2 s2 o1 h1 s1 ds "others ?k"] fed_more [of ?recv c h2 s2 h1 s1 "others ?k" ds t r h' s']
      show ?thesis by auto
    qed
    then obtain t' where t': "t' = t \<or> t' = s2 \<and> t = s" and feed: "fed_among ?recv (others ?k) ?ds h2 s2 t' r h' s'" by blast
    from http_upload [OF feed s2(1,3) h2(1,2) _ all(2)] h2(3) body(1) all(1)
    have "inv s' \<and> others_seen ?k s2 t' \<and> upload_result view ?k body h2 t' h' s'" by simp
    with t' s2(2) h2(4) show ?thesis by (auto simp: upload_result_def)
  qed
qed

lemma http_put_pieces:
  assumes "fed_among (http_onBytesReceived ovt (Some svt)) (others (http_key path)) ds h s t r h' s'"
    and put: "put_head_ok path v hs (length body)" and good: "good (http_key path)"
    and "inv s" "hh_state h = ParsingHeaders" "hh_incomingBuffer h @ concat ds = request_head ''PUT'' path v hs @ body"
    and "[] \<notin> set ds"
  shows "inv s' \<and> others_seen (http_key path) s t \<and> upload_result view (http_key path) body h t h' s'"
  using assms(1,4-)
proof (induction rule: fed_among.induct)
  case (fed_last d h s r h' s' ds)
  show ?case
  proof (rule http_put_begun [where r = r, OF put good fed_last.prems(2,1,3) _ _ fed_last.hyps(1)])
    show "\<not> length (hh_incomingBuffer h @ d) < length (request_head ''PUT'' path v hs)"
    proof
      assume less: "length (hh_incomingBuffer h @ d) < length (request_head ''PUT'' path v hs)"
      from http_head_more [OF put fed_last.prems(2,3) less, of ovt s] fed_last.hyps have "ds = []" by auto
      with fed_last.prems(3) have "hh_incomingBuffer h @ d = request_head ''PUT'' path v hs @ body" by simp
      with less show False by (metis length_append not_add_less1)
    qed
  qed (use fed_last in auto)
next
  case (fed_more d h s h1 s1 ds t r h' s')
  show ?case
  proof (cases "length (hh_incomingBuffer h @ d) < length (request_head ''PUT'' path v hs)")
    case True
    from http_head_more [OF put fed_more.prems(2,3) True] fed_more.hyps(1)
    have "h1 = h\<lparr>hh_incomingBuffer := hh_incomingBuffer h @ d\<rparr>" "s1 = s" by (metis prod.inject)+
    with fed_more.IH fed_more.prems show ?thesis by (simp add: upload_result_def)
  next
    case False
    show ?thesis
      by (rule http_put_begun [where r = r, OF put good fed_more.prems(2,1,3) False _ fed_more.hyps(1)])
        (use fed_more.hyps(2) fed_more.prems(4) in auto)
  qed
next
  case (fed_other s s1 ds h t r h' s')
  note other = fed_other.prems(1) fed_other.hyps(1)
  from fed_other.IH [OF others_inv [OF other] fed_other.prems(2-)] others_step [OF other] show ?case by blast
qed

end

section \<open>Properties of uploads\<close>


definition x_headers :: "(string \<times> string) list" where
  "x_headers = [(''Content-Length'', to_string 1048577)]"

lemma content_length_lower: "http_toLower ''Content-Length'' = ''content-length''"
  by code_simp

lemma length_header_ok: "header_ok (''Content-Length'', to_string n)"
proof -
  obtain c cs where c: "to_string n = c # cs" by (cases "to_string n") auto
  then have "is_digit c" using to_string_digits [of c n] by simp
  then have "c \<noteq> CHR '' ''" by (auto simp: is_digit_def ch_code_def)
  moreover have "CR \<notin> set (to_string n)" "LF \<notin> set (to_string n)"
    using to_string_digits digit_not_special by blast+
  ultimately show ?thesis by (simp add: header_ok_def c) (simp add: CR_def LF_def)
qed

lemma length_header:
  "header_map [(''Content-Length'', to_string n)] ''content-length'' = Some (to_string n)"
  by (simp add: header_map_def header_add_def content_length_lower)

lemma x_head: "put_head_ok ''/a/b'' ''HTTP/1.1'' x_headers 1048577"
proof -
  have "token_ok ''PUT''" "token_ok ''/a/b''" "token_ok ''HTTP/1.1''" by code_simp+
  then have ok: "request_ok ''PUT'' ''/a/b'' ''HTTP/1.1'' x_headers"
    using length_header_ok by (simp add: request_ok_def x_headers_def del: One_nat_def)
  have "length (to_string 1048577) = 7" by (simp add: to_string.simps)
  then have "length (request_head ''PUT'' ''/a/b'' ''HTTP/1.1'' x_headers) \<le> kMaxHeaderSectionSize"
    by (simp add: request_head_def request_line_def x_headers_def header_line_def kMaxHeaderSectionSize_def)
  with ok show ?thesis
    unfolding put_head_ok_def x_headers_def length_header by (simp add: kStreamingThreshold_def)
qed

definition x_putting :: "(disk_write bounded_write, ifstream) http_handler" where
  "x_putting = HttpProtocolHandler_new\<lparr>hh_activeSession := Some x_session, hh_bodyBytesRemaining := length x_value,
     hh_pendingPutKey := ''a/b'', hh_state := StreamingBody\<rparr>"

lemma x_put_begun:
  "http_onBytesReceived (BoundedObjectStorage_vt (DiskObjectStorage_vt plain_env d_root))
     (Some (BoundedObjectStorage_svt (DiskObjectStorage_svt plain_env d_root)))
     (request_head ''PUT'' ''/a/b'' ''HTTP/1.1'' x_headers) HttpProtocolHandler_new (BoundedObjectStorage_new d_host 2000000) =
   (Ret True, x_putting, x_storage)"
proof -
  have key: "http_key ''/a/b'' = ''a/b''" by (simp add: http_key_def)
  have "hr_headers (written_request ''PUT'' ''/a/b'' ''HTTP/1.1'' x_headers []) ''content-length'' = Some (to_string 1048577)"
    using x_head by (simp add: put_head_ok_def written_request_def)
  moreover have "parseContentLength (to_string 1048577) = Some 1048577" using parseContentLength_written [of 1048577] by simp
  moreover have "b_inner (BoundedObjectStorage_new d_host 2000000) = d_host" by (simp add: BoundedObjectStorage_new_def)
  ultimately show ?thesis
    using wantsStreaming_written [OF x_head, of "BoundedObjectStorage_svt (DiskObjectStorage_svt plain_env d_root)" "[]"] x_fits(1)
    by (simp add: http_receive_parsing length_x_value HttpProtocolHandler_new_def http_beginStreamingBody_def written_request_def key
      BoundedObjectStorage_beginPut_def d_begin x_putting_def x_session_def x_storage_def x_size Let_def)
qed


section \<open>Downloads\<close>

text \<open>The header of the answer to a \<open>GET\<close> of \<open>n\<close> bytes.\<close>

definition found_header :: "nat \<Rightarrow> bytes" where
  "found_header n =
     ''HTTP/1.1 200 OK'' @ crlf @ ''Content-Type: application/octet-stream'' @ crlf @
     ''Content-Length: '' @ to_string n @ crlf @ crlf"

context streaming_store
begin

lemma http_get_found:
  assumes "hh_state h = ParsingHeaders" "hh_incomingBuffer h = []"
    and req: "request_ok ''GET'' path v hs" "announces hs 0" "path \<noteq> ''/''"
    and "inv s" "good (http_key path)" "view s (http_key path) = Some b" "str_ok b"
  shows "\<exists>r. downloads r b s \<and> http_onBytesReceived ovt (Some svt) (request_head ''GET'' path v hs) h s =
    (Ret True, h\<lparr>hh_outgoingBuffer := hh_outgoingBuffer h @ found_header (length b),
       hh_activeReadSession := Some r, hh_streamingRead := True\<rparr>, s)"
proof -
  let ?head = "request_head ''GET'' path v hs"
  let ?h = "h\<lparr>hh_incomingBuffer := ?head\<rparr>"
  obtain r where r: "vt_beginGet svt (http_key path) s =
      \<lparr>bg_found = True, bg_size = of_nat (length b), bg_session = Some r\<rparr>" "downloads r b s"
    using beginGet_stored [OF assms(6-8)] by blast
  have parse: "HttpParser_parse ?head http_request_init = (HttpComplete, written_request ''GET'' path v hs [], length ?head)"
    using parse_written [OF req(1), of "[]" "[]"] req(2) by simp
  have "http_wantsStreaming (Some svt) ?head = None"
    using parseHeadersOnly_written [OF req(1), of "[]"]
    by (simp add: http_wantsStreaming_def Let_def split: option.split)
  then have "http_onBytesReceived ovt (Some svt) ?head h s = http_runBuffer ovt (Some svt) ?h s"
    using assms(1,2) by (simp add: http_receive_parsing)
  also have "\<dots> = (Ret True, h\<lparr>hh_outgoingBuffer := hh_outgoingBuffer h @ found_header (length b),
       hh_activeReadSession := Some r, hh_streamingRead := True\<rparr>, s)"
    using req(3) assms(2)
    by (simp add: http_runBuffer_def parse http_processRequest_def http_handleRequest_def written_request_def
        http_handleGetPath_def r(1) http_queueResponse_def found_header_def unat_length [OF assms(9)] Let_def)
  finally show ?thesis using r(2) by blast
qed

end

end
