(* ===== verification/Http_Exchange.thy ===== *)
theory Http_Exchange
  imports Session_Exchange Http_Streaming
begin

text \<open>
  Whole conversations in HTTP, as for RESP: a client sends requests for objects, in whatever pieces,
  and waits for the response of each.
\<close>

section \<open>Requests and responses\<close>

text \<open>
  A \<open>GET\<close> of an object, a \<open>PUT\<close> with a body that is not streamed, a \<open>DELETE\<close> and a \<open>GET\<close> of the root,
  which lists the objects: path, version, headers, body.
\<close>

datatype http_call =
  CallGet string string "(string \<times> string) list"
| CallPut string string "(string \<times> string) list" bytes
| CallDelete string string "(string \<times> string) list"
| CallList string "(string \<times> string) list"

fun call_request :: "http_call \<Rightarrow> http_request" where
  "call_request (CallGet p v hs) = written_request ''GET'' p v hs []"
| "call_request (CallPut p v hs body) = written_request ''PUT'' p v hs body"
| "call_request (CallDelete p v hs) = written_request ''DELETE'' p v hs []"
| "call_request (CallList v hs) = written_request ''GET'' ''/'' v hs []"

fun call_head :: "http_call \<Rightarrow> bytes" where
  "call_head (CallGet p v hs) = request_head ''GET'' p v hs"
| "call_head (CallPut p v hs body) = request_head ''PUT'' p v hs"
| "call_head (CallDelete p v hs) = request_head ''DELETE'' p v hs"
| "call_head (CallList v hs) = request_head ''GET'' ''/'' v hs"

fun call_body :: "http_call \<Rightarrow> bytes" where
  "call_body (CallPut p v hs body) = body"
| "call_body _ = []"

fun call_ok :: "(string \<Rightarrow> bool) \<Rightarrow> http_call \<Rightarrow> bool" where
  "call_ok good (CallGet p v hs) \<longleftrightarrow>
     request_ok ''GET'' p v hs \<and> announces hs 0 \<and> p \<noteq> ''/'' \<and> good (http_key p) \<and>
     length (request_head ''GET'' p v hs) \<le> kMaxHeaderSectionSize"
| "call_ok good (CallPut p v hs body) \<longleftrightarrow>
     request_ok ''PUT'' p v hs \<and> announces hs (length body) \<and> length body \<le> kStreamingThreshold \<and>
     good (http_key p) \<and> length (request_head ''PUT'' p v hs) \<le> kMaxHeaderSectionSize"
| "call_ok good (CallDelete p v hs) \<longleftrightarrow>
     request_ok ''DELETE'' p v hs \<and> announces hs 0 \<and> good (http_key p) \<and>
     length (request_head ''DELETE'' p v hs) \<le> kMaxHeaderSectionSize"
| "call_ok good (CallList v hs) \<longleftrightarrow>
     request_ok ''GET'' ''/'' v hs \<and> announces hs 0 \<and>
     length (request_head ''GET'' ''/'' v hs) \<le> kMaxHeaderSectionSize"

definition not_found_response :: bytes where
  "not_found_response = http_statusResponse StatusNotFound ''No object at this path'' text_plain"

fun put_response :: "put_result \<Rightarrow> bytes" where
  "put_response PutOk = http_statusResponse StatusOK [] []"
| "put_response PutCapacityExceeded =
     http_statusResponse StatusInsufficientStorage ''Storage capacity exceeded'' text_plain"
| "put_response PutInvalidPath = http_statusResponse StatusBadRequest ''Bad Request'' ''Invalid path''"
| "put_response PutFailedToWrite =
     http_statusResponse StatusInternalServerError ''Internal Server Error'' []"

inductive http_step ::
    "(string \<Rightarrow> bytes option) \<Rightarrow> http_call \<Rightarrow> bytes \<Rightarrow> (string \<Rightarrow> bytes option) \<Rightarrow> bool" where
  get_absent: "m (http_key p) = None \<Longrightarrow> http_step m (CallGet p v hs) not_found_response m"
| get_found: "m (http_key p) = Some b \<Longrightarrow> http_step m (CallGet p v hs) (found_header (length b) @ b) m"
| put_stored: "http_step m (CallPut p v hs body) (put_response PutOk) (m(http_key p \<mapsto> body))"
| put_refused: "r \<noteq> PutOk \<Longrightarrow> http_step m (CallPut p v hs body) (put_response r) m"
| delete_absent: "m (http_key p) = None \<Longrightarrow> http_step m (CallDelete p v hs) not_found_response m"
| delete_done: "m (http_key p) \<noteq> None \<Longrightarrow>
    http_step m (CallDelete p v hs) (http_statusResponse StatusOK [] []) (m(http_key p := None))"
| listed: "distinct ks \<Longrightarrow> set ks = dom m \<Longrightarrow>
    http_step m (CallList v hs) (http_statusResponse StatusOK (concat (map (\<lambda>k. k @ [LF]) ks)) text_plain) m"

inductive http_run ::
    "(string \<Rightarrow> bytes option) \<Rightarrow> http_call list \<Rightarrow> bytes list \<Rightarrow> (string \<Rightarrow> bytes option) \<Rightarrow> bool" where
  http_run_Nil: "http_run m [] [] m"
| http_run_Cons: "http_step m c b m' \<Longrightarrow> http_run m' cs bs m'' \<Longrightarrow> http_run m (c # cs) (b # bs) m''"

lemma http_step_sizes: "http_step m c b m' \<Longrightarrow> call_ok good c \<Longrightarrow> sizes_ok m \<Longrightarrow> sizes_ok m'"
  by (induction rule: http_step.induct) (auto simp: sizes_ok_def str_ok_def kStreamingThreshold_def)

section \<open>A request in pieces\<close>

text \<open>A call in the terms of the parser.\<close>

lemma call_okD:
  assumes "call_ok good c"
  obtains m p v hs where "call_head c = request_head m p v hs" "call_request c = written_request m p v hs (call_body c)"
    "request_ok m p v hs" "announces hs (length (call_body c))" "length (call_body c) \<le> kStreamingThreshold"
    "length (request_head m p v hs) \<le> kMaxHeaderSectionSize"
  using assms that by (cases c) auto

lemma small_not_streamed:
  assumes "request_ok m p v hs" "announces hs n" "n \<le> kStreamingThreshold"
  shows "http_wantsStreaming svt (request_head m p v hs @ c) = None"
proof -
  have n: "n < 2 ^ 64" using assms(3) by (simp add: kStreamingThreshold_def)
  from parseContentLength_written [OF n] unat_of_nat_size [OF n] assms(2,3) show ?thesis
    by (auto simp: http_wantsStreaming_def parseHeadersOnly_written [OF assms(1)] announces_def)
qed

lemma call_prefix:
  assumes "call_ok good c" "call_head c @ call_body c = b @ rest"
  shows "http_wantsStreaming svt b = None"
    and "rest \<noteq> [] \<Longrightarrow> fst (HttpParser_parse b http_request_init) = HttpIncomplete"
    and "rest = [] \<Longrightarrow> HttpParser_parse b http_request_init = (HttpComplete, call_request c, length b)"
proof -
  obtain m p v hs where c: "call_head c = request_head m p v hs"
    "call_request c = written_request m p v hs (call_body c)"
    and ok: "request_ok m p v hs" and len: "announces hs (length (call_body c))"
      "length (call_body c) \<le> kStreamingThreshold"
    and hd: "length (request_head m p v hs) \<le> kMaxHeaderSectionSize"
    by (rule call_okD [OF assms(1)])
  have max: "length (call_body c) \<le> kMaxBodySize"
    using len(2) by (simp add: kMaxBodySize_def kStreamingThreshold_def)
  have b: "request_head m p v hs @ call_body c = b @ rest" using assms(2) c(1) by simp
  have "http_wantsStreaming svt b = None \<and>
    (rest \<noteq> [] \<longrightarrow> fst (HttpParser_parse b http_request_init) = HttpIncomplete)"
  proof (cases "length b < length (request_head m p v hs)")
    case True
    from headers_incomplete [OF ok b True hd] show ?thesis
      by (simp add: parse_by_headers http_wantsStreaming_def)
  next
    case False
    then have "length (request_head m p v hs) \<le> length b" by simp
    from append_longer [OF b this] obtain d where d: "b = request_head m p v hs @ d" "call_body c = d @ rest" .
    have "body_length (written_request m p v hs []) = Some (length (call_body c))"
      by (rule body_length_written [OF len(1) max])
    then have "rest \<noteq> [] \<longrightarrow> fst (HttpParser_parse b http_request_init) = HttpIncomplete"
      using parseHeadersOnly_written [OF ok, of d] d(2)
      by (simp add: parse_by_headers d(1) written_request_def)
    moreover have "http_wantsStreaming svt b = None"
      unfolding d(1) by (rule small_not_streamed [OF ok len])
    ultimately show ?thesis by blast
  qed
  then show "http_wantsStreaming svt b = None"
    "rest \<noteq> [] \<Longrightarrow> fst (HttpParser_parse b http_request_init) = HttpIncomplete" by blast+
  assume "rest = []"
  then have b: "b = request_head m p v hs @ call_body c" using b by simp
  show "HttpParser_parse b http_request_init = (HttpComplete, call_request c, length b)"
    using parse_written [OF ok len(1) max, of "[]"] by (simp add: b c(2))
qed

text \<open>Requests do not look at the buffer.\<close>

lemma http_processRequest_buffer:
  "http_processRequest ovt svt req (h\<lparr>hh_incomingBuffer := b\<rparr>) s =
    (case http_processRequest ovt svt req h s of (r, h', s') \<Rightarrow> (r, h'\<lparr>hh_incomingBuffer := b\<rparr>, s'))"
  by (simp add: http_processRequest_def http_handleRequest_def http_handleGetPath_def http_queueResponse_def
      Let_def split: option.split prod.split outcome.split)

definition http_ready :: "('w, 'r) http_handler \<Rightarrow> bool" where
  "http_ready h \<longleftrightarrow> hh_state h = ParsingHeaders \<and> hh_incomingBuffer h = [] \<and>
     hh_outgoingBuffer h = [] \<and> \<not> hh_streamingRead h"

lemma http_ready_new [simp]: "http_ready HttpProtocolHandler_new"
  by (simp add: http_ready_def HttpProtocolHandler_new_def)

lemma http_receive_call:
  assumes "hh_state h = ParsingHeaders" "call_ok good c" "hh_incomingBuffer h @ d = call_head c @ call_body c"
    and "http_processRequest ovt (Some svt) (call_request c) (h\<lparr>hh_incomingBuffer := []\<rparr>) s = (Ret (), h1, s1)"
  shows "http_onBytesReceived ovt (Some svt) d h s = (Ret True, h1, s1)"
proof -
  have b: "call_head c @ call_body c = (hh_incomingBuffer h @ d) @ []" using assms(3) by simp
  have same: "h1\<lparr>hh_incomingBuffer := []\<rparr> = h1"
    using http_processRequest_buffer [of ovt "Some svt" "call_request c" "[]" "h\<lparr>hh_incomingBuffer := []\<rparr>" s] assms(4)
    by simp
  have "http_processRequest ovt (Some svt) (call_request c) (h\<lparr>hh_incomingBuffer := x\<rparr>) s =
      (Ret (), h1\<lparr>hh_incomingBuffer := x\<rparr>, s1)" for x
    using http_processRequest_buffer [of ovt "Some svt" "call_request c" x "h\<lparr>hh_incomingBuffer := []\<rparr>" s] assms(4)
    by simp
  with call_prefix(1) [OF assms(2) b, of "Some svt"] call_prefix(3) [OF assms(2) b refl] same show ?thesis
    by (simp add: http_receive_parsing [OF assms(1)] http_runBuffer_def)
qed

lemma http_receive_partly:
  assumes "hh_state h = ParsingHeaders" "call_ok good c"
    and "call_head c @ call_body c = (hh_incomingBuffer h @ d) @ rest" "rest \<noteq> []"
  shows "http_onBytesReceived ovt (Some svt) d h s =
    (Ret True, h\<lparr>hh_incomingBuffer := hh_incomingBuffer h @ d\<rparr>, s)"
proof -
  obtain req n where "HttpParser_parse (hh_incomingBuffer h @ d) http_request_init = (HttpIncomplete, req, n)"
    using call_prefix(2) [OF assms(2-4)] by (cases "HttpParser_parse (hh_incomingBuffer h @ d) http_request_init") auto
  with call_prefix(1) [OF assms(2,3), of "Some svt"] show ?thesis
    by (simp add: http_receive_parsing [OF assms(1)] http_runBuffer_def)
qed

section \<open>One request after the other\<close>

lemma http_statusResponse_ne [simp]: "http_statusResponse c b t \<noteq> []"
  by (simp add: http_statusResponse_def http_buildResponse_def)

context total_store
begin

text \<open>All requests but the \<open>GET\<close> of a stored object queue their response.\<close>

definition http_replies :: "('w, 'r) http_handler \<Rightarrow> 's \<Rightarrow> http_call \<Rightarrow> bool" where
  "http_replies h s c \<longleftrightarrow>
     (\<exists>b s1. http_processRequest vt (Some svt) (call_request c) h s = (Ret (), http_queueResponse b h, s1) \<and>
        inv s1 \<and> http_step (view s) c b (view s1))"

lemma http_replies_changes:
  assumes "inv s"
  shows "call_ok good (CallPut p v hs body) \<Longrightarrow> http_replies h s (CallPut p v hs body)"
    and "call_ok good (CallDelete p v hs) \<Longrightarrow> http_replies h s (CallDelete p v hs)"
proof -
  assume "call_ok good (CallPut p v hs body)"
  then have ok: "good (http_key p)" "str_ok body" by (simp_all add: str_ok_def kStreamingThreshold_def)
  obtain r s1 where put: "vt_put vt (http_key p) body s = (r, s1)" by fastforce
  have "http_processRequest vt (Some svt) (call_request (CallPut p v hs body)) h s =
      (Ret (), http_queueResponse (put_response r) h, s1)"
    by (cases r) (simp_all add: written_request_def http_processRequest_def http_handleRequest_def
        http_handlePutPath_def put Let_def)
  moreover have "http_step (view s) (CallPut p v hs body) (put_response r) (view s1)"
    using put_view [OF assms ok put] put_stored put_refused [of r] by (cases "r = PutOk") auto
  ultimately show "http_replies h s (CallPut p v hs body)"
    unfolding http_replies_def using put_inv [OF assms ok put] by blast
next
  assume "call_ok good (CallDelete p v hs)"
  then have p: "good (http_key p)" by simp
  note known = exists_known [OF assms p]
  show "http_replies h s (CallDelete p v hs)"
  proof (cases "view s (http_key p)")
    case None
    have "http_processRequest vt (Some svt) (call_request (CallDelete p v hs)) h s =
        (Ret (), http_queueResponse not_found_response h, s)"
      using known None by (simp add: written_request_def http_processRequest_def http_handleRequest_def
          http_handleDeletePath_def not_found_response_def Let_def)
    with assms delete_absent [of "view s" p v hs, OF None] show ?thesis unfolding http_replies_def by blast
  next
    case (Some b)
    with del_present [OF assms p] obtain s1 where d: "vt_del vt (http_key p) s = (True, s1)"
      by (metis (full_types) option.distinct(1) prod.collapse)
    have "http_processRequest vt (Some svt) (call_request (CallDelete p v hs)) h s =
        (Ret (), http_queueResponse (http_statusResponse StatusOK [] []) h, s1)"
      using known Some by (simp add: written_request_def http_processRequest_def http_handleRequest_def
          http_handleDeletePath_def d Let_def)
    moreover have "http_step (view s) (CallDelete p v hs) (http_statusResponse StatusOK [] []) (view s1)"
      using del_view [OF assms p d] delete_done [of "view s" p v hs] Some by simp
    ultimately show ?thesis unfolding http_replies_def using del_inv [OF assms p d] by blast
  qed
qed

lemma http_replies_looks:
  assumes "inv s"
  shows "call_ok good (CallGet p v hs) \<Longrightarrow> view s (http_key p) = None \<Longrightarrow> http_replies h s (CallGet p v hs)"
    and "http_replies h s (CallList v hs)"
proof -
  assume "call_ok good (CallGet p v hs)" and none: "view s (http_key p) = None"
  then have p: "good (http_key p)" "p \<noteq> ''/''" by simp_all
  have "http_processRequest vt (Some svt) (call_request (CallGet p v hs)) h s =
      (Ret (), http_queueResponse not_found_response h, s)"
    using beginGet_absent [OF assms p(1) none] p(2)
    by (simp add: written_request_def http_processRequest_def http_handleRequest_def
        http_handleGetPath_def not_found_response_def Let_def)
  with assms get_absent [of "view s" p v hs, OF none] show "http_replies h s (CallGet p v hs)"
    unfolding http_replies_def by blast
next
  from keys_listed [OF assms] obtain ks where ks: "vt_keys vt s = Ret ks" "distinct ks" "set ks = dom (view s)" .
  have "http_processRequest vt (Some svt) (call_request (CallList v hs)) h s =
      (Ret (), http_queueResponse (http_statusResponse StatusOK (concat (map (\<lambda>k. k @ [LF]) ks)) text_plain) h, s)"
    by (simp add: written_request_def http_processRequest_def http_handleRequest_def http_handleGetRoot_def ks(1) Let_def)
  with assms listed [OF ks(2,3), of v hs] show "http_replies h s (CallList v hs)"
    unfolding http_replies_def by blast
qed

text \<open>The handler after a request, what it has to give, and what became of the storage.\<close>

definition http_done :: "('w, 'r) http_handler \<Rightarrow> 's \<Rightarrow> http_call \<Rightarrow> bool" where
  "http_done h s c \<longleftrightarrow>
     (\<exists>h1 b k s1. http_processRequest vt (Some svt) (call_request c) h s = (Ret (), h1, s1) \<and>
        http_gives downloads h1 b k s1 \<and> http_ready k \<and> inv s1 \<and> http_step (view s) c b (view s1))"

lemma http_replied:
  assumes "http_ready h" "http_replies h s c"
  shows "http_done h s c"
proof -
  have "h\<lparr>hh_outgoingBuffer := []\<rparr> = h" using assms(1) by (cases h) (simp add: http_ready_def)
  with assms(1) have "http_gives downloads (http_queueResponse b h) b h s1" for b s1
    by (simp add: http_gives_def http_queueResponse_def http_ready_def)
  with assms show ?thesis unfolding http_done_def http_replies_def by blast
qed

lemma http_downloads:
  assumes "http_ready h" "inv s" "sizes_ok (view s)" "good (http_key p)" "p \<noteq> ''/''" "view s (http_key p) = Some b"
  shows "http_done h s (CallGet p v hs)"
proof -
  from beginGet_stored [OF assms(2,4,6)] obtain r where
    r: "vt_beginGet svt (http_key p) s = \<lparr>bg_found = True, bg_size = of_nat (length b), bg_session = Some r\<rparr>"
      "downloads r b s" by blast
  have b: "str_ok b" using assms(3,6) by (simp add: sizes_ok_def)
  let ?h1 = "(http_queueResponse (found_header (length b)) h)
    \<lparr>hh_activeReadSession := Some r, hh_streamingRead := True\<rparr>"
  let ?k = "?h1\<lparr>hh_outgoingBuffer := [], hh_streamingRead := False, hh_activeReadSession := None\<rparr>"
  have "http_processRequest vt (Some svt) (call_request (CallGet p v hs)) h s = (Ret (), ?h1, s)"
    using r(1) unat_length [OF b] assms(5)
    by (simp add: written_request_def http_processRequest_def http_handleRequest_def
        http_handleGetPath_def found_header_def Let_def)
  moreover have "http_gives downloads ?h1 (found_header (length b) @ b) ?k s"
    using r(2) assms(1) by (auto simp: http_gives_def http_queueResponse_def http_ready_def)
  moreover have "http_ready ?k" using assms(1) by (simp add: http_ready_def)
  ultimately show ?thesis
    unfolding http_done_def using assms(2) get_found [of "view s" p b v hs, OF assms(6)] by blast
qed

lemma http_executes:
  assumes "http_ready h" "inv s" "sizes_ok (view s)" "call_ok good c"
  shows "http_done h s c"
proof (cases "\<exists>p v hs b. c = CallGet p v hs \<and> view s (http_key p) = Some b")
  case True
  with http_downloads [OF assms(1-3)] assms(4) show ?thesis by auto
next
  case False
  have "http_replies h s c"
    using False assms(4) http_replies_changes [OF assms(2)] http_replies_looks [OF assms(2)]
    by (cases c) auto
  with http_replied [OF assms(1)] show ?thesis .
qed

lemma http_serve_pieces:
  assumes "hh_state h = ParsingHeaders" "hh_outgoingBuffer h = []" "\<not> hh_streamingRead h"
    and c: "call_ok good c" and "ds \<noteq> []" "[] \<notin> set ds" "hh_incomingBuffer h @ concat ds = call_head c @ call_body c"
    and p: "http_processRequest vt (Some svt) (call_request c) (h\<lparr>hh_incomingBuffer := []\<rparr>) s = (Ret (), h1, s1)"
    and g: "http_gives downloads h1 b k s1" "length b < n"
  shows "hv_serve (HttpProtocolHandler_hvt vt (Some svt)) n ds h s = Some (b, k, s1)"
  using assms(1-3,5-7) p
proof (induction ds arbitrary: h)
  case (Cons d ds)
  let ?hv = "HttpProtocolHandler_hvt vt (Some svt)"
  show ?case
  proof (cases "ds = []")
    case True
    with Cons.prems(6) have "hh_incomingBuffer h @ d = call_head c @ call_body c" by simp
    from http_receive_call [OF Cons.prems(1) c this Cons.prems(7)]
    have "hv_onBytesReceived ?hv d h s = (Ret True, h1, s1)" by simp
    from hv_serve_Cons [OF this http_out.drain_gives [OF g] hv_serve.simps(1)] True show ?thesis by simp
  next
    case False
    let ?h = "h\<lparr>hh_incomingBuffer := hh_incomingBuffer h @ d\<rparr>"
    have all: "call_head c @ call_body c = (hh_incomingBuffer h @ d) @ concat ds" using Cons.prems(6) by simp
    have ne: "concat ds \<noteq> []" using False Cons.prems(5) by (cases ds) auto
    from http_receive_partly [OF Cons.prems(1) c all ne]
    have "hv_onBytesReceived ?hv d h s = (Ret True, ?h, s)" by simp
    moreover have "http_gives downloads ?h [] ?h s"
      using Cons.prems(2,3) by (cases h) (simp add: http_gives_def)
    then have "hv_drain ?hv n ?h s = Some ([], ?h)" using g(2) by (intro http_out.drain_gives) auto
    moreover have "hv_serve ?hv n ds ?h s = Some (b, k, s1)"
      using Cons.IH [of ?h] Cons.prems False by simp
    ultimately show ?thesis using hv_serve_Cons by fastforce
  qed
qed simp

lemma http_serve_call:
  assumes "http_ready h" "inv s" "sizes_ok (view s)" "call_ok good c"
    and "[] \<notin> set ds" "concat ds = call_head c @ call_body c"
  shows "\<exists>n b k s1. hv_serve (HttpProtocolHandler_hvt vt (Some svt)) n ds h s = Some (b, k, s1) \<and>
    http_ready k \<and> inv s1 \<and> http_step (view s) c b (view s1)"
proof -
  from http_executes [OF assms(1-4), unfolded http_done_def] obtain h1 b k s1 where
    p: "http_processRequest vt (Some svt) (call_request c) h s = (Ret (), h1, s1)"
      "http_gives downloads h1 b k s1" and k: "http_ready k" "inv s1" "http_step (view s) c b (view s1)" by blast
  have h: "hh_state h = ParsingHeaders" "hh_outgoingBuffer h = []" "\<not> hh_streamingRead h" "hh_incomingBuffer h = []"
    using assms(1) by (simp_all add: http_ready_def)
  have "h\<lparr>hh_incomingBuffer := []\<rparr> = h" using h(4) by (cases h) simp
  then have p': "http_processRequest vt (Some svt) (call_request c) (h\<lparr>hh_incomingBuffer := []\<rparr>) s = (Ret (), h1, s1)"
    using p(1) by (simp only:)
  have "call_head c \<noteq> []" by (cases c) (simp_all add: request_head_def)
  then have "ds \<noteq> []" using assms(6) by auto
  moreover have "hh_incomingBuffer h @ concat ds = call_head c @ call_body c" using assms(6) h(4) by simp
  ultimately have "hv_serve (HttpProtocolHandler_hvt vt (Some svt)) (Suc (length b)) ds h s = Some (b, k, s1)"
    by (intro http_serve_pieces [OF h(1-3) assms(4) _ assms(5) _ p' p(2)]) simp_all
  with k show ?thesis by blast
qed

end

definition http_conversation_ok :: "(string \<Rightarrow> bool) \<Rightarrow> (http_call \<times> bytes list) list \<Rightarrow> bool" where
  "http_conversation_ok good cs \<longleftrightarrow>
     (\<forall>(c, ds)\<in>set cs. call_ok good c \<and> [] \<notin> set ds \<and> concat ds = call_head c @ call_body c)"

context total_store
begin

lemma http_serve_conversation:
  assumes "http_ready h" "inv s" "sizes_ok (view s)" "http_conversation_ok good cs"
  shows "\<exists>n bs k t. hv_serve (HttpProtocolHandler_hvt vt (Some svt)) n (concat (map snd cs)) h s =
      Some (concat bs, k, t) \<and> http_ready k \<and> inv t \<and> http_run (view s) (map fst cs) bs (view t)"
  using assms
proof (induction cs arbitrary: h s)
  case Nil
  then show ?case using http_run_Nil by (intro exI [of _ 0] exI [of _ "[]"]) auto
next
  case (Cons x cs)
  let ?hv = "HttpProtocolHandler_hvt vt (Some svt)"
  obtain c ds where x: "x = (c, ds)" by fastforce
  have c: "call_ok good c" "[] \<notin> set ds" "concat ds = call_head c @ call_body c"
    and cs: "http_conversation_ok good cs"
    using Cons.prems(4) by (auto simp: http_conversation_ok_def x)
  from http_serve_call [OF Cons.prems(1-3) c] obtain n b k s1 where
    one: "hv_serve ?hv n ds h s = Some (b, k, s1)" "http_ready k" "inv s1" "http_step (view s) c b (view s1)" by blast
  from Cons.IH [OF one(2,3) http_step_sizes [OF one(4) c(1) Cons.prems(3)] cs] obtain m bs k' t where
    rest: "hv_serve ?hv m (concat (map snd cs)) k s1 = Some (concat bs, k', t)" "http_ready k'" "inv t"
      "http_run (view s1) (map fst cs) bs (view t)" by blast
  have "hv_serve ?hv (max n m) (ds @ concat (map snd cs)) h s = Some (b @ concat bs, k', t)"
    by (rule hv_serve_append [OF hv_serve_mono [OF one(1)] hv_serve_mono [OF rest(1)]]) simp_all
  with rest(2-4) http_run_Cons [OF one(4) rest(4)] show ?case
    by (intro exI [of _ "max n m"] exI [of _ "b # bs"] exI [of _ k'] exI [of _ t]) (simp add: x)
qed

end

end
