(* ===== verification/Server_Properties.thy ===== *)
theory Server_Properties
  imports App_Properties Resp_Exchange Http_Exchange
begin

text \<open>
  The parts of the program together, from the bytes a client sends to the disk and back: the server
  is a map to a client of either protocol, every answer is sent in finitely many steps, and the first
  bytes of a connection decide about its protocol.
\<close>

section \<open>The server is a map\<close>

lemma resp_command_first:
  assumes "d # ds = pieces" "concat pieces = resp_command args" "d \<noteq> []"
  shows "isRespPrefix (d ! 0)"
proof -
  obtain c cs where d: "d = c # cs" using assms(3) by (cases d) auto
  with assms have "c = CHR ''*''" by (auto simp: resp_command_def respreply_arrayHeader_def)
  then show ?thesis by (simp add: d isRespPrefix_def)
qed

lemma conversation_first:
  assumes "conversation_ok good cs" "concat (map snd cs) = d # ds"
  shows "d \<noteq> [] \<and> isRespPrefix (d ! 0)"
proof -
  from assms(2) obtain c p cs' where cs: "cs = (c, p) # cs'" by (cases cs) auto
  then have p: "[] \<notin> set p" "concat p = resp_command (kv_args c)"
    using assms(1) by (auto simp: conversation_ok_def)
  then have "p \<noteq> []" by (auto simp: resp_command_def respreply_arrayHeader_def)
  then obtain e where "d # e = p" "d \<noteq> []" using assms(2) p(1) cs by (cases p) auto
  with resp_command_first p(2) show ?thesis by blast
qed


lemma ready_session: "ss_handler (Session_start (Session_new h)) = h"
  "ss_pending (Session_start (Session_new h)) = [AsyncRead]" "ss_sent (Session_start (Session_new h)) = []"
  "ss_open (Session_start (Session_new h))"
  by (simp_all add: Session_start_def Session_new_def Session_doRead_def Session_armIdleTimer_def
      cancel_timer_def start_op_def Let_def)

text \<open>A client that stores a value, in two reads, and gets it back.\<close>

definition two_commands :: "(kv_command \<times> bytes list) list" where
  "two_commands =
     [(KvSet ''a/b'' ''v'', [take 9 (resp_command [''SET'', ''a/b'', ''v'']),
        drop 9 (resp_command [''SET'', ''a/b'', ''v''])]),
      (KvGet ''a/b'', [resp_command [''GET'', ''a/b'']])]"

lemma plain_accessible [simp]:
  "way_free plain_env q" "accessible_key plain_env root k \<longleftrightarrow> good_key k"
  by (simp_all add: accessible_key_def way_free_def list_all_iff)

lemma two_commands_ok: "conversation_ok (accessible_key plain_env d_root) two_commands"
proof -
  have "good_key ''a/b''" by code_simp
  moreover have "9 < length (resp_command [''SET'', ''a/b'', ''v''])"
    by (simp add: resp_command_def respreply_bulkString_def respreply_arrayHeader_def)
  moreover have "resp_command [''GET'', ''a/b''] \<noteq> []"
    by (simp add: resp_command_def respreply_arrayHeader_def)
  ultimately show ?thesis
    by (auto simp: conversation_ok_def two_commands_def kStreamingThreshold_def take_eq_Nil)
qed

lemma d_sizes: "sizes_ok (disk_view plain_env d_root d_host)"
  by (auto simp: sizes_ok_def disk_view_def file_at_def node_at_def d_host_def str_ok_def split: option.splits node.splits if_splits)


lemma http_conversation_first:
  assumes "http_conversation_ok good cs" "concat (map snd cs) = d # ds" "isHttp d = HttpMatch"
  shows "d \<noteq> [] \<and> \<not> isRespPrefix (d ! 0)"
proof -
  from assms(2) obtain c p cs' where cs: "cs = (c, p) # cs'" by (cases cs) auto
  then have p: "[] \<notin> set p" "concat p = call_head c @ call_body c"
    using assms(1) by (auto simp: http_conversation_ok_def)
  have h: "call_head c \<noteq> []" "call_head c ! 0 \<in> {CHR ''G'', CHR ''P'', CHR ''D''}"
    by (cases c; simp add: request_head_def request_line_def)+
  then have "p \<noteq> []" using p by auto
  then obtain e where "d # e = p" "d \<noteq> []" using assms(2) p(1) cs by (cases p) auto
  then have "d ! 0 = call_head c ! 0"
    using p(2) h(1) by (metis append_is_Nil_conv concat.simps(2) length_greater_0_conv nth_append)
  with h(2) \<open>d \<noteq> []\<close> show ?thesis by (auto simp: isRespPrefix_def)
qed


definition put_and_get :: "(http_call \<times> bytes list) list" where
  "put_and_get =
     [(CallPut ''/k'' ''HTTP/1.1'' put_headers ''hello'',
        [request_head ''PUT'' ''/k'' ''HTTP/1.1'' put_headers, ''hello'']),
      (CallGet ''/k'' ''HTTP/1.1'' [], [request_head ''GET'' ''/k'' ''HTTP/1.1'' []])]"

lemma put_and_get_ok: "http_conversation_ok (accessible_key plain_env d_root) put_and_get"
proof -
  have "good_key (http_key ''/k'')" "request_ok ''GET'' ''/k'' ''HTTP/1.1'' []" "announces [] 0"
    "length (request_head ''PUT'' ''/k'' ''HTTP/1.1'' put_headers) \<le> kMaxHeaderSectionSize"
    "length (request_head ''GET'' ''/k'' ''HTTP/1.1'' []) \<le> kMaxHeaderSectionSize"
    by code_simp+
  moreover have "[] \<noteq> request_head m p v hs" for m p v hs by (simp add: request_head_def)
  ultimately show ?thesis
    using put_headers_ok by (simp add: http_conversation_ok_def put_and_get_def kStreamingThreshold_def)
qed


section \<open>Every answer ends\<close>

text \<open>A handler that is in order gives out what it has in finitely many calls.\<close>

lemma disk_downloads_total: "\<exists>b. disk_downloads r b h"
  by (auto simp: disk_downloads_def)

lemma obsto_gives:
  assumes "detector_ok up d s"
  shows "\<exists>n b k. hv_drain (obsto_hvt env root) n d s = Some (b, k)"
proof -
  let ?ovt = "BoundedObjectStorage_vt (DiskObjectStorage_vt env root)"
  let ?svt = "Some (BoundedObjectStorage_svt (DiskObjectStorage_svt env root))"
  have down: "\<exists>b. bounded_downloads disk_downloads r b s" for r
    using disk_downloads_total by (simp add: bounded_downloads_def)
  obtain p where d: "d = \<lparr>pd_delegate = p\<rparr>" by (cases d) simp
  show ?thesis
  proof (cases p)
    case None
    then have "hv_drain (obsto_hvt env root) 1 d s = Some ([], d)"
      by (simp add: d obsto_hvt_def pd_takeOutgoingBytes_def pd_hasMoreToSend_def)
    then show ?thesis by blast
  next
    case (Some h)
    show ?thesis
    proof (cases h)
      case (RespProto g)
      then have "rh_streamingRead g \<longrightarrow> (\<exists>r. rh_activeReadSession g = Some r)"
        using assms by (auto simp: d Some detector_ok_def resp_ok_def)
      then obtain b k where "resp_gives (bounded_downloads disk_downloads) g b k s"
        using down by (cases "rh_streamingRead g") (fastforce simp: resp_gives_def)+
      then have "hv_drain (RespProtocolHandler_hvt ?ovt ?svt) (Suc (length b)) g s = Some (b, k)"
        by (rule bdisk.outer.resp_out.drain_gives) simp
      then show ?thesis
        using detector_drain(1) [of ?ovt ?svt "Suc (length b)" g s]
        by (fastforce simp: d Some RespProto obsto_hvt_def simp del: hv_drain.simps)
    next
      case (HttpProto g)
      then have "hh_streamingRead g \<longrightarrow> (\<exists>r. hh_activeReadSession g = Some r)"
        using assms by (auto simp: d Some detector_ok_def http_ok_def)
      then obtain b k where "http_gives (bounded_downloads disk_downloads) g b k s"
        using down by (cases "hh_streamingRead g") (fastforce simp: http_gives_def)+
      then have "hv_drain (HttpProtocolHandler_hvt ?ovt ?svt) (Suc (length b)) g s = Some (b, k)"
        by (rule bdisk.outer.http_out.drain_gives) simp
      then show ?thesis
        using detector_drain(2) [of ?ovt ?svt "Suc (length b)" g s]
        by (fastforce simp: d Some HttpProto obsto_hvt_def simp del: hv_drain.simps)
    qed
  qed
qed


lemma accepted_run:
  "server_run hv h \<lparr>sv_sessions = [], sv_storage = s\<rparr>
     (Some \<lparr>sv_sessions = [Session_start (Session_new h)], sv_storage = s\<rparr>)"
  using server_run.run_step [OF server_run.run_refl server_step.accept, of hv h "\<lparr>sv_sessions = [], sv_storage = s\<rparr>"]
  by (simp add: Server_accept_def)


section \<open>The first bytes\<close>

text \<open>What the detector makes of the first bytes, without the loop over the methods.\<close>

definition method_mark :: "http_method \<Rightarrow> bytes" where
  "method_mark m = http_toString m @ '' ''"

lemma common_take:
  "take (min (length d) (length m)) d = take (min (length d) (length m)) m \<longleftrightarrow> prefix d m \<or> prefix m d"
proof (cases "length d \<le> length m")
  case True
  then have "take (min (length d) (length m)) d = d" "min (length d) (length m) = length d" by simp_all
  moreover have "d = take (length d) m \<longleftrightarrow> prefix d m"
    by (metis append_eq_conv_conj prefix_def take_is_prefix)
  moreover have "prefix m d \<longrightarrow> m = d" using True by (auto simp: prefix_def)
  ultimately show ?thesis by auto
next
  case False
  then have "take (min (length d) (length m)) m = m" "min (length d) (length m) = length m" by simp_all
  moreover have "take (length m) d = m \<longleftrightarrow> prefix m d"
    by (metis append_eq_conv_conj prefix_def take_is_prefix)
  moreover have "\<not> prefix d m" using False by (auto dest: prefix_length_le)
  ultimately show ?thesis by auto
qed

lemma isHttp_loop_spec:
  "isHttp_loop data any ms =
    (if \<exists>m\<in>set ms. prefix (method_mark m) data then HttpMatch
     else if any \<or> (\<exists>m\<in>set ms. prefix data (method_mark m)) then HttpNeedMoreData else HttpNoMatch)"
proof (induction ms arbitrary: any)
  case (Cons m ms)
  have long: "length data \<ge> length (method_mark m) \<and> (prefix data (method_mark m) \<or> prefix (method_mark m) data)
      \<longleftrightarrow> prefix (method_mark m) data"
    by (auto simp: prefix_def)
  show ?case
    using long Cons.IH common_take [of data "method_mark m"]
    by (auto simp: Let_def simp flip: method_mark_def)
qed simp

lemma isHttp_spec:
  "isHttp data =
    (if \<exists>m\<in>set kSupportedHttpMethods. prefix (method_mark m) data then HttpMatch
     else if \<exists>m\<in>set kSupportedHttpMethods. prefix data (method_mark m) then HttpNeedMoreData
     else HttpNoMatch)"
  by (simp add: isHttp_def isHttp_loop_spec)

lemma method_marks:
  "method_mark MethodGet = ''GET ''" "method_mark MethodPut = ''PUT ''" "method_mark MethodDelete = ''DELETE ''"
  by (simp_all add: method_mark_def)

lemma isHttp_other:
  assumes "c \<notin> {CHR ''G'', CHR ''P'', CHR ''D''}"
  shows "isHttp (c # cs) = HttpNoMatch"
  using assms by (auto simp: isHttp_spec kSupportedHttpMethods_def method_marks)

lemma method_tail:
  assumes "m \<in> set kSupportedHttpMethods" "0 < i" "i < length (method_mark m)"
  shows "method_mark m ! i \<in> set ''ETU L''"
proof -
  have "\<forall>m\<in>set kSupportedHttpMethods. \<forall>i\<in>set [1..<length (method_mark m)]. method_mark m ! i \<in> set ''ETU L''"
    by code_simp
  with assms show ?thesis by auto
qed

text \<open>C34.
  The first bytes of an HTTP request are lost when the method does not arrive whole: the detector
  waits for more without keeping what it has, so that the next read is taken for the start of the
  connection and, whatever it holds of the request, is rejected.\<close>

theorem Detector_split_method_loses:
  assumes "m \<in> set kSupportedHttpMethods" "http_toString m @ '' '' @ rest = d @ e" "d \<noteq> []" "e \<noteq> []"
    and "length d \<le> length (http_toString m)" "prefix e' e" "e' \<noteq> []"
  shows "pd_onBytesReceived ovt svt d ProtocolDetectorHandler_new s = (Ret True, ProtocolDetectorHandler_new, s) \<and>
    pd_onBytesReceived ovt svt e' ProtocolDetectorHandler_new s = (Ret False, ProtocolDetectorHandler_new, s)"
proof -
  have mark: "method_mark m @ rest = d @ e" using assms(2) by (simp add: method_mark_def)
  have len: "length d < length (method_mark m)" using assms(5) by (simp add: method_mark_def)
  then have d: "prefix d (method_mark m)" "d \<noteq> method_mark m"
    using mark by (auto simp: append_eq_append_conv2 prefix_def)
  obtain c cs where c: "e' = c # cs" using assms(7) by (cases e') auto
  have "c = (d @ e) ! length d" using assms(6) c by (auto simp: prefix_def)
  also have "\<dots> = method_mark m ! length d" using len by (simp add: nth_append flip: mark)
  finally have "c \<in> set ''ETU L''" using method_tail [OF assms(1) _ len] assms(3) by simp
  then have e: "\<not> isRespPrefix c" "isHttp e' = HttpNoMatch"
    using isHttp_other [of c cs] by (auto simp: isRespPrefix_def c)
  obtain a as where a: "d = a # as" using assms(3) by (cases d) auto
  have "a = method_mark m ! 0" using d(1) by (auto simp: a prefix_def)
  then have first: "\<not> isRespPrefix a"
    using assms(1) by (auto simp: kSupportedHttpMethods_def method_marks isRespPrefix_def)
  have "\<not> prefix (method_mark n) d" if "n \<in> set kSupportedHttpMethods" for n
  proof
    assume p: "prefix (method_mark n) d"
    then have "prefix (method_mark n) (method_mark m)" using d(1) by (rule prefix_order.trans)
    then have "method_mark n = method_mark m"
      using that assms(1) by (auto simp: kSupportedHttpMethods_def method_marks)
    with p d show False by (metis prefix_order.antisym)
  qed
  then have "isHttp d = HttpNeedMoreData" using assms(1) d(1) by (auto simp: isHttp_spec)
  with first e show ?thesis
    by (simp add: pd_onBytesReceived_def ProtocolDetectorHandler_new_def a c)
qed

theorem Detector_split_method_loses_witness:
  "pd_onBytesReceived ObjectStorage_vt None ''GE'' (ProtocolDetectorHandler_new :: (unit, unit) detector) ObjectStorage_init =
     (Ret True, ProtocolDetectorHandler_new, ObjectStorage_init) \<and>
   pd_onBytesReceived ObjectStorage_vt None ''T /k HTTP/1.1'' (ProtocolDetectorHandler_new :: (unit, unit) detector)
     ObjectStorage_init = (Ret False, ProtocolDetectorHandler_new, ObjectStorage_init)"
  by (rule Detector_split_method_loses [of MethodGet "''/k HTTP/1.1''" _ "''T /k HTTP/1.1''"])
    (simp_all add: kSupportedHttpMethods_def)

end
