(* ===== verification/Disk_Snapshot.thy ===== *)
theory Disk_Snapshot
  imports Disk_Isolation Disk_Index
begin

text \<open>
  Downloads among other clients. A download reads an open file, and no operation but a \<open>put\<close> in place
  writes to the file of an object: the download goes on with the object as it was at its begin while
  the object is deleted, inserted again or replaced by an upload. What is stored in place of it goes
  into the download.
\<close>

section \<open>Downloads among other clients\<close>

text \<open>
  \<open>disk_reads env root k r b h\<close>: the session \<open>r\<close> of a download of \<open>k\<close> still has the bytes \<open>b\<close> to give, and its
  file has no other name than \<open>k\<close>, if any.
\<close>

definition disk_reads :: "os_env \<Rightarrow> fs_path \<Rightarrow> string \<Rightarrow> ifstream \<Rightarrow> bytes \<Rightarrow> host \<Rightarrow> bool" where
  "disk_reads env root k r b h \<longleftrightarrow>
     disk_downloads r b h \<and>
     (\<forall>i. ifs_file r = Some i \<longrightarrow>
        i < hs_next h \<and> (\<forall>p. node_at h p = Some (File i) \<longrightarrow> p = object_place env root k))"

lemma begun_download:
  assumes inv: "disk_inv env root h" and k: "good_key k" and v: "disk_view env root h k = Some b"
  shows "\<exists>r. DiskObjectStorage_beginGet env root k h =
      \<lparr>bg_found = True, bg_size = of_nat (length b), bg_session = Some r\<rparr> \<and> disk_reads env root k r b h"
proof -
  from v obtain i where i: "node_at h (object_place env root k) = Some (File i)" "b = hs_data h i"
    by (auto simp: disk_view_iff)
  then have "fs_status env (root @ key_names k) h = StFile i" using status_key [OF inv k] by simp
  moreover have "mapPath root k = Some (root @ key_names k)" using mapPath_good [OF _ k] inv by (simp add: disk_inv_def)
  moreover have "i < hs_next h \<and> (\<forall>p. node_at h p = Some (File i) \<longrightarrow> p = object_place env root k)"
    using fs_invD(5,6) [of env root h] i(1) inv unfolding disk_inv_def by blast
  ultimately show ?thesis
    by (simp add: DiskObjectStorage_beginGet_def disk_reads_def disk_downloads_def ifs_open_def ifs_rest_def i(2))
qed

lemma readChunk_file: "ifs_file (snd (DiskReadSession_readChunk r n h)) = ifs_file r"
  by (simp add: DiskReadSession_readChunk_def ifs_read_def Let_def)

lemma disk_reads_chunk:
  assumes "disk_reads env root k r b h" "0 < n" "DiskReadSession_readChunk r n h = (c, r')"
  shows "case c of None \<Rightarrow> b = [] | Some x \<Rightarrow> \<exists>b'. b = x @ b' \<and> disk_reads env root k r' b' h"
proof (cases "b = []")
  case True
  with assms Disk_readChunk_view [of r b h n] show ?thesis by (simp add: disk_reads_def)
next
  case False
  with Disk_readChunk_view [of r b h n] assms have "c = Some (take n b)" "disk_downloads r' (drop n b) h"
    by (auto simp: disk_reads_def)
  moreover have "ifs_file r' = ifs_file r" using readChunk_file [of r n h] assms(3) by simp
  ultimately have "c = Some (take n b)" "disk_reads env root k r' (drop n b) h"
    using assms(1) by (simp_all add: disk_reads_def)
  then show ?thesis by (auto intro: exI [of _ "drop n b"])
qed

lemma client_step_reads:
  assumes "client_step env root (- {k}) UNIV h h'" "disk_inv env root h" "good_key k" "disk_reads env root k r b h"
  shows "disk_inv env root h' \<and> disk_reads env root k r b h'"
proof -
  from client_step_touches [OF assms(1,2)] obtain j D where inv: "disk_inv env root h'" and j: "good_key j"
    and kept: "contents_kept D h h'"
    and D: "\<forall>p\<in>D. p = temp_place env root j \<or> p = object_place env root j \<and> j \<noteq> k \<or> (\<forall>i. node_at h p \<noteq> Some (File i))"
    by (auto simp: touches_def)
  have "disk_reads env root k r b h'"
  proof (cases "ifs_file r")
    case None
    with assms(4) show ?thesis by (auto simp: disk_reads_def disk_downloads_def ifs_rest_def)
  next
    case (Some i)
    with assms(4) have i: "i < hs_next h" "node_at h p = Some (File i) \<Longrightarrow> p = object_place env root k" for p
      by (auto simp: disk_reads_def)
    have "\<forall>p\<in>D. node_at h p \<noteq> Some (File i)" using D i(2) temp_not_key [OF j assms(3)] by fastforce
    note at = contents_keptD [OF kept i(1) this]
    then have "ifs_rest r h' = ifs_rest r h" by (simp add: ifs_rest_def Some)
    with assms(4) at(1,3) i(2) Some show ?thesis by (auto simp: disk_reads_def disk_downloads_def)
  qed
  with inv show ?thesis by simp
qed

text \<open>The session \<open>r\<close> gives the chunks \<open>cs\<close>, other clients come in between.\<close>

inductive download_run ::
    "os_env \<Rightarrow> fs_path \<Rightarrow> string \<Rightarrow> ifstream \<Rightarrow> host \<Rightarrow> bytes list \<Rightarrow> ifstream \<Rightarrow> host \<Rightarrow> bool" for env root k r h where
  download_start: "download_run env root k r h [] r h"
| download_read: "download_run env root k r h cs r1 h1 \<Longrightarrow> 0 < n \<Longrightarrow>
    DiskReadSession_readChunk r1 n h1 = (Some c, r2) \<Longrightarrow> download_run env root k r h (cs @ [c]) r2 h1"
| download_other: "download_run env root k r h cs r1 h1 \<Longrightarrow> client_step env root (- {k}) UNIV h1 h2 \<Longrightarrow>
    download_run env root k r h cs r1 h2"

lemma download_run_reads:
  assumes "download_run env root k r h cs r' h'" "disk_inv env root h" "good_key k" "disk_reads env root k r b h"
  shows "disk_inv env root h' \<and> (\<exists>b'. b = concat cs @ b' \<and> disk_reads env root k r' b' h')"
  using assms
proof (induction rule: download_run.induct)
  case (download_read cs r1 h1 n c r2)
  then obtain b' where b': "disk_inv env root h1" "b = concat cs @ b'" "disk_reads env root k r1 b' h1" by auto
  from disk_reads_chunk [OF b'(3) download_read.hyps(2,3)] b' show ?case by auto
next
  case (download_other cs r1 h1 h2)
  then obtain b' where b': "disk_inv env root h1" "b = concat cs @ b'" "disk_reads env root k r1 b' h1" by auto
  from client_step_reads [OF download_other.hyps(2) b'(1) assms(3) b'(3)] b'(2) show ?case by blast
qed simp

text \<open>A value that is stored in place of the object goes into the file that is read.\<close>

lemma put_same_file:
  assumes inv: "disk_inv env root h" and k: "good_key k"
    and i: "node_at h (object_place env root k) = Some (File i)"
    and op: "DiskObjectStorage_put env root k w h = (PutOk, h')"
  shows "node_at h' (object_place env root k) = Some (File i) \<and> hs_data h' i = w"
proof -
  have ok: "root_ok root" and fs: "fs_inv env root h" using inv by (auto simp: disk_inv_def)
  let ?t = "root @ key_names k" and ?q = "object_place env root k"
  have map: "mapPath root k = Some ?t" by (rule mapPath_good [OF ok k])
  obtain d h1 where d: "fs_create_directories env (path_parent ?t) h = (d, h1)" by fastforce
  obtain f h2 where o: "ofs_open env ?t h1 = (f, h2)" by fastforce
  obtain f' h3 where w: "ofs_write env f w h2 = (f', h3)" by fastforce
  obtain f'' h4 where c: "ofs_close f' h3 = (f'', h4)" by fastforce
  from touches_dirs [OF ok fs k d] have 1: "fs_inv env root h1" "node_at h1 ?q = Some (File i)"
    using grown_node [OF _ i] by auto
  then have "fs_resolve env ?t h1 = WalkAt ?q" using resolve_reaches [OF ok 1(1) good_key_plain [OF k]] by simp
  then have f: "ofs_file f = Some i" "node_at h2 = node_at h1" using o 1(2) by (auto simp: ofs_open_def Let_def)
  have h': "h' = h4" using op by (simp add: DiskObjectStorage_put_def map d o w c split: if_splits)
  have "fs_inv env root h2" using touches_open [OF ok 1(1) good_key_plain [OF k] o] by simp
  from touches_stream(1) [OF this _ w, of ?q] f 1(2)
  have 3: "node_at h3 = node_at h1" "fs_inv env root h3" "ofs_file f' = Some i" by auto
  from touches_stream(2) [OF 3(2) _ c, of ?q] 3 1(2) have at: "node_at h' ?q = Some (File i)" by (auto simp: h')
  have "disk_view env root h' k = Some w" using Disk_put_view [OF inv k op] by simp
  with at show ?thesis by (auto simp: disk_view_iff)
qed

lemma put_under_download:
  assumes "disk_inv env root h" "good_key k" "disk_view env root h k = Some b"
    and "bg_session (DiskObjectStorage_beginGet env root k h) = Some r"
    and "DiskObjectStorage_put env root k w h = (PutOk, h')"
  shows "disk_downloads r w h'"
proof -
  from assms(3) obtain i where i: "node_at h (object_place env root k) = Some (File i)" by (auto simp: disk_view_iff)
  have "mapPath root k = Some (root @ key_names k)" using mapPath_good [OF _ assms(2)] assms(1) by (simp add: disk_inv_def)
  moreover have "fs_status env (root @ key_names k) h = StFile i" using status_key [OF assms(1,2)] i by simp
  ultimately have "r = \<lparr>ifs_file = Some i, ifs_pos = 0, ifs_good = True\<rparr>"
    using assms(4) by (simp add: DiskObjectStorage_beginGet_def ifs_open_def)
  with put_same_file [OF assms(1,2) i assms(5)] show ?thesis by (simp add: disk_downloads_def ifs_rest_def)
qed

text \<open>
  A download is a snapshot. Whatever other clients do between its chunks, deleting the object, inserting
  it again and replacing it by an upload included, only not storing it in place, the download gives the
  object as it was when it began, of the size that was announced: at any time a prefix of it, and when
  it ends the whole.\<close>

theorem Disk_download_snapshot:
  assumes "disk_inv env root h" "good_key k" "disk_view env root h k = Some b"
    and "bg_session (DiskObjectStorage_beginGet env root k h) = Some r"
    and "download_run env root k r h cs r' h'" "0 < n"
  shows "bg_size (DiskObjectStorage_beginGet env root k h) = of_nat (length b) \<and> prefix (concat cs) b \<and>
    (fst (DiskReadSession_readChunk r' n h') = None \<longrightarrow> concat cs = b)"
proof -
  from begun_download [OF assms(1-3)] assms(4)
  have begun: "bg_size (DiskObjectStorage_beginGet env root k h) = of_nat (length b)" "disk_reads env root k r b h"
    by auto
  from download_run_reads [OF assms(5,1,2) begun(2)] obtain b' where
    b': "b = concat cs @ b'" "disk_reads env root k r' b' h'" by blast
  obtain c r2 where "DiskReadSession_readChunk r' n h' = (c, r2)" by fastforce
  with disk_reads_chunk [OF b'(2) assms(6) this] begun(1) b'(1) show ?thesis by auto
qed

text \<open>Between the two chunks another client deletes the object.\<close>

definition d_reading :: "nat \<Rightarrow> bool \<Rightarrow> ifstream" where
  "d_reading n good = \<lparr>ifs_file = Some 1, ifs_pos = n, ifs_good = good\<rparr>"

definition d_deleted :: host where
  "d_deleted = remove_node [''d'', ''a'', ''b''] d_filled"

lemma d_reading_steps:
  "DiskObjectStorage_beginGet plain_env d_root ''a/b'' d_filled =
     \<lparr>bg_found = True, bg_size = 3, bg_session = Some (d_reading 0 True)\<rparr>"
  "DiskReadSession_readChunk (d_reading 0 True) 2 d_filled = (Some ''ol'', d_reading 2 True)"
  "DiskObjectStorage_del plain_env d_root ''a/b'' d_filled = (True, d_deleted)"
  "DiskReadSession_readChunk (d_reading 2 True) 2 d_deleted = (Some ''d'', d_reading 3 False)"
  by (simp_all add: DiskObjectStorage_beginGet_def DiskObjectStorage_del_def d_map)
    (simp_all add: d_eval d_filled_def d_deleted_def d_reading_def fs_status_def fs_resolve_def node_at_def
      fs_remove_def remove_node_def ifs_open_def ifs_rest_def ifs_read_def DiskReadSession_readChunk_def)

theorem Disk_download_snapshot_witness:
  "download_run plain_env d_root ''a/b'' (d_reading 0 True) d_filled [''ol'', ''d''] (d_reading 3 False) d_deleted \<and>
   fst (DiskReadSession_readChunk (d_reading 3 False) 2 d_deleted) = None \<and> concat [''ol'', ''d''] = ''old''"
proof -
  let ?run = "download_run plain_env d_root ''a/b'' (d_reading 0 True) d_filled"
  from download_read [OF download_start _ d_reading_steps(2)] have "?run [''ol''] (d_reading 2 True) d_filled" by simp
  from download_other [OF this client_del [OF d_key(1) d_reading_steps(3)]]
  have "?run [''ol''] (d_reading 2 True) d_deleted" .
  from download_read [OF this _ d_reading_steps(4)] have run: "?run [''ol'', ''d''] (d_reading 3 False) d_deleted" by simp
  have "disk_view plain_env d_root d_filled ''a/b'' = Some ''old''" by (simp add: d_filled_view)
  from Disk_download_snapshot [OF d_filled_inv d_key(1) this _ run, of 2] run d_reading_steps(1)
  show ?thesis by (simp add: DiskReadSession_readChunk_def d_reading_def)
qed

end
