(* ===== verification/Download_Races.thy ===== *)
theory Download_Races
  imports Server_Properties Disk_Snapshot
begin

text \<open>
  A \<open>GET\<close> is answered in several writes, and other clients come in between. The length of the object is
  sent first, its bytes are read afterwards: the reply is the object as it was when the command came,
  unless another value is stored in place in the meantime, which is then sent with the length of the
  one before.
\<close>

section \<open>Sending among other clients\<close>

text \<open>
  \<open>drained_among hv R n h s b k t\<close>: in \<open>n\<close> calls the handler \<open>h\<close> gives the bytes \<open>b\<close> and is \<open>k\<close> then, while
  others change the storage from \<open>s\<close> to \<open>t\<close> by steps of \<open>R\<close>.
\<close>

inductive drained_among ::
    "('h, 's) handler_vt \<Rightarrow> ('s \<Rightarrow> 's \<Rightarrow> bool) \<Rightarrow> nat \<Rightarrow> 'h \<Rightarrow> 's \<Rightarrow> bytes \<Rightarrow> 'h \<Rightarrow> 's \<Rightarrow> bool" for hv R where
  drained_last: "hv_takeOutgoingBytes hv h s = (Ret b, h') \<Longrightarrow> \<not> hv_hasMoreToSend hv h' \<Longrightarrow>
    drained_among hv R 1 h s b h' s"
| drained_more: "hv_takeOutgoingBytes hv h s = (Ret b, h') \<Longrightarrow> hv_hasMoreToSend hv h' \<Longrightarrow>
    drained_among hv R n h' s c k t \<Longrightarrow> drained_among hv R (Suc n) h s (b @ c) k t"
| drained_other: "R s s' \<Longrightarrow> drained_among hv R n h s' b k t \<Longrightarrow> drained_among hv R n h s b k t"

locale sending_among = sending hv gives
  for hv :: "('h, 's) handler_vt" and gives :: "'h \<Rightarrow> bytes \<Rightarrow> 'h \<Rightarrow> 's \<Rightarrow> bool" +
  fixes R :: "'s \<Rightarrow> 's \<Rightarrow> bool"
  assumes stable: "gives h b k s \<Longrightarrow> R s s' \<Longrightarrow> gives h b k s'"
begin

lemma drained_gives:
  "drained_among hv R n h s c g t \<Longrightarrow> gives h b k s \<Longrightarrow> c = b \<and> g = k \<and> n \<le> Suc (length b)"
proof (induction arbitrary: b rule: drained_among.induct)
  case (drained_last h s c h')
  with take_gives [OF drained_last.prems] show ?case by auto
next
  case (drained_more h s c h' n d g t)
  with take_gives [OF drained_more.prems] obtain b' where "c \<noteq> []" "b = c @ b'" "gives h' b' k s" by auto
  with drained_more.IH show ?case by (cases c) fastforce+
next
  case (drained_other s s' n h c g t)
  with stable show ?case by blast
qed

lemma stable_star: "R\<^sup>*\<^sup>* s s' \<Longrightarrow> gives h b k s \<Longrightarrow> gives h b k s'"
  by (induction rule: rtranclp_induct) (auto intro: stable)

lemma gives_drained:
  assumes "gives h b k s"
  shows "\<exists>n. drained_among hv R n h s b k s"
  using assms
proof (induction "length b" arbitrary: h b rule: less_induct)
  case less
  from take_gives [OF less.prems] obtain c h' where t: "hv_takeOutgoingBytes hv h s = (Ret c, h')"
    "if hv_hasMoreToSend hv h' then c \<noteq> [] \<and> (\<exists>b'. b = c @ b' \<and> gives h' b' k s) else b = c \<and> h' = k" by blast
  show ?case
  proof (cases "hv_hasMoreToSend hv h'")
    case True
    with t(2) obtain b' where b': "c \<noteq> []" "b = c @ b'" "gives h' b' k s" by auto
    with less.hyps [of b' h'] drained_more [OF t(1) True] show ?thesis by fastforce
  next
    case False
    with drained_last [OF t(1)] t(2) show ?thesis by auto
  qed
qed

text \<open>However many steps of others come first, what is given out is the same, and all of it comes out.\<close>

lemma exactly_drained:
  assumes "gives h b k s"
  shows "(\<forall>t. R\<^sup>*\<^sup>* s t \<longrightarrow> (\<exists>n. drained_among hv R n h t b k t)) \<and>
    (\<forall>n c g t. drained_among hv R n h s c g t \<longrightarrow> c = b \<and> g = k \<and> n \<le> Suc (length c))"
  using drained_gives [OF _ assms] gives_drained stable_star [OF _ assms] by blast

end

section \<open>Replies of the program\<close>

text \<open>
  The session \<open>r\<close> of a reply to \<open>GET key\<close> still has \<open>b\<close> to give; other clients do anything through the
  capacity limit, only not storing \<open>key\<close> in place.
\<close>

definition reply_reads :: "os_env \<Rightarrow> fs_path \<Rightarrow> string \<Rightarrow> ifstream \<Rightarrow> bytes \<Rightarrow> obsto_storage \<Rightarrow> bool" where
  "reply_reads env root key r b s \<longleftrightarrow>
     disk_inv env root (b_inner s) \<and> good_key key \<and> disk_reads env root key r b (b_inner s)"

definition beside :: "os_env \<Rightarrow> fs_path \<Rightarrow> string \<Rightarrow> obsto_storage \<Rightarrow> obsto_storage \<Rightarrow> bool" where
  "beside env root key s s' \<longleftrightarrow> client_step env root (- {key}) UNIV (b_inner s) (b_inner s')"

abbreviation obsto_ovt :: "os_env \<Rightarrow> fs_path \<Rightarrow> obsto_storage object_vt" where
  "obsto_ovt env root \<equiv> BoundedObjectStorage_vt (DiskObjectStorage_vt env root)"

abbreviation obsto_svt :: "os_env \<Rightarrow> fs_path \<Rightarrow> (obsto_storage, disk_write bounded_write, ifstream) streaming_vt" where
  "obsto_svt env root \<equiv> BoundedObjectStorage_svt (DiskObjectStorage_svt env root)"

interpretation reply: download_store "obsto_svt env root" "reply_reads env root key" for env root key
proof (unfold_locales, goal_cases)
  case (1 r s n)
  then show ?case using Disk_readChunk_view [of r "[]" "b_inner s" n] by (simp add: reply_reads_def disk_reads_def)
next
  case (2 r b s n)
  then have r: "disk_reads env root key r b (b_inner s)" by (simp add: reply_reads_def)
  then have "disk_downloads r b (b_inner s)" by (simp add: disk_reads_def)
  from Disk_readChunk_view [OF this 2(3)] 2(2) obtain r' where
    r': "DiskReadSession_readChunk r n (b_inner s) = (Some (take n b), r')" by auto
  from disk_reads_chunk [OF r 2(3) r'] 2(1) have "reply_reads env root key r' (drop n b) s"
    by (auto simp: reply_reads_def) (metis append_take_drop_id same_append_eq)
  with r' show ?case by simp
qed

abbreviation obsto_resp :: "os_env \<Rightarrow> fs_path \<Rightarrow> ((disk_write bounded_write, ifstream) resp_handler, obsto_storage) handler_vt" where
  "obsto_resp env root \<equiv> RespProtocolHandler_hvt (obsto_ovt env root) (Some (obsto_svt env root))"

abbreviation obsto_http :: "os_env \<Rightarrow> fs_path \<Rightarrow> ((disk_write bounded_write, ifstream) http_handler, obsto_storage) handler_vt" where
  "obsto_http env root \<equiv> HttpProtocolHandler_hvt (obsto_ovt env root) (Some (obsto_svt env root))"

lemma reply_reads_beside:
  "reply_reads env root key r b s \<Longrightarrow> beside env root key s s' \<Longrightarrow> reply_reads env root key r b s'"
  using client_step_reads by (auto simp: reply_reads_def beside_def)

interpretation resp_among: sending_among "obsto_resp env root" "resp_gives (reply_reads env root key)" "beside env root key"
  for env root key
  by unfold_locales (use reply_reads_beside in \<open>fastforce simp: resp_gives_def split: if_splits\<close>)

interpretation http_among: sending_among "obsto_http env root" "http_gives (reply_reads env root key)" "beside env root key" for env root key
  by unfold_locales (use reply_reads_beside in \<open>fastforce simp: http_gives_def split: if_splits\<close>)


section \<open>Replies to GET\<close>

text \<open>A \<open>GET\<close> announces the length of the object and opens its file.\<close>

lemma resp_get_received:
  fixes h :: "(disk_write bounded_write, ifstream) resp_handler"
  assumes "disk_inv env root (b_inner s)" "resp_ready h" "good_key k" "length k < 2 ^ 31"
    and "disk_view env root (b_inner s) k = Some v" "str_ok v"
  obtains r where "bg_session (DiskObjectStorage_beginGet env root k (b_inner s)) = Some r" "reply_reads env root k r v s"
    "resp_onBytesReceived (obsto_ovt env root) (Some (obsto_svt env root)) (resp_command [''GET'', k]) h s =
      (Ret True, (resp_queueResponse (''$'' @ to_string (length v) @ crlf) h)
        \<lparr>rh_activeReadSession := Some r, rh_streamingRead := True\<rparr>, s)"
proof -
  from begun_download [OF assms(1,3,5)] obtain r where
    r: "DiskObjectStorage_beginGet env root k (b_inner s) = \<lparr>bg_found = True, bg_size = of_nat (length v), bg_session = Some r\<rparr>"
      "disk_reads env root k r v (b_inner s)" by blast
  let ?h1 = "(resp_queueResponse (''$'' @ to_string (length v) @ crlf) h)
    \<lparr>rh_activeReadSession := Some r, rh_streamingRead := True\<rparr>"
  have h: "rh_state h = ParsingCommands" "rh_incomingBuffer h = []"
    using assms(2) by (simp_all add: resp_ready_def resp_idle_def)
  have "resp_processCommands (obsto_ovt env root) (Some (obsto_svt env root)) [''GET'', k] h s = (Ret (), ?h1, s)"
    using r unat_length [OF assms(6)]
    by (simp add: resp_processCommands_def resp_handleCommand_def resp_handleGet_def Let_def
        BoundedObjectStorage_beginGet_def)
  moreover have "no_header (Some (obsto_svt env root)) (resp_command [''GET'', k])"
    using kv_no_header [of good_key "KvGet k"] assms(3,4) by simp
  ultimately have "resp_onBytesReceived (obsto_ovt env root) (Some (obsto_svt env root)) (resp_command [''GET'', k]) h s =
      (Ret True, ?h1, s)"
    using resp_receive_command [OF h(1), of "[''GET'', k]" "resp_command [''GET'', k]" "[]"
      "Some (obsto_svt env root)" "obsto_ovt env root" s] assms(4) h(2)
    by (simp add: resp_command_result_def)
  with r assms(1,3) that show ?thesis by (simp add: reply_reads_def)
qed


text \<open>Another client deletes the object before the first write.\<close>

lemma beside_deleted:
  "beside plain_env d_root ''a/b'' (BoundedObjectStorage_new d_filled 10) ((BoundedObjectStorage_new d_filled 10)\<lparr>b_inner := d_deleted\<rparr>)"
  using client_del [OF d_key(1) d_reading_steps(3)] by (simp add: beside_def BoundedObjectStorage_new_def)

lemmas after_deleted = drained_other [of "beside plain_env d_root ''a/b''", OF beside_deleted]
  r_into_rtranclp [of "beside plain_env d_root ''a/b''", OF beside_deleted]

lemma filled_storage:
  "disk_inv plain_env d_root (b_inner (BoundedObjectStorage_new d_filled 10))"
  "disk_view plain_env d_root (b_inner (BoundedObjectStorage_new d_filled 10)) = [''a/b'' \<mapsto> ''old'']"
  by (simp_all add: BoundedObjectStorage_new_def d_filled_view)


text \<open>The same over HTTP.\<close>

lemma http_get_received:
  fixes h :: "(disk_write bounded_write, ifstream) http_handler"
  assumes "disk_inv env root (b_inner s)" "http_ready h" "call_ok good_key (CallGet p ver hs)"
    and "disk_view env root (b_inner s) (http_key p) = Some v" "str_ok v"
  obtains r where "reply_reads env root (http_key p) r v s"
    "http_onBytesReceived (obsto_ovt env root) (Some (obsto_svt env root)) (call_head (CallGet p ver hs)) h s =
      (Ret True, (http_queueResponse (found_header (length v)) h)
        \<lparr>hh_activeReadSession := Some r, hh_streamingRead := True\<rparr>, s)"
proof -
  have k: "good_key (http_key p)" "p \<noteq> ''/''" using assms(3) by simp_all
  from begun_download [OF assms(1) k(1) assms(4)] obtain r where r: "DiskObjectStorage_beginGet env root (http_key p) (b_inner s) =
      \<lparr>bg_found = True, bg_size = of_nat (length v), bg_session = Some r\<rparr>" "disk_reads env root (http_key p) r v (b_inner s)"
    by blast
  let ?h1 = "(http_queueResponse (found_header (length v)) h)\<lparr>hh_activeReadSession := Some r, hh_streamingRead := True\<rparr>"
  have h: "hh_state h = ParsingHeaders" "hh_incomingBuffer h = []" using assms(2) by (simp_all add: http_ready_def)
  then have "h\<lparr>hh_incomingBuffer := []\<rparr> = h" by (cases h) simp
  then have "http_processRequest (obsto_ovt env root) (Some (obsto_svt env root)) (call_request (CallGet p ver hs))
      (h\<lparr>hh_incomingBuffer := []\<rparr>) s = (Ret (), ?h1, s)"
    using r unat_length [OF assms(5)] k(2)
    by (simp add: written_request_def http_processRequest_def http_handleRequest_def http_handleGetPath_def
        found_header_def BoundedObjectStorage_beginGet_def Let_def)
  from http_receive_call [OF h(1) assms(3) _ this] h(2) r(2) assms(1) k(1) that show ?thesis
    by (simp add: reply_reads_def)
qed



text \<open>C35.
  A reply to \<open>GET\<close> can be torn. The handler sends the length of the object that is stored when the command
  arrives; if another client stores a value \<open>w\<close> in its place before the next write completes, the bytes
  of \<open>w\<close> follow, however many, so that a client that counts them is out of step with the replies from
  then on.\<close>

theorem RespHandler_get_torn:
  assumes "disk_inv env root (b_inner s)" "resp_ready h" "good_key k" "length k < 2 ^ 31"
    and "disk_view env root (b_inner s) k = Some v" "str_ok v"
    and "BoundedObjectStorage_put (DiskObjectStorage_vt env root) k w s = (PutOk, s')"
  shows "\<exists>h1 h2 h3 n.
    resp_onBytesReceived (obsto_ovt env root) (Some (obsto_svt env root)) (resp_command [''GET'', k]) h s = (Ret True, h1, s) \<and>
    resp_takeOutgoingBytes (Some (obsto_svt env root)) h1 s = (Ret (''$'' @ to_string (length v) @ crlf), h2) \<and>
    hv_drain (obsto_resp env root) n h2 s' = Some (w @ crlf, h3)"
proof -
  obtain r where r: "bg_session (DiskObjectStorage_beginGet env root k (b_inner s)) = Some r"
    and step: "resp_onBytesReceived (obsto_ovt env root) (Some (obsto_svt env root)) (resp_command [''GET'', k]) h s =
      (Ret True, (resp_queueResponse (''$'' @ to_string (length v) @ crlf) h)
        \<lparr>rh_activeReadSession := Some r, rh_streamingRead := True\<rparr>, s)"
    by (rule resp_get_received [OF assms(1-6)])
  have "DiskObjectStorage_put env root k w (b_inner s) = (PutOk, b_inner s')"
    using assms(7) by (auto simp: BoundedObjectStorage_put_def Let_def split: if_splits prod.splits)
  from put_under_download [OF assms(1,3,5) r this] have down: "disk_downloads r w (b_inner s')" .
  let ?h1 = "(resp_queueResponse (''$'' @ to_string (length v) @ crlf) h)
    \<lparr>rh_activeReadSession := Some r, rh_streamingRead := True\<rparr>"
  let ?h2 = "?h1\<lparr>rh_outgoingBuffer := []\<rparr>"
  let ?h3 = "?h2\<lparr>rh_streamingRead := False, rh_activeReadSession := None\<rparr>"
  have "resp_takeOutgoingBytes (Some (obsto_svt env root)) ?h1 s = (Ret (''$'' @ to_string (length v) @ crlf), ?h2)"
    using assms(2) by (simp add: resp_takeOutgoingBytes_def resp_queueResponse_def resp_ready_def)
  moreover have "resp_gives (bounded_downloads disk_downloads) ?h2 (w @ crlf) ?h3 s'"
    using down by (simp add: resp_gives_def bounded_downloads_def)
  then have "hv_drain (obsto_resp env root) (length w + 3) ?h2 s' =
      Some (w @ crlf, ?h3)"
    by (rule bdisk.outer.resp_out.drain_gives) simp
  ultimately show ?thesis using step by blast
qed

text \<open>The object \<open>old\<close> is announced, \<open>12345\<close> is sent.\<close>

lemma put_filled: "\<exists>h. DiskObjectStorage_put plain_env d_root ''a/b'' ''12345'' d_filled = (PutOk, h)"
  by (simp add: DiskObjectStorage_put_def d_map)
    (simp add: d_eval d_filled_def fs_status_def fs_resolve_def node_at_def ofs_open_def ofs_write_def ofs_close_def
      fs_write_def)

theorem RespHandler_get_torn_witness:
  "\<exists>s' h1 h2 h3 n. BoundedObjectStorage_put (DiskObjectStorage_vt plain_env d_root) ''a/b'' ''12345''
       (BoundedObjectStorage_new d_filled 10) = (PutOk, s') \<and>
     resp_takeOutgoingBytes (Some (BoundedObjectStorage_svt (DiskObjectStorage_svt plain_env d_root))) h1
       (BoundedObjectStorage_new d_filled 10) = (Ret (''$3'' @ crlf), h2) \<and>
     hv_drain (RespProtocolHandler_hvt (BoundedObjectStorage_vt (DiskObjectStorage_vt plain_env d_root))
       (Some (BoundedObjectStorage_svt (DiskObjectStorage_svt plain_env d_root)))) n h2 s' = Some (''12345'' @ crlf, h3)"
proof -
  let ?s = "BoundedObjectStorage_new d_filled 10"
  obtain s' where s': "BoundedObjectStorage_put (DiskObjectStorage_vt plain_env d_root) ''a/b'' ''12345'' ?s = (PutOk, s')"
    using put_filled by (auto simp: BoundedObjectStorage_put_def BoundedObjectStorage_new_def Let_def
        BoundedObjectStorage_wouldFit_def BoundedObjectStorage_objectSize_def BoundedObjectStorage_totalBytes_def)
  have "disk_inv plain_env d_root (b_inner ?s)" "disk_view plain_env d_root (b_inner ?s) ''a/b'' = Some ''old''"
    by (simp_all add: BoundedObjectStorage_new_def d_filled_view)
  moreover have three: "to_string (Suc (Suc (Suc 0))) = ''3''" by code_simp
  ultimately show ?thesis
    using RespHandler_get_torn [OF _ resp_ready_new d_key(1), of plain_env d_root ?s "''old''" "''12345''" s'] s'
    by (simp add: str_ok_def three) blast
qed

end
