(* ===== verification/Resp_Streaming.thy ===== *)
theory Resp_Streaming
  imports Resp_Properties Shared_Uploads
begin

text \<open>
  Large values in RESP: a \<open>SET\<close> or \<open>SETNX\<close> whose value is streamed into a write session, in whatever
  pieces it arrives after its header, or skipped when it is rejected, with other clients served in between;
  what happens to the value when its first chunk cannot be written, and to one that was stored under
  the key of a \<open>SETNX\<close> meanwhile.
\<close>

section \<open>Values that are skipped\<close>

lemma resp_receive_discarding:
  "rh_state h = DiscardingRejectedValue \<Longrightarrow> resp_onBytesReceived ovt svt d h s =
    resp_continueDiscardingValue (\<lambda>d h s. resp_onBytesReceived ovt svt d h s) d h s"
  by (subst resp_onBytesReceived.simps) (simp add: resp_receive_def)

lemma resp_receive_streaming:
  "rh_state h = StreamingValue \<Longrightarrow> resp_onBytesReceived ovt svt d h s =
    resp_continueStreamingValue svt (\<lambda>d h s. resp_onBytesReceived ovt svt d h s) d h s"
  by (subst resp_onBytesReceived.simps) (simp add: resp_receive_def)

lemma resp_discard:
  assumes "rh_state h = DiscardingRejectedValue"
  shows "length d < rh_discardBytesRemaining h \<Longrightarrow> resp_onBytesReceived ovt svt d h s =
      (Ret True, h\<lparr>rh_discardBytesRemaining := rh_discardBytesRemaining h - length d\<rparr>, s)"
    and "length d = rh_discardBytesRemaining h \<Longrightarrow> resp_onBytesReceived ovt svt d h s =
      (Ret True, h\<lparr>rh_discardBytesRemaining := 0, rh_state := ParsingCommands\<rparr>, s)"
  by (simp_all add: resp_receive_discarding [OF assms] resp_continueDiscardingValue_def Let_def)

context shared_uploads
begin

lemma resp_feed_discard:
  assumes "fed_among (resp_onBytesReceived ovt (Some svt)) (others k) ds h s t r h' s'" "inv s"
    and "rh_state h = DiscardingRejectedValue" "[] \<notin> set ds" "rh_discardBytesRemaining h = length (concat ds)"
  shows "r = Ret True \<and> h' = h\<lparr>rh_discardBytesRemaining := 0, rh_state := ParsingCommands\<rparr> \<and> s' = t \<and>
    inv t \<and> others_seen k s t"
  using assms
proof (induction rule: fed_among.induct)
  case (fed_last d h s r h' s' ds)
  show ?case
  proof (cases "ds = []")
    case True
    then have "length d = rh_discardBytesRemaining h" using fed_last.prems(4) by simp
    with resp_discard(2) [OF fed_last.prems(2) this, of ovt "Some svt" s] fed_last.hyps(1) fed_last.prems(1) show ?thesis by simp
  next
    case False
    then have "concat ds \<noteq> []" using fed_last.prems(3) by (cases ds) auto
    then have "length d < rh_discardBytesRemaining h" using fed_last.prems(4) by simp
    with resp_discard(1) [OF fed_last.prems(2) this, of ovt "Some svt" s] fed_last.hyps False show ?thesis by simp
  qed
next
  case (fed_more d h s h1 s1 ds t r h' s')
  have "concat ds \<noteq> []" using fed_among_some [OF fed_more.hyps(2)] fed_more.prems(3) by (cases ds) auto
  then have "length d < rh_discardBytesRemaining h" using fed_more.prems(4) by simp
  from resp_discard(1) [OF fed_more.prems(2) this, of ovt "Some svt" s] fed_more.hyps(1)
  have "h1 = h\<lparr>rh_discardBytesRemaining := rh_discardBytesRemaining h - length d\<rparr>" "s1 = s" by simp_all
  with fed_more.IH fed_more.prems show ?case by simp
next
  case (fed_other s s1 ds h t r h' s')
  from fed_other.IH [OF others_inv [OF fed_other.prems(1) fed_other.hyps(1)] fed_other.prems(2-)]
    others_step [OF fed_other.prems(1) fed_other.hyps(1)] show ?case by blast
qed

end

section \<open>Values that are stored\<close>

text \<open>The reply to a value that was stored; nothing else is answered like it.\<close>

definition stored_reply :: "bool \<Rightarrow> bytes" where
  "stored_reply nx = (if nx then respreply_integer 1 else respreply_ok)"

lemma to_string_01: "to_string 0 \<noteq> to_string (Suc 0)"
  by code_simp

lemma stored_reply_distinct:
  "stored_reply nx \<noteq> []" "respreply_error m \<noteq> stored_reply nx"
  "r \<noteq> PutOk \<Longrightarrow> respreply_putResultToReply r \<noteq> stored_reply nx"
  "respreply_integer 0 \<noteq> stored_reply nx"
  by (auto simp: stored_reply_def respreply_error_def respreply_integer_def respreply_ok_def to_string_int_def
        to_string_01
      elim!: respreply_putResultToReply.elims)

lemma skipTrailing: "resp_skipTrailing n d = (n - length d, drop n d)"
  by (induction n d rule: resp_skipTrailing.induct) simp_all

text \<open>
  What has become of a value after its last byte: one reply was queued and the handler is idle, or
  the connection is given up; the value is stored exactly when the reply says so.
\<close>

definition value_result ::
    "('s \<Rightarrow> string \<Rightarrow> bytes option) \<Rightarrow> string \<Rightarrow> bytes \<Rightarrow> bool \<Rightarrow> ('w, 'r) resp_handler \<Rightarrow> 's
      \<Rightarrow> bool outcome \<Rightarrow> ('w, 'r) resp_handler \<Rightarrow> 's \<Rightarrow> bool" where
  "value_result view k v nx h s r h' s' \<longleftrightarrow>
     view s' = (if rh_outgoingBuffer h' = rh_outgoingBuffer h @ stored_reply nx
                then (view s)(k \<mapsto> v) else view s) \<and>
     (r = Ret True \<longrightarrow> resp_idle h' \<and> (\<exists>b. b \<noteq> [] \<and> rh_outgoingBuffer h' = rh_outgoingBuffer h @ b))"

lemma value_result_cong:
  "rh_outgoingBuffer g = rh_outgoingBuffer h \<Longrightarrow>
    value_result view k v nx g s r h' s' \<longleftrightarrow> value_result view k v nx h s r h' s'"
  by (simp add: value_result_def)

lemma value_refused:
  assumes "view s' = view s" "rh_outgoingBuffer h' = rh_outgoingBuffer h @ b" "b \<noteq> stored_reply nx"
    and "b \<noteq> []" "resp_idle h' \<or> r \<noteq> Ret True"
  shows "value_result view k v nx h s r h' s'"
  using assms by (auto simp: value_result_def)

context streaming_store
begin

text \<open>The first part of \<open>continueStreamingValue\<close>: what is left of the value is written.\<close>

lemma resp_write_value:
  assumes "rh_state h = StreamingValue" "rh_activeSession h = Some w" "uploads w k b s" "inv s" "str_ok d"
  defines "n \<equiv> rh_valueBytesRemaining h"
  obtains s2 h2 where "resp_onBytesReceived ovt (Some svt) d h s = (Ret False, h2, s2)" "inv s2" "view s2 = view s"
      "rh_outgoingBuffer h2 = rh_outgoingBuffer h @ respreply_error ''write failed''"
    | w1 s1 where "resp_onBytesReceived ovt (Some svt) d h s =
        resp_endStreamingValue (Some svt) (\<lambda>d h s. resp_onBytesReceived ovt (Some svt) d h s) (drop n d)
          (h\<lparr>rh_activeSession := Some w1, rh_valueBytesRemaining := n - length d\<rparr>) s1"
      "inv s1" "view s1 = view s" "uploads w1 k (b @ take n d) s1"
proof (cases "n > 0")
  case False
  then have "h\<lparr>rh_activeSession := Some w, rh_valueBytesRemaining := n - length d\<rparr> = h"
    using assms(2) by (cases h) (simp add: n_def)
  with False assms(3,4) that(2) [of w s] show ?thesis
    by (simp add: resp_receive_streaming [OF assms(1)] resp_continueStreamingValue_def n_def)
next
  case True
  have min: "take (min (length d) n) d = take n d" "drop (min (length d) n) d = drop n d" "n - min (length d) n = n - length d"
    by (auto simp: min_def)
  obtain ok w1 s1 where wr: "vt_writeChunk svt w (take n d) s = (ok, w1, s1)" by (rule prod_cases3)
  have "str_ok (take n d)" using assms(5) by (auto simp: str_ok_def)
  from writeChunk [OF assms(4,3) this wr] have s1: "inv s1" "view s1 = view s" "uploads w1 k (b @ take n d) s1" by auto
  show ?thesis
  proof (cases ok)
    case False
    obtain w2 s2 where ab: "vt_abort svt w1 s1 = (w2, s2)" by fastforce
    from abort [OF s1(1,3) ab] s1(2) have "inv s2" "view s2 = view s" by auto
    then show ?thesis
      using False True that(1) [of _ s2]
      by (simp add: resp_receive_streaming [OF assms(1)] resp_continueStreamingValue_def assms(2) Let_def
          wr ab min resp_queueResponse_def flip: n_def)
  next
    case True
    then show ?thesis
      using \<open>n > 0\<close> s1 that(2) [of w1 s1]
      by (simp add: resp_receive_streaming [OF assms(1)] resp_continueStreamingValue_def assms(2) Let_def
          wr min flip: n_def)
  qed
qed

text \<open>The second part: the handler waits for the rest, or ends the upload with the last line end.\<close>

lemma resp_end_more:
  assumes "length d < rh_valueBytesRemaining h + rh_trailingCrlfRemaining h" "0 < rh_trailingCrlfRemaining h"
  shows "\<exists>h2. resp_endStreamingValue (Some svt) f (drop (rh_valueBytesRemaining h) d)
      (h\<lparr>rh_activeSession := Some w, rh_valueBytesRemaining := rh_valueBytesRemaining h - length d\<rparr>) s = (Ret True, h2, s) \<and>
    rh_state h2 = rh_state h \<and> rh_activeSession h2 = Some w \<and> rh_incomingBuffer h2 = rh_incomingBuffer h \<and>
    rh_isSetNx h2 = rh_isSetNx h \<and> rh_outgoingBuffer h2 = rh_outgoingBuffer h \<and>
    rh_valueBytesRemaining h2 = rh_valueBytesRemaining h - length d \<and> 0 < rh_trailingCrlfRemaining h2 \<and>
    rh_valueBytesRemaining h2 + rh_trailingCrlfRemaining h2 =
      rh_valueBytesRemaining h + rh_trailingCrlfRemaining h - length d"
  using assms by (cases "rh_valueBytesRemaining h > length d") (auto simp: resp_endStreamingValue_def skipTrailing)

lemma resp_end_last:
  assumes "length d = rh_valueBytesRemaining h + rh_trailingCrlfRemaining h" "0 < rh_trailingCrlfRemaining h"
    and up: "inv s1" "view s1 = view s" "uploads w k b s1" and idle: "rh_incomingBuffer h = []"
  shows "\<exists>h2 s2. resp_endStreamingValue (Some svt) f (drop (rh_valueBytesRemaining h) d)
      (h\<lparr>rh_activeSession := Some w, rh_valueBytesRemaining := rh_valueBytesRemaining h - length d\<rparr>) s1 = (Ret True, h2, s2) \<and>
    inv s2 \<and> value_result view k b (rh_isSetNx h) h s (Ret True) h2 s2"
proof -
  obtain q w2 s2 where fin: "vt_finish svt w s1 = (q, w2, s2)" by (rule prod_cases3)
  from finish [OF up(1,3) fin] up(2)
  have s2: "inv s2" "view s2 = (if q = PutOk then (view s)(k \<mapsto> b) else view s)" by auto
  let ?reply = "if q = PutOk then stored_reply (rh_isSetNx h) else respreply_putResultToReply q"
  let ?h1 = "h\<lparr>rh_activeSession := Some w, rh_valueBytesRemaining := rh_valueBytesRemaining h - length d\<rparr>"
  let ?h2 = "(resp_queueResponse ?reply (?h1\<lparr>rh_trailingCrlfRemaining := 0, rh_activeSession := None\<rparr>))
    \<lparr>rh_state := ParsingCommands\<rparr>"
  have "resp_endStreamingValue (Some svt) f (drop (rh_valueBytesRemaining h) d) ?h1 s1 = (Ret True, ?h2, s2)"
    using assms(1,2)
    by (auto simp: resp_endStreamingValue_def skipTrailing resp_finishStreamingValue_def fin Let_def
        stored_reply_def resp_queueResponse_def)
  moreover have "value_result view k b (rh_isSetNx h) h s (Ret True) ?h2 s2"
    using s2 idle stored_reply_distinct(1,3) by (auto simp: value_result_def resp_queueResponse_def resp_idle_def)
  ultimately show ?thesis using s2(1) by blast
qed

end

text \<open>The value in any reads, with other clients between them: when it ends, the object is what was sent.\<close>

context shared_uploads
begin

lemma resp_upload:
  assumes "fed_among (resp_onBytesReceived ovt (Some svt)) (others k) ds h s t r h' s'"
    and "inv s" "uploads w k b s" "rh_state h = StreamingValue" "rh_activeSession h = Some w"
    and "rh_incomingBuffer h = []" "rh_isSetNx h = nx"
    and "rh_valueBytesRemaining h + rh_trailingCrlfRemaining h = length (concat ds)"
    and "0 < rh_trailingCrlfRemaining h" "[] \<notin> set ds" "str_ok (concat ds)"
  shows "inv s' \<and> others_seen k s t \<and>
    value_result view k (b @ take (rh_valueBytesRemaining h) (concat ds)) nx h t r h' s'"
  using assms
proof (induction arbitrary: w b rule: fed_among.induct)
  case (fed_last d h s r h' s' ds)
  let ?n = "rh_valueBytesRemaining h" and ?f = "\<lambda>d h s. resp_onBytesReceived ovt (Some svt) d h s"
  have d: "str_ok d" using fed_last.prems(10) by (simp add: str_ok_def)
  show ?case
  proof (rule resp_write_value [OF fed_last.prems(3,4,2,1) d, of ovt])
    fix s2 h2
    assume "resp_onBytesReceived ovt (Some svt) d h s = (Ret False, h2, s2)" "inv s2" "view s2 = view s"
      "rh_outgoingBuffer h2 = rh_outgoingBuffer h @ respreply_error ''write failed''"
    then show ?thesis using fed_last.hyps(1) stored_reply_distinct(2) by (auto intro!: value_refused)
  next
    fix w1 s1
    assume step: "resp_onBytesReceived ovt (Some svt) d h s = resp_endStreamingValue (Some svt) ?f (drop ?n d)
        (h\<lparr>rh_activeSession := Some w1, rh_valueBytesRemaining := ?n - length d\<rparr>) s1"
      and s1: "inv s1" "view s1 = view s" "uploads w1 k (b @ take ?n d) s1"
    show ?thesis
    proof (cases "ds = []")
      case True
      then have "length d = ?n + rh_trailingCrlfRemaining h" using fed_last.prems(7) by simp
      from resp_end_last [OF this fed_last.prems(8) s1 fed_last.prems(5), of ?f] fed_last.hyps(1) fed_last.prems(6) True
      show ?thesis by (auto simp flip: step)
    next
      case False
      then have "0 < length (concat ds)" using fed_last.prems(9) by (cases ds) auto
      then have "length d < ?n + rh_trailingCrlfRemaining h" using fed_last.prems(7) by simp
      from resp_end_more [OF this fed_last.prems(8), of ?f w1 s1] fed_last.hyps False show ?thesis by (auto simp flip: step)
    qed
  qed
next
  case (fed_more d h s h2 s2 ds t r h' s')
  let ?n = "rh_valueBytesRemaining h" and ?f = "\<lambda>d h s. resp_onBytesReceived ovt (Some svt) d h s"
  have d: "str_ok d" using fed_more.prems(10) by (simp add: str_ok_def)
  show ?case
  proof (rule resp_write_value [OF fed_more.prems(3,4,2,1) d, of ovt])
    fix s2 h2
    assume "resp_onBytesReceived ovt (Some svt) d h s = (Ret False, h2, s2)"
    then show ?thesis using fed_more.hyps(1) by simp
  next
    fix w1 s1
    assume step: "resp_onBytesReceived ovt (Some svt) d h s = resp_endStreamingValue (Some svt) ?f (drop ?n d)
        (h\<lparr>rh_activeSession := Some w1, rh_valueBytesRemaining := ?n - length d\<rparr>) s1"
      and s1: "inv s1" "view s1 = view s" "uploads w1 k (b @ take ?n d) s1"
    have "0 < length (concat ds)" using fed_among_some [OF fed_more.hyps(2)] fed_more.prems(9) by (cases ds) auto
    then have "length d < ?n + rh_trailingCrlfRemaining h" using fed_more.prems(7) by simp
    from resp_end_more [OF this fed_more.prems(8), of ?f w1 s1] fed_more.hyps(1) fed_more.prems(7)
    have h2: "rh_state h2 = rh_state h" "rh_activeSession h2 = Some w1" "rh_incomingBuffer h2 = rh_incomingBuffer h"
        "rh_isSetNx h2 = rh_isSetNx h" "rh_valueBytesRemaining h2 + rh_trailingCrlfRemaining h2 = length (concat ds)"
        "0 < rh_trailingCrlfRemaining h2" and s2: "s2 = s1"
      and same: "rh_outgoingBuffer h2 = rh_outgoingBuffer h" "rh_valueBytesRemaining h2 = ?n - length d"
      unfolding step by auto
    have "inv s' \<and> others_seen k s1 t \<and>
        value_result view k ((b @ take ?n d) @ take (rh_valueBytesRemaining h2) (concat ds)) nx h2 t r h' s'"
      using fed_more.prems(3,5,6,9,10) h2(1,3,4) unfolding s2
      by (intro fed_more.IH [unfolded s2, OF s1(1,3) _ h2(2) _ _ h2(5,6)]) (auto simp: str_ok_def)
    moreover have "(b @ take ?n d) @ take (?n - length d) (concat ds) = b @ take ?n (concat (d # ds))" by simp
    ultimately show ?thesis using value_result_cong [OF same(1)] s1(2) same(2) by metis
  qed
next
  case (fed_other s s1 ds h t r h' s')
  note other = fed_other.prems(1) fed_other.hyps(1)
  from fed_other.IH [OF others_inv [OF other] others_upload [OF other(1) fed_other.prems(2) other(2)] fed_other.prems(3-)]
    others_step [OF other] show ?case by blast
qed

end

section \<open>The header of the value\<close>

text \<open>The header in the terms of the code: a command that is streamed.\<close>

definition set_ok :: "bool \<Rightarrow> bytes \<Rightarrow> bytes \<Rightarrow> nat \<Rightarrow> bool" where
  "set_ok nx c k n \<longleftrightarrow>
     utils_toUpper c = (if nx then ''SETNX'' else ''SET'') \<and> length c < 2 ^ 31 \<and> length k < 2 ^ 31 \<and>
     kStreamingThreshold < n \<and> n < 2 ^ 31"

lemma set_header_written:
  assumes "set_ok nx c k n"
  shows "resp_setHeader (set_header_bytes c k n @ post) =
    Some \<lparr>sh_isSetNx = nx, sh_key = k, sh_expectedSize = n, sh_leftover = post\<rparr>"
proof -
  have "n < 2 ^ 63" using assms by (simp add: set_ok_def)
  with resp_setHeader_written [of c k n post] assms show ?thesis by (auto simp: set_ok_def)
qed

lemma set_header_partly:
  assumes "set_ok nx c k n" "set_header_bytes c k n = b @ rest" "rest \<noteq> []"
  shows "resp_setHeader b = None"
proof (rule ccontr)
  assume "resp_setHeader b \<noteq> None"
  then obtain hdr where "resp_setHeader b = Some hdr" by blast
  from resp_setHeader_append [OF this, of rest] set_header_written [OF assms(1), of "[]"] assms(2,3)
  show False by (cases hdr) simp
qed

lemma set_header_incomplete:
  fixes v :: bytes
  assumes "set_ok nx c k (length v)" "set_header_bytes c k (length v) = b @ rest" "rest \<noteq> []"
  shows "fst (RespParser_parse b) = RespIncomplete"
proof (rule RespParser_parse_prefix)
  show "length [c, k, v] \<le> 100000" "\<forall>x\<in>set [c, k, v]. length x < 2 ^ 31"
    using assms(1) by (simp_all add: set_ok_def)
  show "resp_command [c, k, v] = b @ rest @ v @ crlf" by (simp add: resp_command_header assms(2))
  show "rest @ v @ crlf \<noteq> []" using assms(3) by simp
qed

text \<open>A read that ends in the header is kept; the read with its end begins the upload or rejects it.\<close>

lemma resp_receive_header:
  fixes d :: bytes
  assumes "rh_state h = ParsingCommands"
  defines "g \<equiv> h\<lparr>rh_incomingBuffer := rh_incomingBuffer h @ d\<rparr>"
  shows "resp_onBytesReceived ovt (Some t) d h s =
    (case resp_tryBeginStreamingSetValue ovt t (\<lambda>d h s. resp_onBytesReceived ovt (Some t) d h s) g s of
       (Ret False, h2, s2) \<Rightarrow> resp_runBuffer ovt (Some t) h2 s2 | r \<Rightarrow> r)"
  unfolding g_def using assms(1)
  by (subst resp_onBytesReceived.simps)
    (auto simp: resp_receive_def Let_def split: prod.split outcome.split bool.split)

text \<open>The handler after the header of a value of \<open>n\<close> bytes: it discards the value, or has begun its upload.\<close>

definition value_rejected :: "bool \<Rightarrow> nat \<Rightarrow> ('w, 'r) resp_handler \<Rightarrow> ('w, 'r) resp_handler \<Rightarrow> bool" where
  "value_rejected nx n h h' \<longleftrightarrow>
     (\<exists>b. rh_outgoingBuffer h' = rh_outgoingBuffer h @ b \<and> b \<noteq> stored_reply nx \<and> b \<noteq> []) \<and>
     rh_state h' = DiscardingRejectedValue \<and> rh_discardBytesRemaining h' = n + 2 \<and> rh_incomingBuffer h' = []"

definition value_begun :: "bool \<Rightarrow> nat \<Rightarrow> 'w \<Rightarrow> ('w, 'r) resp_handler \<Rightarrow> ('w, 'r) resp_handler \<Rightarrow> bool" where
  "value_begun nx n w h h' \<longleftrightarrow>
     rh_state h' = StreamingValue \<and> rh_activeSession h' = Some w \<and> rh_isSetNx h' = nx \<and>
     rh_valueBytesRemaining h' = n \<and> rh_trailingCrlfRemaining h' = 2 \<and> rh_incomingBuffer h' = [] \<and>
     rh_outgoingBuffer h' = rh_outgoingBuffer h"

lemma resp_rejectValue_rejected:
  assumes "sh_leftover hdr = []" "b \<noteq> stored_reply nx" "b \<noteq> []" "sh_expectedSize hdr = n"
  shows "\<exists>h'. resp_rejectValue f b hdr h s = (Ret True, h', s) \<and> value_rejected nx n h h'"
  using assms by (simp add: resp_rejectValue_def value_rejected_def resp_queueResponse_def Let_def)

context streaming_store
begin

lemma resp_begin_upload:
  fixes nx :: bool and n :: nat
  assumes "inv s" "good k"
  defines "hdr \<equiv> \<lparr>sh_isSetNx = nx, sh_key = k, sh_expectedSize = n, sh_leftover = []\<rparr>"
  shows "\<exists>h1 s1. resp_beginStreamingSetValue svt f hdr h s = (Ret True, h1, s1) \<and> inv s1 \<and> view s1 = view s \<and>
    (value_rejected nx n h h1 \<or> (\<exists>w. uploads w k [] s1 \<and> value_begun nx n w h h1))"
proof -
  obtain res s1 where bp: "vt_beginPut svt k (of_nat n) s = (res, s1)" by fastforce
  from beginPut [OF assms(1,2) bp] have s1: "inv s1" "view s1 = view s"
    "bp_status res = PutOk \<longrightarrow> (\<exists>w. bp_session res = Some w \<and> uploads w k [] s1)" by auto
  show ?thesis
  proof (cases "bp_status res = PutOk")
    case True
    with s1(3) obtain w where "bp_session res = Some w" "uploads w k [] s1" by blast
    with True s1(1,2) show ?thesis
      by (auto simp: resp_beginStreamingSetValue_def bp hdr_def value_begun_def Let_def)
  next
    case False
    with stored_reply_distinct have "respreply_putResultToReply (bp_status res) \<noteq> stored_reply nx" by blast
    from resp_rejectValue_rejected [of hdr, OF _ this, of n f h s1] False s1(1,2) show ?thesis
      by (auto simp: resp_beginStreamingSetValue_def bp hdr_def)
  qed
qed

lemma resp_begin_value:
  assumes "rh_state h = ParsingCommands" "set_ok nx c k n" "rh_incomingBuffer h @ d = set_header_bytes c k n"
    and "inv s" "good k"
  obtains h1 where "fst (resp_onBytesReceived vt (Some svt) d h s) \<noteq> Ret True"
      "snd (resp_onBytesReceived vt (Some svt) d h s) = (h1, s)" "rh_outgoingBuffer h1 = rh_outgoingBuffer h"
    | h1 s1 where "resp_onBytesReceived vt (Some svt) d h s = (Ret True, h1, s1)" "inv s1" "view s1 = view s"
      "value_rejected nx n h h1 \<or> (\<exists>w. uploads w k [] s1 \<and> value_begun nx n w h h1)"
proof -
  let ?hdr = "\<lparr>sh_isSetNx = nx, sh_key = k, sh_expectedSize = n, sh_leftover = []\<rparr>"
  let ?h = "h\<lparr>rh_incomingBuffer := rh_incomingBuffer h @ d\<rparr>"
  let ?f = "\<lambda>d h s. resp_onBytesReceived vt (Some svt) d h s"
  have hdr: "resp_setHeader (rh_incomingBuffer h @ d) = Some ?hdr"
    using set_header_written [OF assms(2), of "[]"] assms(3) by simp
  note step = resp_receive_header [OF assms(1), of vt svt d s]
  have same: "value_rejected nx n ?h h1 = value_rejected nx n h h1" "value_begun nx n w ?h h1 = value_begun nx n w h h1"
    for h1 w by (simp_all add: value_rejected_def value_begun_def)
  show ?thesis
  proof (cases "nx \<and> vt_exists vt k s \<noteq> Ret False")
    case True
    show ?thesis
    proof (cases "vt_exists vt k s")
      case (Ret e)
      from resp_rejectValue_rejected [of ?hdr "respreply_integer 0" nx n ?f ?h s] obtain h1 where
        "resp_rejectValue ?f (respreply_integer 0) ?hdr ?h s = (Ret True, h1, s)" "value_rejected nx n h h1"
        using stored_reply_distinct by (auto simp: same)
      with True Ret step hdr that(2) [of h1 s] assms(4) show ?thesis
        by (simp add: resp_tryBeginStreamingSetValue_def)
    qed (use True step hdr that(1) in \<open>simp_all add: resp_tryBeginStreamingSetValue_def\<close>)
  next
    case False
    from resp_begin_upload [OF assms(4,5), of ?f nx n ?h] obtain h1 s1 where
      "resp_beginStreamingSetValue svt ?f ?hdr ?h s = (Ret True, h1, s1)" "inv s1" "view s1 = view s"
      "value_rejected nx n h h1 \<or> (\<exists>w. uploads w k [] s1 \<and> value_begun nx n w h h1)"
      by (auto simp: same)
    moreover from this(1) have "resp_onBytesReceived vt (Some svt) d h s = (Ret True, h1, s1)"
      using False step hdr by (auto simp: resp_tryBeginStreamingSetValue_def)
    ultimately show ?thesis using that(2) by blast
  qed
qed

end

text \<open>The value, behind its header.\<close>

context shared_uploads
begin

lemma resp_value_pieces:
  assumes feed: "fed_among (resp_onBytesReceived vt (Some svt)) (others k) vs h1 s1 t r h' s'"
    and set: "set_ok nx c k (length v)" and vs: "concat vs = v @ crlf" "[] \<notin> set vs" and s1: "inv s1"
    and h1: "value_rejected nx (length v) h h1 \<or> (\<exists>w. uploads w k [] s1 \<and> value_begun nx (length v) w h h1)"
  shows "inv s' \<and> others_seen k s1 t \<and> value_result view k v nx h t r h' s'"
proof -
  have len: "length (concat vs) = length v + 2" by (simp add: vs(1) del: length_concat)
  have str: "str_ok (concat vs)" using set len by (simp add: str_ok_def set_ok_def del: length_concat)
  from h1 show ?thesis
  proof (elim disjE exE conjE)
    assume rej: "value_rejected nx (length v) h h1"
    then have "rh_state h1 = DiscardingRejectedValue" "rh_discardBytesRemaining h1 = length (concat vs)"
      using len by (simp_all add: value_rejected_def)
    from resp_feed_discard [OF feed s1 this(1) vs(2) this(2)]
    have "r = Ret True" "h' = h1\<lparr>rh_discardBytesRemaining := 0, rh_state := ParsingCommands\<rparr>" "s' = t" "inv t"
      "others_seen k s1 t" by auto
    with rej show ?thesis by (auto intro!: value_refused simp: resp_idle_def value_rejected_def)
  next
    fix w
    assume up: "uploads w k [] s1" and "value_begun nx (length v) w h h1"
    then have b: "rh_state h1 = StreamingValue" "rh_activeSession h1 = Some w" "rh_isSetNx h1 = nx"
        "rh_valueBytesRemaining h1 = length v" "rh_trailingCrlfRemaining h1 = 2" "rh_incomingBuffer h1 = []"
      and out: "rh_outgoingBuffer h1 = rh_outgoingBuffer h" by (simp_all add: value_begun_def)
    from resp_upload [OF feed s1 up b(1,2,6,3) _ _ vs(2) str] b(4,5) len
    have "inv s' \<and> others_seen k s1 t \<and> value_result view k v nx h1 t r h' s'"
      by (simp add: vs(1) del: length_concat)
    then show ?thesis using value_result_cong [OF out] by metis
  qed
qed

text \<open>A read that ends in the header changes nothing.\<close>

lemma resp_header_more:
  fixes v :: bytes
  assumes "set_ok nx c k (length v)" "rh_state h = ParsingCommands" "hs \<noteq> []" "[] \<notin> set hs"
    and "rh_incomingBuffer h @ concat (d # hs) = set_header_bytes c k (length v)"
  shows "resp_onBytesReceived vt (Some svt) d h s =
    (Ret True, h\<lparr>rh_incomingBuffer := rh_incomingBuffer h @ d\<rparr>, s)"
proof -
  have head: "set_header_bytes c k (length v) = (rh_incomingBuffer h @ d) @ concat hs" using assms(5) by simp
  have ne: "concat hs \<noteq> []" using assms(3,4) by (cases hs) auto
  have "no_header (Some svt) (rh_incomingBuffer h @ d)"
    using set_header_partly [OF assms(1) head ne] by (simp add: no_header_def)
  from resp_receive_incomplete [OF assms(2) this set_header_incomplete [OF assms(1) head ne]] show ?thesis .
qed

lemma resp_set_pieces:
  assumes "fed_among (resp_onBytesReceived vt (Some svt)) (others k) ds h s t r h' s'" "ds = hs @ vs"
    and set: "set_ok nx c k (length v)" and good: "good k" and vs: "concat vs = v @ crlf" "[] \<notin> set vs"
    and "inv s" "rh_state h = ParsingCommands" "rh_incomingBuffer h @ concat hs = set_header_bytes c k (length v)"
    and "hs \<noteq> []" "[] \<notin> set hs"
  shows "inv s' \<and> others_seen k s t \<and> value_result view k v nx h t r h' s'"
  using assms(1,2,7-)
proof (induction arbitrary: hs rule: fed_among.induct)
  case (fed_last d h s r h' s' ds)
  from fed_last.prems(1,5) obtain hs' where hs: "hs = d # hs'" "ds = hs' @ vs" by (cases hs) auto
  have "ds \<noteq> []" using vs(1) hs(2) by auto
  then have r: "r \<noteq> Ret True" using fed_last.hyps(2) by simp
  have "hs' = []"
    using resp_header_more [OF set fed_last.prems(3), of hs' d s] fed_last.prems(4,6) fed_last.hyps(1) r
    by (auto simp: hs(1))
  then have head: "rh_incomingBuffer h @ d = set_header_bytes c k (length v)" using fed_last.prems(4) hs(1) by simp
  show ?case
  proof (rule resp_begin_value [OF fed_last.prems(3) set head fed_last.prems(2) good])
    fix h1
    assume "snd (resp_onBytesReceived vt (Some svt) d h s) = (h1, s)" "rh_outgoingBuffer h1 = rh_outgoingBuffer h"
    then have "s' = s" "rh_outgoingBuffer h' = rh_outgoingBuffer h" using fed_last.hyps(1) by auto
    with r fed_last.prems(2) stored_reply_distinct(1) show ?thesis by (simp add: value_result_def)
  qed (use fed_last.hyps(1) r in simp)
next
  case (fed_more d h s h1 s1 ds t r h' s')
  from fed_more.prems(1,5) obtain hs' where hs: "hs = d # hs'" "ds = hs' @ vs" by (cases hs) auto
  show ?case
  proof (cases "hs' = []")
    case more: False
    have ne: "[] \<notin> set hs'" and b: "rh_incomingBuffer h @ concat (d # hs') = set_header_bytes c k (length v)"
      using fed_more.prems(4,6) hs(1) by simp_all
    from resp_header_more [OF set fed_more.prems(3) more ne b, of s] fed_more.hyps(1)
    have h1: "h1 = h\<lparr>rh_incomingBuffer := rh_incomingBuffer h @ d\<rparr>" "s1 = s" by simp_all
    from fed_more.IH [OF hs(2) _ _ _ more ne] fed_more.prems(2,3) b
    have "inv s' \<and> others_seen k s t \<and> value_result view k v nx h1 t r h' s'" by (simp add: h1)
    moreover have "rh_outgoingBuffer h1 = rh_outgoingBuffer h" by (simp add: h1(1))
    ultimately show ?thesis using value_result_cong by metis
  next
    case last: True
    then have head: "rh_incomingBuffer h @ d = set_header_bytes c k (length v)" using fed_more.prems(4) hs(1) by simp
    show ?thesis
    proof (rule resp_begin_value [OF fed_more.prems(3) set head fed_more.prems(2) good])
      fix h2 s2
      assume "resp_onBytesReceived vt (Some svt) d h s = (Ret True, h2, s2)" and s2: "inv s2" "view s2 = view s"
        and h2: "value_rejected nx (length v) h h2 \<or> (\<exists>w. uploads w k [] s2 \<and> value_begun nx (length v) w h h2)"
      then have eq: "h2 = h1" "s2 = s1" using fed_more.hyps(1) by simp_all
      have "fed_among (resp_onBytesReceived vt (Some svt)) (others k) vs h1 s1 t r h' s'"
        using fed_more.hyps(2) hs(2) last by simp
      from resp_value_pieces [OF this set vs] s2 h2 show ?thesis by (simp add: eq)
    qed (use fed_more.hyps(1) in simp)
  qed
next
  case (fed_other s s1 ds h t r h' s')
  note other = fed_other.prems(2) fed_other.hyps(1)
  from fed_other.IH [OF fed_other.prems(1) others_inv [OF other] fed_other.prems(3-)] others_step [OF other]
  show ?case by blast
qed

end

section \<open>Properties of large values\<close>


lemma x_value_ok: "set_ok nx (if nx then ''SETNX'' else ''SET'') ''a/b'' (length x_value)"
  by (simp add: set_ok_def x_value_def kStreamingThreshold_def)

definition x_handler :: "(disk_write bounded_write, ifstream) resp_handler" where
  "x_handler = RespProtocolHandler_new\<lparr>rh_activeSession := Some x_session, rh_valueBytesRemaining := length x_value,
     rh_trailingCrlfRemaining := 2, rh_isSetNx := True, rh_pendingKey := ''a/b'', rh_state := StreamingValue\<rparr>"

lemma x_begun:
  "resp_onBytesReceived (BoundedObjectStorage_vt (DiskObjectStorage_vt plain_env d_root))
     (Some (BoundedObjectStorage_svt (DiskObjectStorage_svt plain_env d_root)))
     (set_header_bytes ''SETNX'' ''a/b'' (length x_value)) RespProtocolHandler_new (BoundedObjectStorage_new d_host 2000000) =
   (Ret True, x_handler, x_storage)"
proof -
  have "resp_setHeader (set_header_bytes ''SETNX'' ''a/b'' (length x_value)) =
      Some \<lparr>sh_isSetNx = True, sh_key = ''a/b'', sh_expectedSize = length x_value, sh_leftover = []\<rparr>"
    using set_header_written [OF x_value_ok [of True, simplified], of "[]"] by simp
  moreover have "DiskObjectStorage_exists plain_env d_root ''a/b'' d_host = Ret False"
    by (simp add: DiskObjectStorage_exists_def d_map) (simp add: d_eval fs_exists_def)
  moreover have "b_inner (BoundedObjectStorage_new d_host 2000000) = d_host" by (simp add: BoundedObjectStorage_new_def)
  ultimately show ?thesis
    by (simp add: resp_receive_header RespProtocolHandler_new_def resp_tryBeginStreamingSetValue_def
      resp_beginStreamingSetValue_def BoundedObjectStorage_exists_def BoundedObjectStorage_beginPut_def d_begin
      x_handler_def x_session_def x_storage_def x_fits x_size length_x_value Let_def)
qed


text \<open>C33.
  A large \<open>SETNX\<close> overwrites. Whether the key is free is asked when the header has arrived; if another
  client stores a value under it before the rest of the value comes, and is told so, the \<open>SETNX\<close> is
  nevertheless answered with 1 and replaces that value, although in no order of the two commands both
  could be answered so and the value of \<open>SETNX\<close> be left.\<close>

theorem RespHandler_setnx_overwrites:
  assumes "disk_inv env root (b_inner s)" "resp_idle h" "set_ok True c k (length v)" "good_key k" "str_ok u"
    and "resp_onBytesReceived (BoundedObjectStorage_vt (DiskObjectStorage_vt env root))
       (Some (BoundedObjectStorage_svt (DiskObjectStorage_svt env root))) (set_header_bytes c k (length v)) h s = (Ret True, h1, s1)"
    and "rh_state h1 = StreamingValue" "rh_activeSession h1 = Some w" "ofs_good (dw_file (bw_inner w))"
    and "BoundedObjectStorage_put (DiskObjectStorage_vt env root) k u s1 = (PutOk, s2)"
  shows "\<exists>h2 s3. disk_view env root (b_inner s2) k = Some u \<and>
    resp_onBytesReceived (BoundedObjectStorage_vt (DiskObjectStorage_vt env root))
      (Some (BoundedObjectStorage_svt (DiskObjectStorage_svt env root))) (v @ crlf) h1 s2 = (Ret True, h2, s3) \<and>
    rh_outgoingBuffer h2 = rh_outgoingBuffer h @ respreply_integer 1 \<and> disk_view env root (b_inner s3) k = Some v"
proof -
  let ?ovt = "BoundedObjectStorage_vt (DiskObjectStorage_vt env root)" and ?inv = "disk_inv env root" and ?n = "length v"
  let ?svt = "BoundedObjectStorage_svt (DiskObjectStorage_svt env root)"
  have idle: "rh_state h = ParsingCommands" "rh_incomingBuffer h @ set_header_bytes c k ?n = set_header_bytes c k ?n"
    using assms(2) by (simp_all add: resp_idle_def)
  have s: "over_inner ?inv s" using assms(1) by (simp add: over_inner_def)
  obtain w0 where w0: "bounded_uploads (disk_uploads env root) w0 k [] s1" "value_begun True ?n w0 h h1" "?inv (b_inner s1)"
    using bdisk.outer.resp_begin_value [OF idle(1) assms(3) idle(2) s assms(4)] assms(6,7)
    by (auto simp: value_rejected_def over_inner_def)
  then have w: "w0 = w" "\<not> bw_finalized w" "disk_uploads env root (bw_inner w) k [] (b_inner s1)"
    using assms(8) by (auto simp: value_begun_def bounded_uploads_def)
  have put: "DiskObjectStorage_put env root k u (b_inner s1) = (PutOk, b_inner s2)"
    using assms(10) by (auto simp: BoundedObjectStorage_put_def Let_def split: if_splits prod.splits)
  have s2: "?inv (b_inner s2)" "disk_view env root (b_inner s2) k = Some u" using Disk_put_view [OF w0(3) assms(4) put] by auto
  have up: "disk_uploads env root (bw_inner w) k [] (b_inner s2)"
    using client_step_upload [OF client_put [OF assms(4) _ assms(5) put] w0(3) w(3)] by simp
  obtain d w1 i1 where chunk: "DiskWriteSession_writeChunk env (bw_inner w) v (b_inner s2) = (d, w1, i1)" by (rule prod_cases3)
  from Disk_upload_completes(1) [OF s2(1) up assms(9) chunk] have d: "d" "ofs_good (dw_file w1)" by simp_all
  from Disk_writeChunk_view [OF s2(1) up chunk] s2(2)
  have i1: "?inv i1" "disk_view env root i1 k = Some u" "disk_uploads env root w1 k v i1" by simp_all
  obtain q w2 i2 where fin: "DiskWriteSession_finish env w1 i1 = (q, w2, i2)" by (rule prod_cases3)
  from Disk_upload_completes(2) [OF i1(1,3) d(2) i1(2) fin] have q: "q = PutOk" .
  from Disk_finish_view [OF i1(1,3) fin] q have stored: "disk_view env root (b_inner (s2\<lparr>b_inner := i2\<rparr>)) k = Some v" by simp
  let ?w = "w\<lparr>bw_bytesWritten := bw_bytesWritten w + of_nat ?n, bw_inner := w1\<rparr>"
  have "vt_writeChunk ?svt w v s2 = (True, ?w, s2\<lparr>b_inner := i1\<rparr>)"
    using d(1) by (simp add: BoundedWriteSession_writeChunk_def chunk)
  moreover have "vt_finish ?svt ?w (s2\<lparr>b_inner := i1\<rparr>) = (PutOk, ?w\<lparr>bw_inner := w2, bw_finalized := True\<rparr>, s2\<lparr>b_inner := i2\<rparr>)"
    using w(2) q by (simp add: BoundedWriteSession_finish_def fin)
  moreover have "v \<noteq> []" using assms(3) by (auto simp: set_ok_def)
  ultimately have "\<exists>h2. resp_onBytesReceived ?ovt (Some ?svt) (v @ crlf) h1 s2 = (Ret True, h2, s2\<lparr>b_inner := i2\<rparr>) \<and>
      rh_outgoingBuffer h2 = rh_outgoingBuffer h @ respreply_integer 1"
    using w0(2) by (simp add: resp_receive_streaming value_begun_def resp_continueStreamingValue_def resp_endStreamingValue_def
      skipTrailing resp_finishStreamingValue_def resp_queueResponse_def Let_def w(1) crlf_cons)
  with s2(2) stored show ?thesis by blast
qed

theorem RespHandler_setnx_overwrites_witness:
  "\<exists>h2 s3. disk_view plain_env d_root (b_inner x_other) ''a/b'' = Some ''u'' \<and>
     resp_onBytesReceived (BoundedObjectStorage_vt (DiskObjectStorage_vt plain_env d_root))
       (Some (BoundedObjectStorage_svt (DiskObjectStorage_svt plain_env d_root))) (x_value @ crlf) x_handler x_other =
       (Ret True, h2, s3) \<and>
     rh_outgoingBuffer h2 = respreply_integer 1 \<and> disk_view plain_env d_root (b_inner s3) ''a/b'' = Some x_value"
proof -
  let ?s = "BoundedObjectStorage_new d_host 2000000"
  let ?h = "RespProtocolHandler_new :: (disk_write bounded_write, ifstream) resp_handler"
  have "disk_inv plain_env d_root (b_inner ?s)" by (simp add: BoundedObjectStorage_new_def)
  moreover have "resp_idle ?h" "rh_outgoingBuffer ?h = []" by (simp_all add: resp_idle_def RespProtocolHandler_new_def)
  moreover have "rh_state x_handler = StreamingValue" "rh_activeSession x_handler = Some x_session"
    "ofs_good (dw_file (bw_inner x_session))"
    by (simp_all add: x_handler_def x_session_def d_session_def)
  ultimately show ?thesis
    using RespHandler_setnx_overwrites [OF _ _ x_value_ok [of True, simplified] d_key(1) _ x_begun _ _ _ x_inserted]
    by (simp add: str_ok_def)
qed

text \<open>C32.
  When the first chunk of a large value arrives with its header and cannot be written, the connection
  is not given up as it is for a later chunk: the error reply is queued, the handler asks for more,
  and the rest of the value is taken for commands. A command inside the value is executed.\<close>

theorem RespHandler_failed_write_runs_value:
  assumes "set_ok False c k n" "resp_idle h" "part \<noteq> []" "length part \<le> n"
    and "vt_beginPut t k (of_nat n) s = (\<lparr>bp_status = PutOk, bp_session = Some w\<rparr>, s1)"
    and "vt_writeChunk t w part s1 = (False, w1, s2)" "vt_abort t w1 s2 = (w2, s3)"
    and "length args \<le> 100000" "\<forall>a\<in>set args. length a < 2 ^ 31" "no_header (Some t) (resp_command args)"
  shows "\<exists>g. resp_idle g \<and> rh_outgoingBuffer g = rh_outgoingBuffer h @ respreply_error ''write failed'' \<and>
    resp_feed ovt (Some t) [set_header_bytes c k n @ part, resp_command args] h s =
      resp_command_result (resp_processCommands ovt (Some t) args g s3) (resp_command args) []"
proof -
  let ?hdr = "\<lparr>sh_isSetNx = False, sh_key = k, sh_expectedSize = n, sh_leftover = part\<rparr>"
  have idle: "rh_state h = ParsingCommands" "rh_incomingBuffer h = []" using assms(2) by (simp_all add: resp_idle_def)
  have hdr: "resp_setHeader (set_header_bytes c k n @ part) = Some ?hdr"
    by (rule set_header_written [OF assms(1)])
  have n: "n > 0" using assms(1) by (simp add: set_ok_def)
  let ?g = "resp_queueResponse (respreply_error ''write failed'')
    (h\<lparr>rh_valueBytesRemaining := n, rh_trailingCrlfRemaining := 2, rh_isSetNx := False,
       rh_pendingKey := k, rh_incomingBuffer := [], rh_activeSession := None, rh_state := ParsingCommands\<rparr>)"
  have "resp_onBytesReceived ovt (Some t) (set_header_bytes c k n @ part) h s = resp_runBuffer ovt (Some t) ?g s3"
    using hdr idle n assms(3-7)
    by (simp add: resp_receive_header [OF idle(1)] resp_tryBeginStreamingSetValue_def resp_beginStreamingSetValue_def
        resp_continueStreamingValue_def resp_queueResponse_def Let_def)
  also have "\<dots> = (Ret True, ?g, s3)"
    by (simp add: resp_runBuffer_def RespParser_parse_def resp_queueResponse_def)
  finally have one: "resp_onBytesReceived ovt (Some t) (set_header_bytes c k n @ part) h s = (Ret True, ?g, s3)" .
  have g: "rh_state ?g = ParsingCommands" "rh_incomingBuffer ?g @ resp_command args = resp_command args @ []"
    "resp_idle ?g" "rh_outgoingBuffer ?g = rh_outgoingBuffer h @ respreply_error ''write failed''"
    by (simp_all add: resp_queueResponse_def resp_idle_def)
  from resp_receive_command [OF g(1) assms(8,9) g(2), of "Some t" ovt s3] assms(10) one
  have "resp_feed ovt (Some t) [set_header_bytes c k n @ part, resp_command args] h s =
      resp_command_result (resp_processCommands ovt (Some t) args ?g s3) (resp_command args) []"
    by (auto simp: resp_command_result_def split: prod.split outcome.split bool.split)
  with g(3,4) show ?thesis by blast
qed

text \<open>A directory \<open>a/b.tmp\<close>, which any client can have made, keeps \<open>a/b\<close> from being written.\<close>

definition d_blocked :: host where
  "d_blocked = \<lparr>hs_nodes = [([''d''], Dir), ([''d'', ''a''], Dir), ([''d'', ''a'', ''b.tmp''], Dir)],
     hs_data = (\<lambda>_. []), hs_next = 0, hs_room = None\<rparr>"

definition d_blocked_session :: disk_write where
  "d_blocked_session = \<lparr>dw_tempPath = [''/'', ''d'', ''a'', ''b.tmp''], dw_finalPath = [''/'', ''d'', ''a'', ''b''],
     dw_file = \<lparr>ofs_file = None, ofs_pos = 0, ofs_buf = [], ofs_good = False\<rparr>, dw_finished = False\<rparr>"

lemma d_blocked_begin:
  "DiskObjectStorage_beginPut plain_env d_root ''a/b'' n d_blocked =
    (\<lparr>bp_status = PutOk, bp_session = Some d_blocked_session\<rparr>, d_blocked)"
  by (simp add: DiskObjectStorage_beginPut_def d_map) (simp add: d_eval d_blocked_def d_blocked_session_def)

theorem RespHandler_failed_write_runs_value_witness:
  "let (r, h', s') = resp_feed (DiskObjectStorage_vt plain_env d_root) (Some (DiskObjectStorage_svt plain_env d_root))
       [set_header_bytes ''SET'' ''a/b'' (length x_value) @ ''x'', resp_command [''PING'']]
       (RespProtocolHandler_new :: (disk_write, ifstream) resp_handler) d_blocked
   in r = Ret True \<and> rh_outgoingBuffer h' = respreply_error ''write failed'' @ respreply_pong"
proof -
  let ?t = "DiskObjectStorage_svt plain_env d_root" and ?ovt = "DiskObjectStorage_vt plain_env d_root"
  let ?h = "RespProtocolHandler_new :: (disk_write, ifstream) resp_handler"
  obtain w2 s3 where abort: "vt_abort ?t d_blocked_session d_blocked = (w2, s3)" by fastforce
  have start: "vt_beginPut ?t ''a/b'' (of_nat (length x_value)) d_blocked =
      (\<lparr>bp_status = PutOk, bp_session = Some d_blocked_session\<rparr>, d_blocked)"
    by (simp add: DiskObjectStorage_svt_def d_blocked_begin)
  have chunk: "vt_writeChunk ?t d_blocked_session ''x'' d_blocked = (False, d_blocked_session, d_blocked)"
    by (simp add: DiskObjectStorage_svt_def DiskWriteSession_writeChunk_def d_blocked_session_def)
  have idle: "resp_idle ?h" by (simp add: resp_idle_def RespProtocolHandler_new_def)
  have "\<not> length [''PING''] = (3::nat)" by simp
  then have none: "no_header (Some ?t) (resp_command [''PING''])" by (simp add: no_header_short)
  have "length ''x'' \<le> length x_value" by (simp add: x_value_def)
  from RespHandler_failed_write_runs_value [OF x_value_ok [of False, simplified] idle _ this start chunk abort _ _ none, of ?ovt]
  obtain g where g: "resp_idle g" "rh_outgoingBuffer g = respreply_error ''write failed''"
    "resp_feed ?ovt (Some ?t) [set_header_bytes ''SET'' ''a/b'' (length x_value) @ ''x'', resp_command [''PING'']] ?h d_blocked =
      resp_command_result (resp_processCommands ?ovt (Some ?t) [''PING''] g s3) (resp_command [''PING'']) []"
    by (auto simp: RespProtocolHandler_new_def simp del: resp_feed.simps)
  have "resp_processCommands ?ovt (Some ?t) [''PING''] g s3 = (Ret (), resp_queueResponse respreply_pong g, s3)"
    by (simp add: resp_command_defs resp_handlePing_def)
  then show ?thesis unfolding Let_def g(3) by (simp add: resp_command_result_def resp_queueResponse_def g(2))
qed

end
