(* ===== verification/Spec2Isabelle.thy ===== *)
theory Spec2Isabelle
  imports Download_Races Resp_Streaming
begin

text \<open>
  \<^bold>\<open>A model of obsto, an object storage server, and its correctness.\<close>

  The program (\<open>App/\<close>, \<open>Core/\<close>) stores byte strings under string keys as files below a root directory,
  keeps the bytes stored within a limit, and serves many clients over TCP, each of which speaks RESP
  (the protocol of Redis) or HTTP on its connection. A read of a connection goes through
  \<open>Session\<close> (\<open>Core/Net\<close>) to the \<open>ProtocolDetectorHandler\<close>, which makes a \<open>RespProtocolHandler\<close> or an
  \<open>HttpProtocolHandler\<close> of it (\<open>Core/Protocol\<close>); these call the \<open>BoundedObjectStorage\<close>, which counts bytes
  with the \<open>StoragePersistency\<close> and calls the \<open>DiskObjectStorage\<close> (\<open>Core/Storage\<close>). Large values are not
  held in memory: they go through write and read sessions, chunk by chunk.

  \<^bold>\<open>How the code is modelled.\<close> A class is a record of its members, a method a function from the
  arguments and the state to the result and the new state, with a branch for every early return. An
  abstract class is a record of functions, its method table. What may throw returns an \<open>outcome\<close>, with
  \<open>Throw\<close> for an exception and \<open>Crash\<close> for undefined behaviour (a null session). \<open>size_t\<close> is \<open>64 word\<close>
  wherever it can wrap (sizes, totals, the capacity), a port \<open>16 word\<close>; positions in buffers and the
  handlers' byte counters, which cannot, are natural numbers. Definitions keep the names of the code,
  prefixed with the class.

  \<^item> \<open>Obsto_Prelude\<close>: the outcome type and what the sources use of the C++ library on strings
    (\<open>find\<close>, \<open>substr\<close>, \<open>stoi\<close>, \<open>stol\<close>, \<open>stoul\<close>, \<open>to_string\<close>, \<open>getline\<close>, \<open>istringstream\<close>), with their laws.
  \<^item> \<open>Storage_Interface\<close>: \<open>IObjectStorage.h\<close>, \<open>IStreamingObjectStorage.h\<close> and the session interfaces as
    method tables, and what they promise as locales. \<open>object_store\<close>: a storage is a partial map from
    keys to values. \<open>reliable_store\<close>: its answers are exact. \<open>streaming_store\<close>: an upload shows nothing
    until it is finished, a download (\<open>download_store\<close>) gives the bytes of the object. \<open>total_store\<close>: nothing throws.
    \<open>null_safe\<close>: a session that is announced is there.
  \<^item> \<open>Object_Storage\<close> (\<open>ObjectStorage.cpp\<close>), \<open>Size_Index\<close> (the accounting of \<open>StoragePersistency.cpp\<close>,
    with the locale \<open>size_index\<close>), \<open>Bounded_Storage\<close> (\<open>BoundedObjectStorage.cpp\<close>,
    \<open>BoundedWriteSession.cpp\<close>) and \<open>Bounded_Streaming\<close>: the in-memory storage, the accounting, and the
    capacity limit over any storage, which keeps the contract of the storage it limits.
  \<^item> \<open>Fs_Path\<close> (what is used of \<open>std::filesystem::path\<close>), \<open>File_System\<close> (the operating system's files
    and the file streams), \<open>Disk_Storage\<close> (\<open>DiskObjectStorage.cpp\<close>, \<open>DiskWriteSession.cpp\<close>,
    \<open>DiskReadSession.cpp\<close>). \<open>Disk_Invariant\<close>: every operation keeps the tree well formed.
    \<open>Disk_Contract\<close>: for canonical keys the disk storage keeps the contracts. \<open>Disk_Confinement\<close>: no
    operation, for any key, reaches out of the root. \<open>Disk_Index\<close>: the scan that fills the index at the
    start. \<open>Disk_Properties\<close>: the properties of the disk storage. \<open>Disk_Isolation\<close>: clients at work at
    the same time do not disturb each other's uploads, unless they upload one object; it shows which
    files each operation touches. \<open>Disk_Snapshot\<close>: a download gives the object as it was, unless it is stored in
    place meanwhile. \<open>Shared_Uploads\<close>: the reads of a connection with the operations of other clients
    between them (\<open>fed_among\<close>), and the locale \<open>shared_uploads\<close> that the handlers' uploads rest on.
  \<^item> \<open>Storage_Guard\<close>: what a storage keeps whatever keys it is called with, as the locale
    \<open>guarded_storage\<close>, lifted to the handlers in \<open>Resp_Safety\<close> and \<open>Http_Safety\<close> and to all runs of the
    server in \<open>Net_Safety\<close>. It is interpreted three times: with nothing asked of the storage (the server
    never crashes), with the accounting (the total is the sum of the recorded sizes), and with the
    directory tree (nothing outside the root changes).
  \<^item> \<open>Resp_Reply\<close>, \<open>Resp_Parser\<close> (\<open>RespReply.h\<close>, \<open>RespParser.cpp\<close>): written commands are read back, in
    any pieces. \<open>Resp_Handler\<close> (\<open>RespProtocolHandler.cpp\<close>, \<open>Utils.h\<close>), \<open>Resp_Properties\<close> (commands in pieces),
    \<open>Resp_Streaming\<close> (large values, among other clients), \<open>Resp_Exchange\<close> (conversations: the replies are those of a map).
  \<^item> \<open>Http_Parser\<close> (\<open>HttpParser.cpp\<close>, \<open>HttpTypes.h\<close>), \<open>Http_Handler\<close> (\<open>HttpProtocolHandler.cpp\<close>),
    \<open>Http_Properties\<close>, \<open>Http_Streaming\<close>, \<open>Http_Exchange\<close>: the same for HTTP.
  \<^item> \<open>Protocol_Detector\<close> (\<open>ProtocolDetectorHandler.cpp\<close>, \<open>IProtocolHandler.h\<close>), \<open>Net_Session\<close> (\<open>Session.cpp\<close>,
    \<open>Server.cpp\<close>), \<open>Net_Properties\<close>, \<open>Session_Exchange\<close>: connections over asio. An asynchronous operation
    is an entry of \<open>ss_pending\<close> or \<open>ss_waits\<close>; \<open>session_step\<close> lets the operating system complete any of
    them, successfully or not, and runs the completion handler; \<open>server_step\<close> interleaves any number of
    sessions, as the one thread of the \<open>io_context\<close> does. \<open>Session_Exchange\<close> runs the schedule in which
    all writes succeed (\<open>session_serve\<close>) and shows it to be one of the step relation.
  \<^item> \<open>App_Main\<close> (\<open>ArgumentParser.cpp\<close>, \<open>ServerConfig.h\<close>, \<open>main.cpp\<close>), \<open>App_Properties\<close>,
    \<open>Server_Properties\<close>: the whole program, from the command line and the bytes a client sends to the
    disk and back. \<open>Download_Races\<close>: replies between whose writes other clients come (\<open>drained_among\<close>).

  \<^bold>\<open>What is shown.\<close> For every part a specification it refines (a map, a size table, a written request or
  command) and an invariant all its operations keep; for the whole program that over either protocol
  it is a map to its clients, that large objects are stored at one moment and sent as they were at one
  moment, whatever other clients do meanwhile (with the exceptions that are stated), that nothing a client does makes it use a null session, leave the root
  directory or report another total than that of the sizes it has recorded, and that every answer
  ends. Properties that end in \<open>_waits\<close>, \<open>_loses\<close>, \<open>_wraps\<close>,
  \<open>_exceeds_limit\<close>, \<open>_runs_value\<close>, \<open>_share_file\<close>, \<open>_torn\<close>, \<open>_overwrites\<close>, \<open>_rejects\<close>, \<open>_counts_twice\<close>, \<open>_timer_off\<close> state what the code does where it falls short of what it
  means to do.

  \<^bold>\<open>Termination and fuel.\<close> The parsers, the walk through a path and the handlers' recursion through
  \<open>onBytesReceived\<close> are total functions: a nested call has fewer bytes to look at. Only sending has fuel,
  the number of writes: \<open>hv_drain\<close>, \<open>session_flush\<close> and \<open>session_serve\<close> return \<open>None\<close> when it is too
  small, more of it changes nothing (\<open>hv_drain_mono\<close>, \<open>hv_serve_mono\<close>), and one more than the number of
  bytes to be sent is enough (\<open>drain_gives\<close>). The properties state that enough exists. A read
  gives at most \<open>kReadBufferSize\<close> bytes.

  \<^bold>\<open>Assumptions on the environment.\<close> The record \<open>os_env\<close> holds what the operating system decides: the
  working directory, the locations it refuses to access, when a stream holds bytes back, and the
  ports that can be listened on. The model of the file system has no links and no other process, and
  paths are POSIX paths. The contract of the disk storage is for a root without dots or trailing
  slash (\<open>root_ok\<close>), canonical keys (\<open>good_key\<close>) and a device that does not fill; confinement, safety and
  accounting are for any key, and for a full device, too. (Confinement is stated for an operating system that
  refuses nothing below the root.)

  \<^bold>\<open>Not modelled.\<close> The internals of asio and of TCP; messages to the console, except the help text;
  mutexes, as one thread runs everything; the moment a written file reaches the platter; the view
  into a cleared buffer in \<open>HttpProtocolHandler\<close>, which is read as the bytes that are still there; the
  destructors of sessions, which close their files only; tests, scripts and build files.
\<close>

end
